(* ===== verification/Itch_Prelude.thy ===== *)
theory Itch_Prelude
  imports Main "HOL-Library.Word" "HOL-Library.Monad_Syntax"
begin

unbundle bit_operations_syntax

text \<open>
  Shared vocabulary of the development: names for the machine types of the C++ code, the
  reading of pointers and of undefined behaviour, generic facts on masks, lists and the
  option monad, and the generic notion of a machine that runs a list of events.

  A C++ pointer into one of the pools is a slot number; \<open>ptr\<close> is a nullable pointer, with
  \<open>None\<close> for \<open>nullptr\<close>. A computation that dereferences memory has type
  \<open>'a exec\<close>: \<open>None\<close> stands for undefined behaviour (a dangling or out-of-block
  access) or for a loop that never returns, \<open>Some\<close> for a normal return.
\<close>

section \<open>Machine types\<close>

type_synonym byte = "8 word"
type_synonym u8 = "8 word"
type_synonym u16 = "16 word"
type_synonym u32 = "32 word"
type_synonym u64 = "64 word"
type_synonym ptr = "nat option"
type_synonym 'a exec = "'a option"

named_theorems exec_simps \<open>evaluation of the pool and pointer primitives\<close>
named_theorems rep_simps \<open>unfolding of the representation predicates\<close>

section \<open>Indices masked by a power of two\<close>

definition pow2_size :: "u64 \<Rightarrow> bool" where
  "pow2_size c \<longleftrightarrow> (\<exists>k<64. c = 2 ^ k)"

lemma unat_two_power:
  assumes "k < 64"
  shows "unat (2 ^ k :: u64) = 2 ^ k"
proof -
  have "(2::nat) ^ k < 2 ^ 64" using assms by (rule power_strict_increasing) simp
  then have "unat (of_nat (2 ^ k) :: u64) = 2 ^ k" by (subst unat_of_nat) simp
  then show ?thesis by simp
qed

lemma unat_of_nat64: "n < 2 ^ 64 \<Longrightarrow> unat (of_nat n :: u64) = n"
  by (simp add: unat_of_nat take_bit_nat_eq_self)

lemma pow2_size_unat: "pow2_size c \<Longrightarrow> \<exists>k<64. unat c = 2 ^ k"
  by (auto simp: pow2_size_def unat_two_power)

lemma pow2_size_pos: "pow2_size c \<Longrightarrow> 0 < unat c"
  using pow2_size_unat by fastforce

lemma unat_and_mask:
  assumes "pow2_size c"
  shows "unat (x AND (c - 1)) = unat x mod unat c"
proof -
  from assms obtain k where k: "k < 64" "c = 2 ^ k" by (auto simp: pow2_size_def)
  have "x AND (c - 1) = take_bit k x"
    by (simp add: k(2) take_bit_eq_mask mask_eq_decr_exp)
  moreover have "unat c = 2 ^ k"
    using k by (simp add: unat_two_power)
  ultimately show ?thesis
    by (simp only: unsigned_take_bit_eq) (simp add: take_bit_eq_mod)
qed

lemma unat_and_mask_less: "pow2_size c \<Longrightarrow> unat (x AND (c - 1)) < unat c"
  by (simp add: unat_and_mask pow2_size_pos)

lemma nat_bit_top: "2 ^ k \<le> n \<Longrightarrow> n < 2 ^ Suc k \<Longrightarrow> bit (n :: nat) k"
proof -
  assume "2 ^ k \<le> n" "n < 2 ^ Suc k"
  then have "n div 2 ^ k = 1" by (simp add: Suc_le_eq div_nat_eqI)
  then show "bit n k" by (simp add: bit_iff_odd)
qed

lemma pow2_test:
  fixes c :: u64
  shows "c \<noteq> 0 \<and> c AND (c - 1) = 0 \<longleftrightarrow> pow2_size c"
proof
  assume c: "c \<noteq> 0 \<and> c AND (c - 1) = 0"
  then have pos: "0 < unat c" by (simp add: unat_gt_0)
  obtain k where k: "2 ^ k \<le> unat c" "unat c < 2 ^ Suc k" using ex_power_ivl1 [of 2 "unat c"] pos by auto
  have "(2::nat) ^ k < 2 ^ 64" using k(1) unsigned_less [of c, where 'a = nat] by simp
  then have k64: "k < 64" using power_less_imp_less_exp [of 2 k 64] by simp
  have "unat c = 2 ^ k"
  proof (rule ccontr)
    assume ne: "unat c \<noteq> 2 ^ k"
    have pred: "unat (c - 1) = unat c - 1" using c by (simp add: unat_minus_one)
    have "bit (unat c) k" "bit (unat (c - 1)) k" using k ne pred by (simp_all add: nat_bit_top)
    then have "bit (c AND (c - 1)) k" by (simp add: bit_and_iff bit_unsigned_iff)
    with c show False by simp
  qed
  then have "c = 2 ^ k" using k64 by (simp add: word_unat_eq_iff unat_two_power)
  with k64 show "pow2_size c" by (auto simp: pow2_size_def)
next
  assume "pow2_size c"
  then have "unat (c AND (c - 1)) = 0" "0 < unat c" using unat_and_mask [of c c] pow2_size_pos by simp_all
  then show "c \<noteq> 0 \<and> c AND (c - 1) = 0" by (auto simp: unat_eq_zero)
qed

section \<open>Runs of a machine\<close>

text \<open>
  A list of events (or of pointers) handled one after the other. A run is undefined as soon
  as one step is.
\<close>

fun exec_list :: "('s \<Rightarrow> 'e \<Rightarrow> 's exec) \<Rightarrow> 's \<Rightarrow> 'e list \<Rightarrow> 's exec" where
  "exec_list f s [] = Some s"
| "exec_list f s (e # es) = do { s' \<leftarrow> f s e; exec_list f s' es }"

lemma exec_list_append:
  "exec_list f s (es @ es') = do { s' \<leftarrow> exec_list f s es; exec_list f s' es' }"
  by (induction es arbitrary: s) (auto split: Option.bind_splits)

text \<open>
  The contract of a machine that implements a specification: an event that is admissible in
  the abstract state is handled without undefined behaviour and with the specified effect. Its
  lemmas lift the step to runs.
\<close>

fun all_admissible :: "('a \<Rightarrow> 'e \<Rightarrow> 'a) \<Rightarrow> ('a \<Rightarrow> 'e \<Rightarrow> bool) \<Rightarrow> 'a \<Rightarrow> 'e list \<Rightarrow> bool" where
  "all_admissible spec ok a [] = True"
| "all_admissible spec ok a (e # es) = (ok a e \<and> all_admissible spec ok (spec a e) es)"

lemma all_admissible_append:
  "all_admissible spec ok a (es @ es') \<longleftrightarrow> all_admissible spec ok a es \<and> all_admissible spec ok (foldl spec a es) es'"
  by (induction es arbitrary: a) auto

locale simulation =
  fixes step :: "'s \<Rightarrow> 'e \<Rightarrow> 's exec"
    and spec :: "'a \<Rightarrow> 'e \<Rightarrow> 'a"
    and rel :: "'s \<Rightarrow> 'a \<Rightarrow> bool"
    and admissible :: "'a \<Rightarrow> 'e \<Rightarrow> bool"
  assumes step_sim: "rel s a \<Longrightarrow> admissible a e \<Longrightarrow> \<exists>s'. step s e = Some s' \<and> rel s' (spec a e)"
begin

lemma run_sim:
  "rel s a \<Longrightarrow> all_admissible spec admissible a es \<Longrightarrow>
   \<exists>s'. exec_list step s es = Some s' \<and> rel s' (foldl spec a es)"
proof (induction es arbitrary: s a)
  case Nil
  then show ?case by simp
next
  case (Cons e es)
  then obtain s' where "step s e = Some s'" "rel s' (spec a e)" using step_sim by fastforce
  with Cons show ?case by simp
qed

lemma run_invariant:
  assumes "rel s a" "all_admissible spec admissible a es" "\<And>s a. rel s a \<Longrightarrow> I s"
  shows "\<exists>s'. exec_list step s es = Some s' \<and> I s'"
  using run_sim [OF assms(1,2)] assms(3) by blast

end

end
