(* ===== verification/Itch_Types.thy ===== *)
theory Itch_Types
  imports Itch_Prelude
begin

text \<open>
  The aliases, enumerations and constants of \<open>include/Types.hpp\<close>.

  The ITCH enumerations are C++ scoped enumerations with the fixed underlying type
  \<open>char\<close>; the parser fills them by \<open>static_cast\<close> from a wire byte, so a variable of
  such a type can hold every byte, not only the named enumerators. They are modelled as
  bytes with one constant per enumerator that the program compares with or initialises a
  field with. \<open>Side\<close> is only ever built by \<open>to_side\<close>, so it is a datatype.
\<close>

section \<open>Aliases\<close>

type_synonym MessageType = byte
type_synonym StockLocate = u16
type_synonym TrackingNumber = u16
type_synonym Timestamp = u64
type_synonym Stock = "byte list"
type_synonym RoundLotSize = u32
type_synonym IssueClassification = byte
type_synonym IssueSubType = "byte list"
type_synonym ETPLeverageFactor = u32
type_synonym Reserved = byte
type_synonym Reason = "byte list"
type_synonym MPID = "byte list"
type_synonym Level1 = u64
type_synonym Level2 = u64
type_synonym Level3 = u64
type_synonym IPOQuotationReleaseTime = u32
type_synonym IPOPrice = u32
type_synonym AuctionCollarReferencePrice = u32
type_synonym UpperAuctionCollarPrice = u32
type_synonym LowerAuctionCollarPrice = u32
type_synonym AuctionCollarExtension = u32
type_synonym OrderReferenceNumber = u64
type_synonym Shares = u32
type_synonym Price = u32
type_synonym Attribution = "byte list"
type_synonym ExecutedShares = u32
type_synonym MatchNumber = u64
type_synonym ExecutionPrice = u32
type_synonym CancelledShares = u32
type_synonym NewOrderReferenceNumber = u64
type_synonym CrossPrice = u32
type_synonym PairedShares = u64
type_synonym ImbalanceShares = u64
type_synonym FarPrice = u32
type_synonym NearPrice = u32
type_synonym CurrentReferencePrice = u32
type_synonym MinimumAllowablePrice = u32
type_synonym MaximumAllowablePrice = u32
type_synonym NearExecutionPrice = u32
type_synonym NearExecutionTime = u64
type_synonym LowerPriceRangeCollar = u32
type_synonym UpperPriceRangeCollar = u32

section \<open>Enumerations\<close>

type_synonym MarketCategory = byte
type_synonym FinancialStatusIndicator = byte
type_synonym RoundLotsOnly = byte
type_synonym Authenticity = byte
type_synonym ShortScaleThresholdIndicator = byte
type_synonym IPOFlag = byte
type_synonym LULDReferencePriceTier = byte
type_synonym ETPFlag = byte
type_synonym InverseIndicator = byte
type_synonym TradingState = byte
type_synonym RegSHOAction = byte
type_synonym BuySellIndicator = byte
type_synonym Printable = byte
type_synonym CrossType = byte

definition ascii :: "char \<Rightarrow> byte" where
  "ascii c = of_char c"

definition BuyOrder :: BuySellIndicator where "BuyOrder = ascii (CHR ''B'')"
definition SellOrder :: BuySellIndicator where "SellOrder = ascii (CHR ''S'')"

definition CrossType_Opening :: CrossType where "CrossType_Opening = ascii (CHR ''O'')"
definition CrossType_Closing :: CrossType where "CrossType_Closing = ascii (CHR ''C'')"
definition CrossType_Halted :: CrossType where "CrossType_Halted = ascii (CHR ''H'')"

definition MarketCategory_NotAvailable :: MarketCategory where
  "MarketCategory_NotAvailable = ascii (CHR '' '')"
definition FinancialStatus_Normal :: FinancialStatusIndicator where
  "FinancialStatus_Normal = ascii (CHR ''N'')"
definition RoundLotsOnly_No :: RoundLotsOnly where
  "RoundLotsOnly_No = ascii (CHR ''N'')"
definition Authenticity_Production :: Authenticity where
  "Authenticity_Production = ascii (CHR ''P'')"
definition ShortScale_NotRestricted :: ShortScaleThresholdIndicator where
  "ShortScale_NotRestricted = ascii (CHR ''N'')"
definition IPOFlag_NotAvailable :: IPOFlag where
  "IPOFlag_NotAvailable = ascii (CHR '' '')"
definition LULDTier_NotAvailable :: LULDReferencePriceTier where
  "LULDTier_NotAvailable = ascii (CHR '' '')"
definition ETPFlag_NotAvailable :: ETPFlag where
  "ETPFlag_NotAvailable = ascii (CHR '' '')"
definition Inverse_NotInverseETP :: InverseIndicator where
  "Inverse_NotInverseETP = ascii (CHR ''N'')"
definition TradingState_Halted :: TradingState where
  "TradingState_Halted = ascii (CHR ''H'')"
definition RegSHOAction_NoPriceTest :: RegSHOAction where
  "RegSHOAction_NoPriceTest = ascii (CHR ''0'')"

datatype Side = Buy | Sell

definition to_side :: "BuySellIndicator \<Rightarrow> Side" where
  "to_side bsi = (if bsi = ascii (CHR ''B'') then Buy else Sell)"

section \<open>Constants\<close>

definition kMaxInstruments :: nat where "kMaxInstruments = 65536"
definition kOrderPoolSize :: nat where "kOrderPoolSize = 2 ^ 24"
definition kPriceLevelPoolSize :: nat where "kPriceLevelPoolSize = 2 ^ 22"
definition kCacheLineSize :: nat where "kCacheLineSize = 64"

section \<open>Layout\<close>

text \<open>The size of a struct from its alignment and the sizes and alignments of its members, in their order.\<close>

definition align_up :: "nat \<Rightarrow> nat \<Rightarrow> nat" where
  "align_up n a = (n + a - 1) div a * a"

definition struct_size :: "nat \<Rightarrow> (nat \<times> nat) list \<Rightarrow> nat" where
  "struct_size alignment members =
     align_up (foldl (\<lambda>off (sz, al). align_up off al + sz) 0 members) (foldl max alignment (map snd members))"

section \<open>Facts\<close>

lemma Side_neq [simp]: "s \<noteq> Sell \<longleftrightarrow> s = Buy" "s \<noteq> Buy \<longleftrightarrow> s = Sell"
  by (cases s; simp)+

lemma to_side_enumerators: "to_side BuyOrder = Buy" "to_side SellOrder = Sell"
  by (simp_all add: to_side_def BuyOrder_def SellOrder_def ascii_def)

lemma kMaxInstruments_locates: "kMaxInstruments = 2 ^ LENGTH(16)"
  by (simp add: kMaxInstruments_def)

end
