(* ===== verification/Itch_Enums.thy ===== *)
theory Itch_Enums
  imports Itch_Types
begin

text \<open>
  Every enumeration of \<open>Types.hpp\<close> over \<open>char\<close> with all its enumerators and their bytes. The program
  casts wire bytes to these types without a check, so a value of such a type is any byte; the lists say
  which bytes have a name. The constants of \<open>Itch_Types\<close> are entries of these lists.
\<close>

section \<open>Enumerations\<close>

type_synonym enumeration = "(string \<times> byte) list"

definition EventCode_enum :: enumeration where
  "EventCode_enum =
    [(''MessagesStart'', ascii (CHR ''O'')), (''SystemHoursStart'', ascii (CHR ''S'')),
     (''MarketHoursStart'', ascii (CHR ''Q'')), (''MarketHoursEnd'', ascii (CHR ''M'')),
     (''SystemHoursEnd'', ascii (CHR ''E'')), (''MessagesEnd'', ascii (CHR ''C''))]"

definition MarketCategory_enum :: enumeration where
  "MarketCategory_enum =
    [(''NasdaqSelect'', ascii (CHR ''Q'')), (''NasdaqGlobal'', ascii (CHR ''G'')),
     (''NasdaqCaptial'', ascii (CHR ''S'')), (''NYSE'', ascii (CHR ''N'')),
     (''AMEX'', ascii (CHR ''A'')), (''ARCA'', ascii (CHR ''P'')), (''TEXAS'', ascii (CHR ''M'')),
     (''BATS'', ascii (CHR ''Z'')), (''IEX'', ascii (CHR ''V'')), (''NotAvailable'', ascii (CHR '' ''))]"

definition FinancialStatusIndicator_enum :: enumeration where
  "FinancialStatusIndicator_enum =
    [(''Deficient'', ascii (CHR ''D'')), (''Delinquent'', ascii (CHR ''E'')),
     (''Bankrupt'', ascii (CHR ''Q'')), (''Suspended'', ascii (CHR ''S'')),
     (''DeficientAndBankrupt'', ascii (CHR ''G'')), (''DeficientAndDelinquent'', ascii (CHR ''H'')),
     (''DelinquentAndBankrupt'', ascii (CHR ''J'')),
     (''DeficientDelinquentBankrupt'', ascii (CHR ''K'')),
     (''CreationRedemptionSuspended'', ascii (CHR ''C'')), (''Normal'', ascii (CHR ''N'')),
     (''NotAvailable'', ascii (CHR '' ''))]"

definition RoundLotsOnly_enum :: enumeration where
  "RoundLotsOnly_enum =
    [(''Yes'', ascii (CHR ''Y'')), (''No'', ascii (CHR ''N''))]"

definition Authenticity_enum :: enumeration where
  "Authenticity_enum =
    [(''Production'', ascii (CHR ''P'')), (''Test'', ascii (CHR ''T''))]"

definition ShortScaleThresholdIndicator_enum :: enumeration where
  "ShortScaleThresholdIndicator_enum =
    [(''Restricted'', ascii (CHR ''Y'')), (''NotRestricted'', ascii (CHR ''N''))]"

definition IPOFlag_enum :: enumeration where
  "IPOFlag_enum =
    [(''NewIPO'', ascii (CHR ''Y'')), (''NotNewIPO'', ascii (CHR ''N'')),
     (''NonIPONewList'', ascii (CHR ''Z'')), (''NotAvailable'', ascii (CHR '' ''))]"

definition LULDReferencePriceTier_enum :: enumeration where
  "LULDReferencePriceTier_enum =
    [(''Tier1'', ascii (CHR ''1'')), (''Tier2'', ascii (CHR ''2'')),
     (''NotAvailable'', ascii (CHR '' ''))]"

definition ETPFlag_enum :: enumeration where
  "ETPFlag_enum =
    [(''ETP'', ascii (CHR ''Y'')), (''NonETP'', ascii (CHR ''N'')), (''NotAvailable'', ascii (CHR '' ''))]"

definition InverseIndicator_enum :: enumeration where
  "InverseIndicator_enum =
    [(''InverseETP'', ascii (CHR ''Y'')), (''NotInverseETP'', ascii (CHR ''N''))]"

definition TradingState_enum :: enumeration where
  "TradingState_enum =
    [(''Halted'', ascii (CHR ''H'')), (''Paused'', ascii (CHR ''P'')),
     (''Quotation'', ascii (CHR ''Q'')), (''Trading'', ascii (CHR ''T''))]"

definition RegSHOAction_enum :: enumeration where
  "RegSHOAction_enum =
    [(''NoPriceTest'', ascii (CHR ''0'')), (''PriceTestInEffect'', ascii (CHR ''1'')),
     (''PriceTestRemains'', ascii (CHR ''2''))]"

definition PrimaryMarketMaker_enum :: enumeration where
  "PrimaryMarketMaker_enum =
    [(''Yes'', ascii (CHR ''Y'')), (''No'', ascii (CHR ''N''))]"

definition MarketMakerMode_enum :: enumeration where
  "MarketMakerMode_enum =
    [(''Normal'', ascii (CHR ''N'')), (''Passive'', ascii (CHR ''P'')),
     (''Syndicate'', ascii (CHR ''S'')), (''PreSyndicate'', ascii (CHR ''R'')),
     (''Penalty'', ascii (CHR ''L''))]"

definition MarketParticipantState_enum :: enumeration where
  "MarketParticipantState_enum =
    [(''Active'', ascii (CHR ''A'')), (''Excused'', ascii (CHR ''E'')),
     (''Withdrawn'', ascii (CHR ''W'')), (''Suspended'', ascii (CHR ''S'')),
     (''Deleted'', ascii (CHR ''D''))]"

definition BreachedLevel_enum :: enumeration where
  "BreachedLevel_enum =
    [(''Level1'', ascii (CHR ''1'')), (''Level2'', ascii (CHR ''2'')), (''Level3'', ascii (CHR ''3''))]"

definition IPOQuotationReleaseQualifier_enum :: enumeration where
  "IPOQuotationReleaseQualifier_enum =
    [(''Anticipate'', ascii (CHR ''A'')), (''Canceled'', ascii (CHR ''C''))]"

definition MarketCode_enum :: enumeration where
  "MarketCode_enum =
    [(''Nasdaq'', ascii (CHR ''Q'')), (''Texas'', ascii (CHR ''B'')), (''PSX'', ascii (CHR ''X''))]"

definition OperationHaltAction_enum :: enumeration where
  "OperationHaltAction_enum =
    [(''Halted'', ascii (CHR ''H'')), (''Resumed'', ascii (CHR ''T''))]"

definition BuySellIndicator_enum :: enumeration where
  "BuySellIndicator_enum =
    [(''BuyOrder'', ascii (CHR ''B'')), (''SellOrder'', ascii (CHR ''S''))]"

definition Printable_enum :: enumeration where
  "Printable_enum =
    [(''Yes'', ascii (CHR ''Y'')), (''No'', ascii (CHR ''N''))]"

definition CrossType_enum :: enumeration where
  "CrossType_enum =
    [(''Opening'', ascii (CHR ''O'')), (''Closing'', ascii (CHR ''C'')), (''Halted'', ascii (CHR ''H''))]"

definition ImbalanceDirection_enum :: enumeration where
  "ImbalanceDirection_enum =
    [(''BuyImbalance'', ascii (CHR ''B'')), (''SellImbalance'', ascii (CHR ''S'')),
     (''NoImbalance'', ascii (CHR ''N'')), (''Insufficient'', ascii (CHR ''O'')),
     (''Paused'', ascii (CHR ''P''))]"

definition PriceVariationIndicator_enum :: enumeration where
  "PriceVariationIndicator_enum =
    [(''LessThan1Percent'', ascii (CHR ''L'')), (''OneTo1_99Percent'', ascii (CHR ''1'')),
     (''TwoTo2_99Percent'', ascii (CHR ''2'')), (''ThreeTo3_99Percent'', ascii (CHR ''3'')),
     (''FourTo4_99Percent'', ascii (CHR ''4'')), (''FiveTo5_99Percent'', ascii (CHR ''5'')),
     (''SixTo6_99Percent'', ascii (CHR ''6'')), (''SevenTo7_99Percent'', ascii (CHR ''7'')),
     (''EightTo8_99Percent'', ascii (CHR ''8'')), (''NineTo9_99Percent'', ascii (CHR ''9'')),
     (''TenTo19_99Percent'', ascii (CHR ''A'')), (''TwentyTo29_99Percent'', ascii (CHR ''B'')),
     (''ThirtyPercentOrGreater'', ascii (CHR ''C'')), (''CannotBeCalculated'', ascii (CHR '' ''))]"

definition InterestFlag_enum :: enumeration where
  "InterestFlag_enum =
    [(''BuySide'', ascii (CHR ''B'')), (''SellSide'', ascii (CHR ''S'')),
     (''BothSides'', ascii (CHR ''A'')), (''None'', ascii (CHR ''N''))]"

definition OpenEligibilityStatus_enum :: enumeration where
  "OpenEligibilityStatus_enum =
    [(''Eligible'', ascii (CHR ''Y'')), (''NotEligible'', ascii (CHR ''N''))]"

definition IssueClassificationValue_enum :: enumeration where
  "IssueClassificationValue_enum =
    [(''AmericanDepositaryShare'', ascii (CHR ''A'')), (''Bond'', ascii (CHR ''B'')),
     (''CommonStock'', ascii (CHR ''C'')), (''DepositoryReceipt'', ascii (CHR ''F'')),
     (''Rule144A'', ascii (CHR ''I'')), (''LimitedPartnership'', ascii (CHR ''L'')),
     (''Notes'', ascii (CHR ''N'')), (''OrdinaryShare'', ascii (CHR ''O'')),
     (''PreferredStock'', ascii (CHR ''P'')), (''OtherSecurities'', ascii (CHR ''Q'')),
     (''Right'', ascii (CHR ''R'')), (''SharesOfBeneficialInterest'', ascii (CHR ''S'')),
     (''ConvertibleDebenture'', ascii (CHR ''T'')), (''Unit'', ascii (CHR ''U'')),
     (''UnitsBeneficialInterest'', ascii (CHR ''V'')), (''Warrant'', ascii (CHR ''W'')),
     (''NotAvailable'', ascii (CHR '' ''))]"

definition enumerator_name :: "enumeration \<Rightarrow> byte \<Rightarrow> string option" where
  "enumerator_name E b = map_option fst (find (\<lambda>(n, c). c = b) E)"

section \<open>Names and bytes\<close>

lemmas enum_defs =
  EventCode_enum_def MarketCategory_enum_def FinancialStatusIndicator_enum_def RoundLotsOnly_enum_def
  Authenticity_enum_def ShortScaleThresholdIndicator_enum_def IPOFlag_enum_def
  LULDReferencePriceTier_enum_def ETPFlag_enum_def InverseIndicator_enum_def TradingState_enum_def
  RegSHOAction_enum_def PrimaryMarketMaker_enum_def MarketMakerMode_enum_def
  MarketParticipantState_enum_def BreachedLevel_enum_def IPOQuotationReleaseQualifier_enum_def
  MarketCode_enum_def OperationHaltAction_enum_def BuySellIndicator_enum_def Printable_enum_def
  CrossType_enum_def ImbalanceDirection_enum_def PriceVariationIndicator_enum_def
  InterestFlag_enum_def OpenEligibilityStatus_enum_def IssueClassificationValue_enum_def

text \<open>In every enumeration each byte names at most one enumerator, and no name is used twice.\<close>

lemma enumerators_distinct:
  "\<forall>E\<in>{EventCode_enum, MarketCategory_enum, FinancialStatusIndicator_enum, RoundLotsOnly_enum,
      Authenticity_enum, ShortScaleThresholdIndicator_enum, IPOFlag_enum,
      LULDReferencePriceTier_enum, ETPFlag_enum, InverseIndicator_enum, TradingState_enum,
      RegSHOAction_enum, PrimaryMarketMaker_enum, MarketMakerMode_enum,
      MarketParticipantState_enum, BreachedLevel_enum, IPOQuotationReleaseQualifier_enum,
      MarketCode_enum, OperationHaltAction_enum, BuySellIndicator_enum, Printable_enum,
      CrossType_enum, ImbalanceDirection_enum, PriceVariationIndicator_enum, InterestFlag_enum,
      OpenEligibilityStatus_enum, IssueClassificationValue_enum}.
     distinct (map fst E) \<and> distinct (map snd E)"
  by (simp add: enum_defs ascii_def)

lemma enumerator_of_name:
  assumes "distinct (map snd E)" "(n, b) \<in> set E"
  shows "enumerator_name E b = Some n"
proof -
  have "find (\<lambda>(n, c). c = b) E = Some (n, b)"
    using assms by (induction E) (auto simp: image_iff)
  then show ?thesis by (simp add: enumerator_name_def)
qed

lemma named_constants:
  "(''BuyOrder'', BuyOrder) \<in> set BuySellIndicator_enum" "(''SellOrder'', SellOrder) \<in> set BuySellIndicator_enum"
  "(''Opening'', CrossType_Opening) \<in> set CrossType_enum" "(''Closing'', CrossType_Closing) \<in> set CrossType_enum"
  "(''Halted'', CrossType_Halted) \<in> set CrossType_enum" "(''Halted'', TradingState_Halted) \<in> set TradingState_enum"
  "(''NotAvailable'', MarketCategory_NotAvailable) \<in> set MarketCategory_enum"
  "(''Normal'', FinancialStatus_Normal) \<in> set FinancialStatusIndicator_enum"
  "(''No'', RoundLotsOnly_No) \<in> set RoundLotsOnly_enum" "(''Production'', Authenticity_Production) \<in> set Authenticity_enum"
  "(''NotRestricted'', ShortScale_NotRestricted) \<in> set ShortScaleThresholdIndicator_enum"
  "(''NotAvailable'', IPOFlag_NotAvailable) \<in> set IPOFlag_enum"
  "(''NotAvailable'', LULDTier_NotAvailable) \<in> set LULDReferencePriceTier_enum"
  "(''NotAvailable'', ETPFlag_NotAvailable) \<in> set ETPFlag_enum"
  "(''NotInverseETP'', Inverse_NotInverseETP) \<in> set InverseIndicator_enum"
  "(''NoPriceTest'', RegSHOAction_NoPriceTest) \<in> set RegSHOAction_enum"
  by (simp_all add: enum_defs BuyOrder_def SellOrder_def CrossType_Opening_def CrossType_Closing_def CrossType_Halted_def
      TradingState_Halted_def MarketCategory_NotAvailable_def FinancialStatus_Normal_def RoundLotsOnly_No_def
      Authenticity_Production_def ShortScale_NotRestricted_def IPOFlag_NotAvailable_def LULDTier_NotAvailable_def
      ETPFlag_NotAvailable_def Inverse_NotInverseETP_def RegSHOAction_NoPriceTest_def)

end
