(* ===== verification/Endian.thy ===== *)
theory Endian
  imports Itch_Prelude
begin

text \<open>
  The big-endian loads of \<open>include/Endian.hpp\<close>. A pointer argument is the list of the bytes
  from that address on. \<open>memcpy\<close> into an integer reads the bytes in the host's order, which
  is the parameter \<open>kIsLittleEndian\<close> here (the code fixes it at compile time). The
  specification is \<open>be_val\<close>: the first byte is the most significant one.
\<close>

section \<open>Definitions\<close>

definition be_val :: "byte list \<Rightarrow> 'a::len word" where
  "be_val bs = foldl (\<lambda>a b. push_bit 8 a OR ucast b) 0 bs"

definition byte_of :: "'a::len word \<Rightarrow> nat \<Rightarrow> byte" where
  "byte_of v i = ucast (drop_bit (8 * i) v)"

definition byteswap :: "nat \<Rightarrow> 'a::len word \<Rightarrow> 'a word" where
  "byteswap n v = be_val (map (byte_of v) [0..<n])"

definition bswap16 :: "u16 \<Rightarrow> u16" where "bswap16 v = byteswap 2 v"
definition bswap32 :: "u32 \<Rightarrow> u32" where "bswap32 v = byteswap 4 v"
definition bswap64 :: "u64 \<Rightarrow> u64" where "bswap64 v = byteswap 8 v"

definition memcpy_int :: "bool \<Rightarrow> nat \<Rightarrow> byte list \<Rightarrow> 'a::len word" where
  "memcpy_int kIsLittleEndian n p =
     (if kIsLittleEndian then be_val (rev (take n p)) else be_val (take n p))"

definition load_be16 :: "bool \<Rightarrow> byte list \<Rightarrow> u16" where
  "load_be16 kIsLittleEndian p =
     (let v = memcpy_int kIsLittleEndian 2 p
      in if kIsLittleEndian then bswap16 v else v)"

definition load_be32 :: "bool \<Rightarrow> byte list \<Rightarrow> u32" where
  "load_be32 kIsLittleEndian p =
     (let v = memcpy_int kIsLittleEndian 4 p
      in if kIsLittleEndian then bswap32 v else v)"

definition load_be64 :: "bool \<Rightarrow> byte list \<Rightarrow> u64" where
  "load_be64 kIsLittleEndian p =
     (let v = memcpy_int kIsLittleEndian 8 p
      in if kIsLittleEndian then bswap64 v else v)"

definition load_be48 :: "byte list \<Rightarrow> u64" where
  "load_be48 cp =
     (let v = 0;
          v = v OR push_bit 40 (ucast (cp ! 0));
          v = v OR push_bit 32 (ucast (cp ! 1));
          v = v OR push_bit 24 (ucast (cp ! 2));
          v = v OR push_bit 16 (ucast (cp ! 3));
          v = v OR push_bit 8 (ucast (cp ! 4));
          v = v OR ucast (cp ! 5)
      in v)"

section \<open>Bytes of a big-endian value\<close>

lemma be_val_Nil [simp]: "be_val [] = 0"
  by (simp add: be_val_def)

lemma be_val_snoc [simp]: "be_val (bs @ [b]) = push_bit 8 (be_val bs) OR ucast b"
  by (simp add: be_val_def)

lemma bit_be_val_rev:
  "bit (be_val (rev bs) :: 'a::len word) i \<longleftrightarrow>
     i < LENGTH('a) \<and> i div 8 < length bs \<and> bit (bs ! (i div 8)) (i mod 8)"
proof (induction bs arbitrary: i)
  case Nil
  then show ?case by simp
next
  case (Cons b bs)
  show ?case
  proof (cases "i < 8")
    case True
    then show ?thesis by (auto simp: bit_simps)
  next
    case False
    then have i: "i div 8 = Suc ((i - 8) div 8)" "i mod 8 = (i - 8) mod 8"
      by (simp_all add: le_div_geq le_mod_geq)
    from False show ?thesis
      by (auto simp: bit_simps Cons.IH i dest: bit_imp_le_length)
  qed
qed

lemma byte_of_be_val_rev:
  assumes "8 * length bs \<le> LENGTH('a)" and "i < length bs"
  shows "byte_of (be_val (rev bs) :: 'a::len word) i = bs ! i"
proof (rule bit_word_eqI)
  fix n assume "n < LENGTH(8)"
  then have n: "n < 8" by simp
  have "8 * i + n < LENGTH('a)" using assms n by linarith
  moreover have "(8 * i + n) div 8 = i" "(8 * i + n) mod 8 = n" using n by simp_all
  ultimately show "bit (byte_of (be_val (rev bs) :: 'a word) i) n = bit (bs ! i) n"
    using n assms by (simp add: byte_of_def bit_simps bit_be_val_rev)
qed

lemma byteswap_be_val_rev:
  assumes "8 * length bs \<le> LENGTH('a)"
  shows "byteswap (length bs) (be_val (rev bs) :: 'a::len word) = be_val bs"
proof -
  have "map (byte_of (be_val (rev bs) :: 'a word)) [0..<length bs] = bs"
    by (rule nth_equalityI) (simp_all add: byte_of_be_val_rev assms)
  then show ?thesis by (simp add: byteswap_def)
qed

section \<open>The loads return the big-endian value on both kinds of host\<close>

lemma load_be16_be_val: "2 \<le> length p \<Longrightarrow> load_be16 le p = be_val (take 2 p)"
  using byteswap_be_val_rev [where 'a = 16, of "take 2 p"]
  by (simp add: load_be16_def memcpy_int_def bswap16_def Let_def)

lemma load_be32_be_val: "4 \<le> length p \<Longrightarrow> load_be32 le p = be_val (take 4 p)"
  using byteswap_be_val_rev [where 'a = 32, of "take 4 p"]
  by (simp add: load_be32_def memcpy_int_def bswap32_def Let_def)

lemma load_be64_be_val: "8 \<le> length p \<Longrightarrow> load_be64 le p = be_val (take 8 p)"
  using byteswap_be_val_rev [where 'a = 64, of "take 8 p"]
  by (simp add: load_be64_def memcpy_int_def bswap64_def Let_def)

lemma load_be48_be_val:
  assumes "6 \<le> length p"
  shows "load_be48 p = be_val (take 6 p)"
proof -
  have "take 6 p = map ((!) p) [0..<6]"
    using assms by (intro nth_equalityI) simp_all
  also have "\<dots> = [p!0, p!1, p!2, p!3, p!4, p!5]"
    by (simp add: upt_rec eval_nat_numeral)
  finally show ?thesis
    by (simp add: load_be48_def Let_def be_val_def push_bit_or push_bit_push_bit)
qed

section \<open>The value as a number\<close>

lemma push_or_value:
  fixes v :: "'a::len word" and b :: byte
  assumes "unat v < 2 ^ k" "k + 8 \<le> LENGTH('a)"
  shows "unat (push_bit 8 v OR ucast b) = unat v * 256 + unat b"
proof -
  have "(2::nat) ^ (k + 8) \<le> 2 ^ LENGTH('a)" using assms(2) by (intro power_increasing) simp_all
  then have bound: "unat v * 256 + 255 < 2 ^ LENGTH('a)"
  proof -
    have "(unat v + 1) * 256 \<le> 2 ^ k * 256" using assms(1) by (intro mult_le_mono1) simp
    then show ?thesis using \<open>2 ^ (k + 8) \<le> 2 ^ LENGTH('a)\<close> by (simp add: power_add)
  qed
  have b: "unat b \<le> 255" using unsigned_less [of b, where 'a = nat] by simp
  have dis: "push_bit 8 v AND ucast b = 0"
    by (rule bit_word_eqI) (auto simp: bit_simps dest: bit_imp_le_length)
  then have "push_bit 8 v OR ucast b = push_bit 8 v + ucast b" by (simp add: disjunctive_add_eq_or)
  moreover have "unat (push_bit 8 v) = unat v * 256"
  proof -
    have "unat (push_bit 8 v) = take_bit LENGTH('a) (unat v * 256)"
      by (subst unsigned_push_bit_eq) (simp add: push_bit_eq_mult)
    then show ?thesis using bound by (simp add: take_bit_nat_eq_self)
  qed
  moreover have "unat (ucast b :: 'a word) = unat b"
    using b bound by (subst unsigned_ucast_eq) (rule take_bit_nat_eq_self, simp)
  ultimately show ?thesis using b bound by (simp add: unat_word_ariths)
qed

lemma unat_be_val:
  assumes "8 * length bs \<le> LENGTH('a)"
  shows "unat (be_val bs :: 'a::len word) = foldl (\<lambda>n b. n * 256 + unat b) 0 bs"
    and "unat (be_val bs :: 'a::len word) < 2 ^ (8 * length bs)"
proof -
  have "unat (be_val bs :: 'a word) = foldl (\<lambda>n b. n * 256 + unat b) 0 bs \<and>
    unat (be_val bs :: 'a word) < 2 ^ (8 * length bs)" using assms
  proof (induction bs rule: rev_induct)
    case Nil
    then show ?case by simp
  next
    case (snoc b bs)
    then have IH: "unat (be_val bs :: 'a word) = foldl (\<lambda>n b. n * 256 + unat b) 0 bs"
      "unat (be_val bs :: 'a word) < 2 ^ (8 * length bs)" by simp_all
    have "unat b \<le> 255" using unsigned_less [of b, where 'a = nat] by simp
    moreover have "(unat (be_val bs :: 'a word) + 1) * 256 \<le> 2 ^ (8 * length bs) * 256"
      using IH(2) by (intro mult_le_mono1) simp
    ultimately show ?case
      using push_or_value [OF IH(2), of b] snoc.prems IH(1) by (simp add: power_add)
  qed
  then show "unat (be_val bs :: 'a word) = foldl (\<lambda>n b. n * 256 + unat b) 0 bs"
    "unat (be_val bs :: 'a word) < 2 ^ (8 * length bs)" by simp_all
qed

text \<open>The assertions of the code on the byte swaps.\<close>

lemma bswap_asserts: "bswap16 0x1234 = 0x3412" "bswap32 0x12345678 = 0x78563412" "bswap64 0x0102030405060708 = 0x0807060504030201"
  by code_simp+

text \<open>
  C31. On a little-endian and on a big-endian host alike, the four loads return the number whose
  base-256 digits are the bytes in the order of their addresses, most significant first, whatever
  follows them.
\<close>

theorem loads_big_endian:
  "unat (load_be16 le (a # b # r)) = unat a * 256 + unat b \<and>
   unat (load_be32 le (a # b # c # d # r)) = ((unat a * 256 + unat b) * 256 + unat c) * 256 + unat d \<and>
   unat (load_be48 (a # b # c # d # e # f # r)) =
     ((((unat a * 256 + unat b) * 256 + unat c) * 256 + unat d) * 256 + unat e) * 256 + unat f \<and>
   unat (load_be64 le (a # b # c # d # e # f # g # h # r)) =
     ((((((unat a * 256 + unat b) * 256 + unat c) * 256 + unat d) * 256 + unat e) * 256 + unat f) * 256
       + unat g) * 256 + unat h"
  using load_be16_be_val [of "a # b # r" le] load_be32_be_val [of "a # b # c # d # r" le]
    load_be48_be_val [of "a # b # c # d # e # f # r"]
    load_be64_be_val [of "a # b # c # d # e # f # g # h # r" le]
    unat_be_val(1) [where 'a = 16, of "[a, b]"] unat_be_val(1) [where 'a = 32, of "[a, b, c, d]"]
    unat_be_val(1) [where 'a = 64, of "[a, b, c, d, e, f]"]
    unat_be_val(1) [where 'a = 64, of "[a, b, c, d, e, f, g, h]"]
  by simp

end
