(* ===== verification/Memory_Pool.thy ===== *)
theory Memory_Pool
  imports Itch_Prelude
begin

text \<open>
  \<open>include/MemoryPool.hpp\<close>: a block of \<open>mp_capacity\<close> slots and an intrusive free list.
  A slot is raw memory that holds either a \<open>FreeNode\<close> (the link to the next free slot) or
  an object that was constructed in it; \<open>acquire\<close> hands out the slot as it is, so its
  content is still the old \<open>FreeNode\<close> until the caller's placement new. Reading an object
  from a slot that holds a \<open>FreeNode\<close>, or any slot outside the block, is undefined
  behaviour and has the value \<open>None\<close>.

  The contract of the pool is the locale \<open>slot_allocator\<close> at the end: the set of slots
  handed out grows and shrinks by exactly the slot concerned.
\<close>

section \<open>State\<close>

datatype 'a cell = FreeNode ptr | Obj 'a

record 'a MemoryPool =
  mp_capacity :: nat
  mp_storage :: "nat \<Rightarrow> 'a cell"
  mp_head :: ptr

section \<open>Dereference and construction\<close>

definition deref :: "'a MemoryPool \<Rightarrow> nat \<Rightarrow> 'a exec" where
  "deref p i = (if i < mp_capacity p
     then (case mp_storage p i of Obj x \<Rightarrow> Some x | FreeNode _ \<Rightarrow> None) else None)"

definition free_next :: "'a MemoryPool \<Rightarrow> nat \<Rightarrow> ptr exec" where
  "free_next p i = (if i < mp_capacity p
     then (case mp_storage p i of FreeNode nx \<Rightarrow> Some nx | Obj _ \<Rightarrow> None) else None)"

definition construct :: "'a MemoryPool \<Rightarrow> nat \<Rightarrow> 'a \<Rightarrow> 'a MemoryPool exec" where
  "construct p i x = (if i < mp_capacity p
     then Some (p\<lparr>mp_storage := (mp_storage p)(i := Obj x)\<rparr>) else None)"

definition modify :: "'a MemoryPool \<Rightarrow> nat \<Rightarrow> ('a \<Rightarrow> 'a) \<Rightarrow> 'a MemoryPool exec" where
  "modify p i f = do { x \<leftarrow> deref p i; construct p i (f x) }"

section \<open>Construction\<close>

text \<open>The constructor's loop links slot \<open>i\<close> to slot \<open>i - 1\<close>, so the last slot is the head.\<close>

definition link_step :: "nat \<Rightarrow> (nat \<Rightarrow> 'a cell) \<times> ptr \<Rightarrow> (nat \<Rightarrow> 'a cell) \<times> ptr" where
  "link_step i = (\<lambda>(st, prev). (st(i := FreeNode prev), Some i))"

definition MemoryPool_init :: "nat \<Rightarrow> 'a MemoryPool" where
  "MemoryPool_init cap =
     (let (st, prev) = fold link_step [0..<cap] (\<lambda>_. FreeNode None, None)
      in \<lparr>mp_capacity = cap, mp_storage = st, mp_head = prev\<rparr>)"

text \<open>
  The constructor with its allocation. \<open>capacity * sizeof(T)\<close> wraps at 64 bits; the first argument answers
  whether \<open>operator new[]\<close> finds that many bytes, and without them \<open>bad_alloc\<close> leaves the constructor, the
  inner \<open>None\<close>. The loop writes a pointer at the offset of every slot; a write behind the block, or at an
  offset that wraps onto another slot, is undefined.
\<close>

definition sizeof_ptr :: nat where "sizeof_ptr = 8"

definition slot_inside :: "nat \<Rightarrow> u64 \<Rightarrow> nat \<Rightarrow> bool" where
  "slot_inside sz block i \<longleftrightarrow> i * sz < 2 ^ 64 \<and> i * sz + sizeof_ptr \<le> unat block"

definition MemoryPool_new :: "(u64 \<Rightarrow> bool) \<Rightarrow> nat \<Rightarrow> u64 \<Rightarrow> 'a MemoryPool option exec" where
  "MemoryPool_new alloc sz cap =
     (let block = cap * of_nat sz
      in if \<not> alloc block then Some None
         else if list_all (slot_inside sz block) [0..<unat cap] then Some (Some (MemoryPool_init (unat cap)))
         else None)"

section \<open>Operations\<close>

definition acquire :: "'a MemoryPool \<Rightarrow> (ptr \<times> 'a MemoryPool) exec" where
  "acquire p = (case mp_head p of
      None \<Rightarrow> Some (None, p)
    | Some node \<Rightarrow> do {
        nx \<leftarrow> free_next p node;
        Some (Some node, p\<lparr>mp_head := nx\<rparr>) })"

definition release :: "'a MemoryPool \<Rightarrow> ptr \<Rightarrow> 'a MemoryPool exec" where
  "release p q = (case q of
      None \<Rightarrow> Some p
    | Some node \<Rightarrow>
        if node < mp_capacity p
        then Some (p\<lparr>mp_storage := (mp_storage p)(node := FreeNode (mp_head p)), mp_head := Some node\<rparr>)
        else None)"

partial_function (option) count_from :: "'a MemoryPool \<Rightarrow> ptr \<Rightarrow> u64 \<Rightarrow> u64 option" where
  "count_from p q n = (case q of
      None \<Rightarrow> Some n
    | Some node \<Rightarrow> do { nx \<leftarrow> free_next p node; count_from p nx (n + 1) })"

definition free_count :: "'a MemoryPool \<Rightarrow> u64 exec" where
  "free_count p = count_from p (mp_head p) 0"

section \<open>The free list\<close>

fun free_chain :: "(nat \<Rightarrow> 'a cell) \<Rightarrow> ptr \<Rightarrow> nat list \<Rightarrow> bool" where
  "free_chain st q [] \<longleftrightarrow> q = None"
| "free_chain st q (x # xs) \<longleftrightarrow>
     q = Some x \<and> (case st x of FreeNode nx \<Rightarrow> free_chain st nx xs | Obj _ \<Rightarrow> False)"

text \<open>
  \<open>owned p U\<close>: the free list is well formed and holds exactly the slots that are not in
  \<open>U\<close>, the set of slots that were acquired and not released.
\<close>

definition owned :: "'a MemoryPool \<Rightarrow> nat set \<Rightarrow> bool" where
  "owned p U \<longleftrightarrow> U \<subseteq> {..<mp_capacity p} \<and>
     (\<exists>fs. free_chain (mp_storage p) (mp_head p) fs \<and> distinct fs \<and> set fs = {..<mp_capacity p} - U)"

lemma free_chain_upd [simp]: "x \<notin> set xs \<Longrightarrow> free_chain (st(x := c)) q xs = free_chain st q xs"
  by (induction xs arbitrary: q) (auto split: cell.splits)

lemma free_chain_FreeNode: "free_chain st q xs \<Longrightarrow> x \<in> set xs \<Longrightarrow> \<exists>nx. st x = FreeNode nx"
  by (induction xs arbitrary: q) (auto split: cell.splits)

lemma fold_link_step:
  "fold link_step [0..<n] (\<lambda>_. FreeNode None, None) =
     (\<lambda>i. if i < n \<and> 0 < i then FreeNode (Some (i - 1)) else FreeNode None,
      if n = 0 then None else Some (n - 1))"
proof (induction n)
  case 0
  then show ?case by simp
next
  case (Suc n)
  then show ?case by (auto simp: link_step_def fun_eq_iff)
qed

lemma free_chain_init:
  "n \<le> m \<Longrightarrow> free_chain (\<lambda>i. if i < m \<and> 0 < i then FreeNode (Some (i - 1)) else FreeNode None)
     (if n = 0 then None else Some (n - 1)) (rev [0..<n])"
proof (induction n)
  case 0
  then show ?case by simp
next
  case (Suc n)
  then show ?case by (cases "n = 0") (simp_all del: One_nat_def)
qed

lemma MemoryPool_init_sel [simp]:
  "mp_capacity (MemoryPool_init cap) = cap"
  by (simp add: MemoryPool_init_def fold_link_step)

lemma owned_init: "owned (MemoryPool_init cap :: 'a MemoryPool) {}"
proof -
  have "free_chain (mp_storage (MemoryPool_init cap :: 'a MemoryPool))
          (mp_head (MemoryPool_init cap :: 'a MemoryPool)) (rev [0..<cap])"
    using free_chain_init [of cap cap, where 'a = 'a]
    by (simp add: MemoryPool_init_def fold_link_step)
  moreover have "distinct (rev [0..<cap])" "set (rev [0..<cap]) = {..<cap}" by auto
  ultimately show ?thesis
    unfolding owned_def MemoryPool_init_sel Diff_empty by blast
qed

section \<open>The block\<close>

text \<open>The slots lie in the block exactly when its size did not wrap.\<close>

lemma slots_inside_iff:
  assumes sz: "sizeof_ptr \<le> sz" "sz < 2 ^ 64"
  shows "list_all (slot_inside sz (cap * of_nat sz)) [0..<unat cap] \<longleftrightarrow> unat cap * sz < 2 ^ 64"
proof
  have block: "unat (cap * of_nat sz) = unat cap * sz mod 2 ^ 64"
    using sz by (simp add: unat_word_ariths unat_of_nat64)
  assume all: "list_all (slot_inside sz (cap * of_nat sz)) [0..<unat cap]"
  show "unat cap * sz < 2 ^ 64"
  proof (rule ccontr)
    assume wrap: "\<not> unat cap * sz < 2 ^ 64"
    then obtain i where i: "unat cap = Suc i" by (cases "unat cap") auto
    with all have last: "i * sz < 2 ^ 64" "i * sz + sizeof_ptr \<le> unat cap * sz mod 2 ^ 64"
      by (simp_all add: slot_inside_def block)
    have cap: "unat cap * sz = i * sz + sz" by (simp add: i)
    have "unat cap * sz mod 2 ^ 64 = (unat cap * sz - 2 ^ 64) mod 2 ^ 64" using wrap by (intro le_mod_geq) simp
    also have "\<dots> \<le> unat cap * sz - 2 ^ 64" by (rule mod_less_eq_dividend)
    finally show False using last sz wrap unfolding cap by linarith
  qed
next
  assume fits: "unat cap * sz < 2 ^ 64"
  then have block: "unat (cap * of_nat sz) = unat cap * sz" using sz by (simp add: unat_word_ariths unat_of_nat64)
  have "i * sz + sz \<le> unat cap * sz" if "i < unat cap" for i
    using mult_le_mono1 [of "Suc i" "unat cap" sz] that by simp
  with fits sz show "list_all (slot_inside sz (cap * of_nat sz)) [0..<unat cap]"
    unfolding list_all_iff set_upt slot_inside_def block by (force simp del: mult_le_mono1)
qed

lemma MemoryPool_new_eq:
  assumes "sizeof_ptr \<le> sz" "sz < 2 ^ 64"
  shows "MemoryPool_new alloc sz cap =
    (if \<not> alloc (cap * of_nat sz) then Some None
     else if unat cap * sz < 2 ^ 64 then Some (Some (MemoryPool_init (unat cap))) else None)"
  unfolding MemoryPool_new_def Let_def slots_inside_iff [OF assms] ..

section \<open>Evaluation\<close>

lemma deref_Obj [exec_simps]: "mp_storage p i = Obj x \<Longrightarrow> i < mp_capacity p \<Longrightarrow> deref p i = Some x"
  by (simp add: deref_def)

lemma deref_SomeD: "deref p i = Some x \<Longrightarrow> i < mp_capacity p \<and> mp_storage p i = Obj x"
  by (auto simp: deref_def split: if_splits cell.splits)

lemma construct_eq [exec_simps]:
  "i < mp_capacity p \<Longrightarrow> construct p i x = Some (p\<lparr>mp_storage := (mp_storage p)(i := Obj x)\<rparr>)"
  by (simp add: construct_def)

lemma modify_Obj [exec_simps]:
  "mp_storage p i = Obj x \<Longrightarrow> i < mp_capacity p \<Longrightarrow>
   modify p i f = Some (p\<lparr>mp_storage := (mp_storage p)(i := Obj (f x))\<rparr>)"
  by (simp add: modify_def exec_simps)

section \<open>Ownership\<close>

lemma owned_less: "owned p U \<Longrightarrow> i \<in> U \<Longrightarrow> i < mp_capacity p"
  by (auto simp: owned_def)

lemma owned_finite: "owned p U \<Longrightarrow> finite U"
  by (auto simp: owned_def intro: finite_subset)

lemma owned_card_le: "owned p U \<Longrightarrow> card U \<le> mp_capacity p"
proof -
  assume "owned p U"
  then have "card U \<le> card {..<mp_capacity p}" by (intro card_mono) (auto simp: owned_def)
  then show ?thesis by simp
qed

lemma owned_write:
  assumes "owned p U" "i \<in> U" shows "owned (p\<lparr>mp_storage := (mp_storage p)(i := c)\<rparr>) U"
proof -
  from assms(1) obtain fs where fs: "free_chain (mp_storage p) (mp_head p) fs" "distinct fs"
    "set fs = {..<mp_capacity p} - U" by (auto simp: owned_def)
  with assms(2) have "i \<notin> set fs" by auto
  then have "free_chain ((mp_storage p)(i := c)) (mp_head p) fs" using fs(1) by simp
  with fs(2,3) assms(1) show ?thesis unfolding owned_def by auto
qed

lemma acquire_None:
  assumes "owned p U" "mp_head p = None"
  shows "acquire p = Some (None, p)" "U = {..<mp_capacity p}"
proof -
  from assms obtain fs where "free_chain (mp_storage p) (mp_head p) fs" "set fs = {..<mp_capacity p} - U"
    "U \<subseteq> {..<mp_capacity p}" by (auto simp: owned_def)
  with assms(2) show "U = {..<mp_capacity p}" by (cases fs) auto
qed (simp add: acquire_def assms)

lemma acquire_Some:
  assumes "owned p U" "mp_head p = Some n"
  shows "\<exists>nx. acquire p = Some (Some n, p\<lparr>mp_head := nx\<rparr>) \<and> owned (p\<lparr>mp_head := nx\<rparr>) (insert n U)
    \<and> n \<notin> U \<and> n < mp_capacity p"
proof -
  from assms obtain fs where fs: "free_chain (mp_storage p) (Some n) fs" "distinct fs"
    "set fs = {..<mp_capacity p} - U" "U \<subseteq> {..<mp_capacity p}" by (auto simp: owned_def)
  then obtain gs where gs: "fs = n # gs" by (cases fs) auto
  with fs obtain nx where nx: "mp_storage p n = FreeNode nx" "free_chain (mp_storage p) nx gs"
    by (auto split: cell.splits)
  have n: "n \<notin> U" "n < mp_capacity p" using fs(3) gs by auto
  have "set gs = {..<mp_capacity p} - insert n U" using fs(2,3) gs by auto
  with nx(2) fs(2,4) gs n have "owned (p\<lparr>mp_head := nx\<rparr>) (insert n U)"
    unfolding owned_def by auto
  moreover have "acquire p = Some (Some n, p\<lparr>mp_head := nx\<rparr>)"
    using assms(2) nx(1) n by (simp add: acquire_def free_next_def)
  ultimately show ?thesis using n by blast
qed

lemma acquire_null_iff:
  assumes "owned p U" shows "mp_head p = None \<longleftrightarrow> card U = mp_capacity p"
proof
  assume "mp_head p = None"
  from acquire_None(2) [OF assms this] show "card U = mp_capacity p" by simp
next
  assume full: "card U = mp_capacity p"
  show "mp_head p = None"
  proof (rule ccontr)
    assume "mp_head p \<noteq> None"
    then obtain n where n: "mp_head p = Some n" by auto
    from acquire_Some [OF assms n] obtain nx
      where "owned (p\<lparr>mp_head := nx\<rparr>) (insert n U)" "n \<notin> U" by blast
    then have "card (insert n U) \<le> mp_capacity p" using owned_card_le by fastforce
    with \<open>n \<notin> U\<close> full owned_finite [OF assms] show False by simp
  qed
qed

lemma release_Some:
  assumes "owned p U" "n \<in> U"
  shows "release p (Some n)
     = Some (p\<lparr>mp_storage := (mp_storage p)(n := FreeNode (mp_head p)), mp_head := Some n\<rparr>)"
    and "owned (p\<lparr>mp_storage := (mp_storage p)(n := FreeNode (mp_head p)), mp_head := Some n\<rparr>) (U - {n})"
proof -
  show "release p (Some n)
     = Some (p\<lparr>mp_storage := (mp_storage p)(n := FreeNode (mp_head p)), mp_head := Some n\<rparr>)"
    using assms owned_less by (auto simp: release_def)
  from assms obtain fs where fs: "free_chain (mp_storage p) (mp_head p) fs" "distinct fs"
    "set fs = {..<mp_capacity p} - U" "U \<subseteq> {..<mp_capacity p}" by (auto simp: owned_def)
  then have "n \<notin> set fs" using assms(2) by auto
  then have "free_chain ((mp_storage p)(n := FreeNode (mp_head p))) (Some n) (n # fs)" "distinct (n # fs)"
    using fs by auto
  moreover have "set (n # fs) = {..<mp_capacity p} - (U - {n})" using fs(3,4) assms(2) by auto
  moreover have "U - {n} \<subseteq> {..<mp_capacity p}" using fs(4) by auto
  ultimately show "owned (p\<lparr>mp_storage := (mp_storage p)(n := FreeNode (mp_head p)), mp_head := Some n\<rparr>)
      (U - {n})"
    unfolding owned_def by (intro conjI exI [where x = "n # fs"]) simp_all
qed

section \<open>Counting the free slots\<close>

lemma count_from_chain:
  "free_chain (mp_storage p) q fs \<Longrightarrow> \<forall>x\<in>set fs. x < mp_capacity p \<Longrightarrow>
   count_from p q n = Some (n + of_nat (length fs))"
proof (induction fs arbitrary: q n)
  case Nil
  then show ?case by (simp add: count_from.simps)
next
  case (Cons x fs)
  then obtain nx where "mp_storage p x = FreeNode nx" "free_chain (mp_storage p) nx fs"
    by (auto split: cell.splits)
  with Cons show ?case
    by (subst count_from.simps) (simp add: free_next_def add.assoc)
qed

lemma free_count_owned:
  assumes "owned p U"
  shows "free_count p = Some (of_nat (mp_capacity p - card U))"
proof -
  from assms obtain fs where fs: "free_chain (mp_storage p) (mp_head p) fs" "distinct fs"
    "set fs = {..<mp_capacity p} - U" "U \<subseteq> {..<mp_capacity p}" by (auto simp: owned_def)
  have "length fs = card ({..<mp_capacity p} - U)" using fs(2,3) distinct_card by metis
  also have "\<dots> = mp_capacity p - card U"
    using fs(4) by (subst card_Diff_subset) (auto intro: finite_subset)
  finally have len: "length fs = mp_capacity p - card U" .
  have "\<forall>x\<in>set fs. x < mp_capacity p" using fs(3) by auto
  then show ?thesis unfolding free_count_def by (simp add: count_from_chain [OF fs(1)] len)
qed

section \<open>The contract of an allocator of slots\<close>

locale slot_allocator =
  fixes acq :: "'p \<Rightarrow> (ptr \<times> 'p) exec"
    and rel :: "'p \<Rightarrow> ptr \<Rightarrow> 'p exec"
    and own :: "'p \<Rightarrow> nat set \<Rightarrow> bool"
    and size_of :: "'p \<Rightarrow> nat"
    and content :: "'p \<Rightarrow> nat \<Rightarrow> 'c"
  assumes own_finite: "own p U \<Longrightarrow> finite U"
    and own_card: "own p U \<Longrightarrow> card U \<le> size_of p"
    and acq_full: "own p U \<Longrightarrow> card U = size_of p \<Longrightarrow> acq p = Some (None, p)"
    and acq_slot: "own p U \<Longrightarrow> card U < size_of p \<Longrightarrow>
      \<exists>n p'. acq p = Some (Some n, p') \<and> own p' (insert n U) \<and> n \<notin> U
        \<and> size_of p' = size_of p \<and> content p' = content p"
    and rel_slot: "own p U \<Longrightarrow> n \<in> U \<Longrightarrow>
      \<exists>p'. rel p (Some n) = Some p' \<and> own p' (U - {n}) \<and> size_of p' = size_of p
        \<and> (\<forall>m. m \<noteq> n \<longrightarrow> content p' m = content p m)"
begin

text \<open>A released slot is available again: releasing makes room for one acquire.\<close>

lemma release_then_acquire:
  assumes "own p U" "n \<in> U"
  shows "\<exists>p' m p''. rel p (Some n) = Some p' \<and> acq p' = Some (Some m, p'')
           \<and> own p'' (insert m (U - {n})) \<and> m \<notin> U - {n}"
proof -
  from rel_slot [OF assms] obtain p' where p': "rel p (Some n) = Some p'"
    "own p' (U - {n})" "size_of p' = size_of p" by blast
  have "card (U - {n}) < card U"
    using assms own_finite by (metis card_Diff1_less)
  then have "card (U - {n}) < size_of p'" using p'(3) own_card [OF assms(1)] by linarith
  from acq_slot [OF p'(2) this] p'(1) show ?thesis by blast
qed

text \<open>Releasing a list of distinct slots, as the clearing loops of the order book do.\<close>

lemma release_list:
  "own p U \<Longrightarrow> distinct ns \<Longrightarrow> set ns \<subseteq> U \<Longrightarrow>
   \<exists>p'. exec_list (\<lambda>p n. rel p (Some n)) p ns = Some p' \<and> own p' (U - set ns)
     \<and> size_of p' = size_of p \<and> (\<forall>m. m \<notin> set ns \<longrightarrow> content p' m = content p m)"
proof (induction ns arbitrary: p U)
  case Nil
  then show ?case by simp
next
  case (Cons n ns)
  then have "n \<in> U" by simp
  from rel_slot [OF Cons.prems(1) this] obtain p1 where p1: "rel p (Some n) = Some p1"
    "own p1 (U - {n})" "size_of p1 = size_of p" "\<forall>m. m \<noteq> n \<longrightarrow> content p1 m = content p m"
    by blast
  have "set ns \<subseteq> U - {n}" using Cons.prems by auto
  from Cons.IH [OF p1(2) _ this] Cons.prems(2) obtain p' where
    "exec_list (\<lambda>p n. rel p (Some n)) p1 ns = Some p'" "own p' (U - {n} - set ns)"
    "size_of p' = size_of p1" "\<forall>m. m \<notin> set ns \<longrightarrow> content p' m = content p1 m" by auto
  moreover have "U - set (n # ns) = U - {n} - set ns" by auto
  ultimately show ?case using p1 by (intro exI [of _ p']) simp
qed

end

interpretation pool: slot_allocator acquire release owned mp_capacity mp_storage
proof unfold_locales
  fix p :: "'a MemoryPool" and U n
  assume own: "owned p U"
  show "finite U" by (rule owned_finite [OF own])
  show "card U \<le> mp_capacity p" by (rule owned_card_le [OF own])
  show "acquire p = Some (None, p)" if "card U = mp_capacity p"
    using acquire_None(1) [OF own] acquire_null_iff [OF own] that by simp
  show "\<exists>n p'. acquire p = Some (Some n, p') \<and> owned p' (insert n U) \<and> n \<notin> U
      \<and> mp_capacity p' = mp_capacity p \<and> mp_storage p' = mp_storage p"
    if "card U < mp_capacity p"
  proof -
    from that acquire_null_iff [OF own] obtain n where "mp_head p = Some n" by force
    from acquire_Some [OF own this] obtain nx where
      "acquire p = Some (Some n, p\<lparr>mp_head := nx\<rparr>)"
      "owned (p\<lparr>mp_head := nx\<rparr>) (insert n U)" "n \<notin> U" by blast
    then show ?thesis by (intro exI [of _ n] exI [of _ "p\<lparr>mp_head := nx\<rparr>"]) simp
  qed
  show "\<exists>p'. release p (Some n) = Some p' \<and> owned p' (U - {n}) \<and> mp_capacity p' = mp_capacity p
      \<and> (\<forall>m. m \<noteq> n \<longrightarrow> mp_storage p' m = mp_storage p m)" if "n \<in> U"
    using release_Some [OF own that] by simp
qed

section \<open>The pool hands out every slot at most once\<close>

lemma release_acquire_lifo:
  "n < mp_capacity p \<Longrightarrow> release p (Some n) = Some p' \<Longrightarrow>
   acquire p' = Some (Some n, p'\<lparr>mp_head := mp_head p\<rparr>)"
  by (auto simp: release_def acquire_def free_next_def)

text \<open>
  C30. In a pool whose used slots are exactly \<open>U\<close>, \<open>free_count\<close> returns the number of the other
  slots; \<open>acquire\<close> returns null exactly when all slots are used, and otherwise a slot of the
  block that is not in use, which it adds to the used ones; \<open>release\<close> of a used slot takes
  exactly that slot out and the next \<open>acquire\<close> returns it again.
\<close>

theorem pool_allocation_exact:
  assumes own: "owned p U"
  shows "free_count p = Some (of_nat (mp_capacity p - card U)) \<and>
    (\<exists>q p'. acquire p = Some (q, p') \<and>
      (case q of None \<Rightarrow> U = {..<mp_capacity p} \<and> p' = p
        | Some n \<Rightarrow> n \<notin> U \<and> n < mp_capacity p \<and> owned p' (insert n U))) \<and>
    (\<forall>n\<in>U. \<exists>p' p''. release p (Some n) = Some p' \<and> owned p' (U - {n}) \<and>
      acquire p' = Some (Some n, p''))"
proof (intro conjI ballI)
  show "free_count p = Some (of_nat (mp_capacity p - card U))" by (rule free_count_owned [OF own])
  show "\<exists>q p'. acquire p = Some (q, p') \<and>
      (case q of None \<Rightarrow> U = {..<mp_capacity p} \<and> p' = p
        | Some n \<Rightarrow> n \<notin> U \<and> n < mp_capacity p \<and> owned p' (insert n U))"
  proof (cases "mp_head p")
    case None
    with acquire_None [OF own None] show ?thesis by (intro exI [of _ None] exI [of _ p]) simp
  next
    case (Some n)
    with acquire_Some [OF own Some] show ?thesis by fastforce
  qed
  fix n assume n: "n \<in> U"
  show "\<exists>p' p''. release p (Some n) = Some p' \<and> owned p' (U - {n}) \<and> acquire p' = Some (Some n, p'')"
    using release_Some [OF own n] release_acquire_lifo owned_less [OF own n] by blast
qed

theorem pool_allocation_exact_witness:
  "free_count (MemoryPool_init 3 :: u64 MemoryPool) = Some 3 \<and>
   (\<exists>n p. acquire (MemoryPool_init 3 :: u64 MemoryPool) = Some (Some n, p) \<and> free_count p = Some 2 \<and>
      (\<exists>p'. release p (Some n) = Some p'))"
proof -
  note e = pool_allocation_exact [OF owned_init, of 3, where 'a = u64]
  from e obtain q p where q: "acquire (MemoryPool_init 3 :: u64 MemoryPool) = Some (q, p)"
    "case q of None \<Rightarrow> {} = {..<mp_capacity (MemoryPool_init 3 :: u64 MemoryPool)} \<and> p = MemoryPool_init 3
      | Some n \<Rightarrow> owned p {n}" by (auto split: option.splits)
  then obtain n where n: "q = Some n" "owned p {n}"
    by (cases q) (auto simp: eq_commute [of "{}"] lessThan_empty_iff)
  have "mp_capacity p = 3"
    using q(1) by (auto simp: acquire_def split: option.splits Option.bind_splits)
  with pool_allocation_exact [OF n(2)] have "free_count p = Some 2" "\<exists>p'. release p (Some n) = Some p'"
    by auto
  with e q(1) n(1) show ?thesis by simp
qed

end
