(* ===== verification/Dll.thy ===== *)
theory Dll
  imports Memory_Pool
begin

text \<open>
  The intrusive doubly linked lists of the program, once for both node types: the orders of
  a price level (\<open>Order::next_\<close>/\<open>prev_\<close>) and the levels of one side of a book
  (\<open>PriceLevel::next_level\<close>/\<open>prev_level\<close>). \<open>dlinks\<close> says that a list of slots is
  linked that way in the storage of a pool; the locale \<open>intrusive_node\<close> is the contract of
  a node type and proves what the link updates of the code do to such a list.
\<close>

section \<open>Segments\<close>

definition firstp :: "nat list \<Rightarrow> ptr \<Rightarrow> ptr" where
  "firstp xs q = (case xs of [] \<Rightarrow> q | x # _ \<Rightarrow> Some x)"

definition lastp :: "ptr \<Rightarrow> nat list \<Rightarrow> ptr" where
  "lastp l xs = (if xs = [] then l else Some (last xs))"

primrec dlinks ::
  "('n \<Rightarrow> ptr) \<Rightarrow> ('n \<Rightarrow> ptr) \<Rightarrow> (nat \<Rightarrow> 'n cell) \<Rightarrow> ptr \<Rightarrow> nat list \<Rightarrow> ptr \<Rightarrow> bool" where
  "dlinks nxt prv st l [] q = True"
| "dlinks nxt prv st l (x # xs) q = (case st x of
      Obj n \<Rightarrow> prv n = l \<and> nxt n = firstp xs q \<and> dlinks nxt prv st (Some x) xs q
    | FreeNode _ \<Rightarrow> False)"

lemma firstp_simps [simp]: "firstp [] q = q" "firstp (x # xs) q = Some x"
  by (simp_all add: firstp_def)

lemma firstp_append [simp]: "firstp (xs @ ys) q = firstp xs (firstp ys q)"
  by (cases xs) simp_all

lemma lastp_simps [simp]: "lastp l [] = l" "lastp l (x # xs) = lastp (Some x) xs"
  "lastp l (xs @ [x]) = Some x"
  by (simp_all add: lastp_def)

lemma lastp_append [simp]: "lastp l (xs @ ys) = lastp (lastp l xs) ys"
  by (simp add: lastp_def)

lemma dlinks_append [simp]:
  "dlinks nxt prv st l (xs @ ys) q \<longleftrightarrow>
     dlinks nxt prv st l xs (firstp ys q) \<and> dlinks nxt prv st (lastp l xs) ys q"
  by (induction xs arbitrary: l) (auto split: cell.splits)

lemma dlinks_upd [simp]:
  "x \<notin> set xs \<Longrightarrow> dlinks nxt prv (st(x := c)) l xs q = dlinks nxt prv st l xs q"
  by (induction xs arbitrary: l) (auto split: cell.splits)

lemma dlinks_cong:
  "(\<And>x. x \<in> set xs \<Longrightarrow> st' x = st x) \<Longrightarrow>
   dlinks nxt prv st' l xs q = dlinks nxt prv st l xs q"
  by (induction xs arbitrary: l) (simp_all cong: cell.case_cong)

lemma dlinks_Obj: "dlinks nxt prv st l xs q \<Longrightarrow> x \<in> set xs \<Longrightarrow> \<exists>n. st x = Obj n"
  by (induction xs arbitrary: l) (auto split: cell.splits)

lemma dlinks_same_links:
  "(\<And>x n. x \<in> set xs \<Longrightarrow> st x = Obj n \<Longrightarrow> \<exists>n'. st' x = Obj n' \<and> nxt n' = nxt n \<and> prv n' = prv n)
   \<Longrightarrow> dlinks nxt prv st l xs q \<Longrightarrow> dlinks nxt prv st' l xs q"
proof (induction xs arbitrary: l)
  case Nil
  then show ?case by simp
next
  case (Cons x xs)
  from Cons.prems(2) obtain n where n: "st x = Obj n" "prv n = l" "nxt n = firstp xs q"
    "dlinks nxt prv st (Some x) xs q" by (auto split: cell.splits)
  from Cons.prems(1) [of x n] n obtain n' where "st' x = Obj n'" "nxt n' = nxt n" "prv n' = prv n"
    by auto
  moreover have "dlinks nxt prv st' (Some x) xs q"
    by (rule Cons.IH [OF _ n(4)]) (use Cons.prems(1) in auto)
  ultimately show ?case using n by simp
qed

text \<open>
  The storage after the two link updates around a removed or inserted place: the node before
  it (if any) gets a new successor, the node after it (if any) a new predecessor.
\<close>

definition join_next ::
  "(ptr \<Rightarrow> 'n \<Rightarrow> 'n) \<Rightarrow> ptr \<Rightarrow> ptr \<Rightarrow> (nat \<Rightarrow> 'n cell) \<Rightarrow> nat \<Rightarrow> 'n cell" where
  "join_next set_nxt a q st = (case a of None \<Rightarrow> st
     | Some i \<Rightarrow> (case st i of Obj n \<Rightarrow> st(i := Obj (set_nxt q n)) | FreeNode _ \<Rightarrow> st))"

lemma join_next_None [simp]: "join_next set_nxt None q st = st"
  by (simp add: join_next_def)

lemma join_next_other [simp]: "a \<noteq> Some i \<Longrightarrow> join_next set_nxt a q st i = st i"
  by (auto simp: join_next_def split: option.splits cell.splits)

lemma join_next_Some:
  "st i = Obj n \<Longrightarrow> join_next set_nxt (Some i) q st = st(i := Obj (set_nxt q n))"
  by (simp add: join_next_def)

section \<open>The contract of an intrusive node\<close>

locale intrusive_node =
  fixes nxt prv :: "'n \<Rightarrow> ptr"
    and set_nxt set_prv :: "ptr \<Rightarrow> 'n \<Rightarrow> 'n"
  assumes nxt_set_nxt [simp]: "nxt (set_nxt q n) = q"
    and prv_set_nxt [simp]: "prv (set_nxt q n) = prv n"
    and nxt_set_prv [simp]: "nxt (set_prv q n) = nxt n"
    and prv_set_prv [simp]: "prv (set_prv q n) = q"
begin

abbreviation links :: "(nat \<Rightarrow> 'n cell) \<Rightarrow> ptr \<Rightarrow> nat list \<Rightarrow> ptr \<Rightarrow> bool" where
  "links \<equiv> dlinks nxt prv"

text \<open>The neighbours a node records are its neighbours in the list.\<close>

lemma node_neighbours:
  assumes "links st l (xs @ x # ys) q" "st x = Obj n"
  shows "prv n = lastp l xs" "nxt n = firstp ys q"
  using assms by auto

text \<open>Making the last node point to \<open>q'\<close>, and the first one back to \<open>l'\<close>.\<close>

lemma set_last_next:
  assumes "links st l (xs @ [a]) q" "distinct (xs @ [a])" "st a = Obj n"
  shows "links (st(a := Obj (set_nxt q' n))) l (xs @ [a]) q'"
  using assms by simp

lemma set_first_prev:
  assumes "links st l (y # ys) q" "distinct (y # ys)" "st y = Obj n"
  shows "links (st(y := Obj (set_prv l' n))) l' (y # ys) q"
  using assms by simp

lemma links_join_last:
  assumes "links st l xs q" "distinct xs" "l = None"
  shows "links (join_next set_nxt (lastp None xs) q' st) None xs q'"
proof (cases xs rule: rev_cases)
  case Nil
  then show ?thesis by simp
next
  case (snoc ys a)
  with assms obtain n where "st a = Obj n" by (auto split: cell.splits)
  with set_last_next [of st l ys a q n q'] snoc assms show ?thesis by (simp add: join_next_def)
qed

lemma links_join_first:
  assumes "links st l ys q" "distinct ys" "q = None"
  shows "links (join_next set_prv (firstp ys None) l' st) l' ys None"
proof (cases ys)
  case Nil
  then show ?thesis by simp
next
  case (Cons b zs)
  with assms obtain n where "st b = Obj n" by (auto split: cell.splits)
  with set_first_prev [of st l b zs q n l'] Cons assms show ?thesis by (simp add: join_next_def)
qed

lemma lastp_not_in: "distinct (xs @ ys) \<Longrightarrow> i \<in> set ys \<Longrightarrow> lastp None xs \<noteq> Some i"
  by (auto simp: lastp_def dest: last_in_set)

lemma firstp_not_in: "distinct (xs @ ys) \<Longrightarrow> i \<in> set xs \<Longrightarrow> firstp ys None \<noteq> Some i"
  by (auto simp: firstp_def split: list.splits)

text \<open>Joining two segments: what taking a node out, or closing a gap, leaves.\<close>

lemma links_join:
  assumes "links st None xs q" "links st l ys None" "distinct (xs @ ys)"
  shows "links (join_next set_prv (firstp ys None) (lastp None xs)
           (join_next set_nxt (lastp None xs) (firstp ys None) st)) None (xs @ ys) None"
proof -
  let ?st1 = "join_next set_nxt (lastp None xs) (firstp ys None) st"
  let ?st2 = "join_next set_prv (firstp ys None) (lastp None xs) ?st1"
  have "links ?st1 None xs (firstp ys None)" using assms by (intro links_join_last) auto
  moreover have "links ?st2 None xs (firstp ys None) = links ?st1 None xs (firstp ys None)"
    using assms(3) by (intro dlinks_cong join_next_other firstp_not_in)
  moreover have "links ?st1 l ys None = links st l ys None"
    using assms(3) by (intro dlinks_cong join_next_other lastp_not_in)
  then have "links ?st2 (lastp None xs) ys None"
    using assms by (intro links_join_first [where l = l and q = None]) auto
  ultimately show ?thesis by simp
qed

lemma links_unlink:
  assumes "links st None (xs @ x # ys) None" "distinct (xs @ x # ys)"
  shows "links (join_next set_prv (firstp ys None) (lastp None xs)
           (join_next set_nxt (lastp None xs) (firstp ys None) st)) None (xs @ ys) None"
proof (rule links_join)
  show "links st None xs (Some x)" using assms by simp
  show "links st (Some x) ys None" using assms by (auto split: cell.splits)
qed (use assms in auto)

text \<open>Inserting a node whose links already name its new neighbours.\<close>

lemma links_insert:
  assumes "links st None (xs @ ys) None" "distinct (xs @ x # ys)"
    and "st x = Obj n" "prv n = lastp None xs" "nxt n = firstp ys None"
  shows "links (join_next set_prv (firstp ys None) (Some x) (join_next set_nxt (lastp None xs) (Some x) st))
           None (xs @ x # ys) None"
proof -
  let ?st1 = "join_next set_nxt (lastp None xs) (Some x) st"
  let ?st2 = "join_next set_prv (firstp ys None) (Some x) ?st1"
  have "links ?st1 None xs (Some x)"
    using assms by (intro links_join_last [where l = None and q = "firstp ys None"]) auto
  moreover have "links ?st2 None xs (Some x) = links ?st1 None xs (Some x)"
    using assms(2) by (intro dlinks_cong join_next_other firstp_not_in) auto
  moreover have "links ?st1 (lastp None xs) ys None = links st (lastp None xs) ys None"
    using assms(2) by (intro dlinks_cong join_next_other lastp_not_in) auto
  then have "links ?st2 (Some x) ys None"
    using assms by (intro links_join_first [where l = "lastp None xs" and q = None]) auto
  moreover have "?st2 x = Obj n"
  proof -
    have "firstp ys None \<noteq> Some x" using assms(2) by (cases ys) auto
    moreover have "lastp None xs \<noteq> Some x" using assms(2) by (auto simp: lastp_def)
    ultimately show ?thesis using assms(3) by simp
  qed
  ultimately show ?thesis using assms(4,5) by simp
qed

end

end
