(* ===== verification/Price_Level.thy ===== *)
theory Price_Level
  imports Itch_Types Dll
begin

text \<open>
  \<open>Order\<close> of \<open>include/Order.hpp\<close> and \<open>PriceLevel\<close> of \<open>include/PriceLevel.hpp\<close>. A
  level keeps its orders in an intrusive doubly linked list, oldest first, with their number
  and the sum of their shares. Orders and levels live in the two pools of the engine, so an
  operation that follows pointers works on an \<open>arena\<close>, the pair of pools.

  \<open>level_rep\<close> states that a level represents a list of order slots; every operation is
  proved to take the list to the one its name promises (append, remove) and to touch no
  other memory (\<open>arena_frame\<close>).
\<close>

section \<open>Orders\<close>

record Order =
  o_order_id :: OrderReferenceNumber
  o_locate :: StockLocate
  o_price_cents :: Price
  o_shares_remaining :: Shares
  o_side :: Side
  o_added_at_ns :: Timestamp
  o_mpid :: MPID
  o_next :: ptr
  o_prev :: ptr

definition Order_init ::
  "OrderReferenceNumber \<Rightarrow> StockLocate \<Rightarrow> Price \<Rightarrow> Shares \<Rightarrow> Side \<Rightarrow> Timestamp \<Rightarrow> MPID \<Rightarrow> Order" where
  "Order_init oid loc px qty s ts attribution =
     \<lparr>o_order_id = oid, o_locate = loc, o_price_cents = px, o_shares_remaining = qty, o_side = s,
      o_added_at_ns = ts, o_mpid = attribution, o_next = None, o_prev = None\<rparr>"

definition dead :: "Order \<Rightarrow> bool" where
  "dead x \<longleftrightarrow> o_shares_remaining x = 0"

definition reduce :: "Order \<Rightarrow> Shares \<Rightarrow> Order \<times> bool" where
  "reduce x qty =
     (if qty \<ge> o_shares_remaining x then (x\<lparr>o_shares_remaining := 0\<rparr>, True)
      else (x\<lparr>o_shares_remaining := o_shares_remaining x - qty\<rparr>, False))"

text \<open>What an order says apart from its place in a list.\<close>

definition o_data :: "Order \<Rightarrow> Order" where
  "o_data x = x\<lparr>o_next := None, o_prev := None\<rparr>"

section \<open>Price levels\<close>

record PriceLevel =
  l_price_cents :: Price
  l_total_shares :: u64
  l_head_order :: ptr
  l_tail_order :: ptr
  l_order_count :: u32
  l_side :: Side
  l_prev_level :: ptr
  l_next_level :: ptr

definition PriceLevel_init :: PriceLevel where
  "PriceLevel_init = \<lparr>l_price_cents = 0, l_total_shares = 0, l_head_order = None, l_tail_order = None,
     l_order_count = 0, l_side = Buy, l_prev_level = None, l_next_level = None\<rparr>"

definition reset :: "Price \<Rightarrow> Side \<Rightarrow> PriceLevel \<Rightarrow> PriceLevel" where
  "reset px s l = l\<lparr>l_price_cents := px, l_total_shares := 0, l_head_order := None,
     l_tail_order := None, l_order_count := 0, l_side := s, l_prev_level := None,
     l_next_level := None\<rparr>"

definition level_empty :: "PriceLevel \<Rightarrow> bool" where
  "level_empty l \<longleftrightarrow> l_order_count l = 0"

text \<open>The sizes of the two structs, with the sizes and alignments of their members on a 64-bit host.\<close>

definition sizeof_Order :: nat where
  "sizeof_Order = struct_size kCacheLineSize [(8, 8), (2, 2), (4, 4), (4, 4), (1, 1), (8, 8), (4, 1), (8, 8), (8, 8)]"

definition sizeof_PriceLevel :: nat where
  "sizeof_PriceLevel = struct_size 1 [(4, 4), (8, 8), (8, 8), (8, 8), (4, 4), (1, 1), (8, 8), (8, 8)]"

section \<open>The two pools\<close>

record arena =
  ar_orders :: "Order MemoryPool"
  ar_levels :: "PriceLevel MemoryPool"

definition get_order :: "arena \<Rightarrow> nat \<Rightarrow> Order exec" where
  "get_order ar i = deref (ar_orders ar) i"

definition get_level :: "arena \<Rightarrow> nat \<Rightarrow> PriceLevel exec" where
  "get_level ar i = deref (ar_levels ar) i"

definition upd_order :: "arena \<Rightarrow> nat \<Rightarrow> (Order \<Rightarrow> Order) \<Rightarrow> arena exec" where
  "upd_order ar i f = do { p \<leftarrow> modify (ar_orders ar) i f; Some (ar\<lparr>ar_orders := p\<rparr>) }"

definition upd_level :: "arena \<Rightarrow> nat \<Rightarrow> (PriceLevel \<Rightarrow> PriceLevel) \<Rightarrow> arena exec" where
  "upd_level ar i f = do { p \<leftarrow> modify (ar_levels ar) i f; Some (ar\<lparr>ar_levels := p\<rparr>) }"

section \<open>Operations of a level\<close>

definition push_back :: "arena \<Rightarrow> nat \<Rightarrow> nat \<Rightarrow> arena exec" where
  "push_back ar lv i = do {
     l \<leftarrow> get_level ar lv;
     ar \<leftarrow> upd_order ar i (\<lambda>x. x\<lparr>o_next := None, o_prev := l_tail_order l\<rparr>);
     ar \<leftarrow> (case l_tail_order l of
         Some t \<Rightarrow> upd_order ar t (\<lambda>x. x\<lparr>o_next := Some i\<rparr>)
       | None \<Rightarrow> upd_level ar lv (\<lambda>l. l\<lparr>l_head_order := Some i\<rparr>));
     x \<leftarrow> get_order ar i;
     upd_level ar lv (\<lambda>l. l\<lparr>l_tail_order := Some i,
       l_total_shares := l_total_shares l + ucast (o_shares_remaining x),
       l_order_count := l_order_count l + 1\<rparr>) }"

definition unlink :: "arena \<Rightarrow> nat \<Rightarrow> nat \<Rightarrow> arena exec" where
  "unlink ar lv i = do {
     x \<leftarrow> get_order ar i;
     ar \<leftarrow> (case o_prev x of
         Some p \<Rightarrow> upd_order ar p (\<lambda>y. y\<lparr>o_next := o_next x\<rparr>)
       | None \<Rightarrow> upd_level ar lv (\<lambda>l. l\<lparr>l_head_order := o_next x\<rparr>));
     x \<leftarrow> get_order ar i;
     ar \<leftarrow> (case o_next x of
         Some n \<Rightarrow> upd_order ar n (\<lambda>y. y\<lparr>o_prev := o_prev x\<rparr>)
       | None \<Rightarrow> upd_level ar lv (\<lambda>l. l\<lparr>l_tail_order := o_prev x\<rparr>));
     ar \<leftarrow> upd_order ar i (\<lambda>y. y\<lparr>o_next := None, o_prev := None\<rparr>);
     upd_level ar lv (\<lambda>l. l\<lparr>l_order_count := l_order_count l - 1\<rparr>) }"

definition unlink_and_deduct :: "arena \<Rightarrow> nat \<Rightarrow> nat \<Rightarrow> arena exec" where
  "unlink_and_deduct ar lv i = do {
     x \<leftarrow> get_order ar i;
     ar \<leftarrow> upd_level ar lv (\<lambda>l. l\<lparr>l_total_shares := l_total_shares l - ucast (o_shares_remaining x)\<rparr>);
     unlink ar lv i }"

section \<open>The nodes are intrusive list nodes\<close>

definition order_set_next :: "ptr \<Rightarrow> Order \<Rightarrow> Order" where
  "order_set_next q x = x\<lparr>o_next := q\<rparr>"
definition order_set_prev :: "ptr \<Rightarrow> Order \<Rightarrow> Order" where
  "order_set_prev q x = x\<lparr>o_prev := q\<rparr>"
definition level_set_next :: "ptr \<Rightarrow> PriceLevel \<Rightarrow> PriceLevel" where
  "level_set_next q l = l\<lparr>l_next_level := q\<rparr>"
definition level_set_prev :: "ptr \<Rightarrow> PriceLevel \<Rightarrow> PriceLevel" where
  "level_set_prev q l = l\<lparr>l_prev_level := q\<rparr>"

interpretation order_node: intrusive_node o_next o_prev order_set_next order_set_prev
  by unfold_locales (simp_all add: order_set_next_def order_set_prev_def)

interpretation level_node: intrusive_node l_next_level l_prev_level level_set_next level_set_prev
  by unfold_locales (simp_all add: level_set_next_def level_set_prev_def)

section \<open>Memory of an arena\<close>

abbreviation ord :: "arena \<Rightarrow> nat \<Rightarrow> Order cell" where
  "ord ar \<equiv> mp_storage (ar_orders ar)"
abbreviation lev :: "arena \<Rightarrow> nat \<Rightarrow> PriceLevel cell" where
  "lev ar \<equiv> mp_storage (ar_levels ar)"

definition order_at :: "arena \<Rightarrow> nat \<Rightarrow> Order \<Rightarrow> bool" where
  "order_at ar i x \<longleftrightarrow> i < mp_capacity (ar_orders ar) \<and> ord ar i = Obj x"

definition level_at :: "arena \<Rightarrow> nat \<Rightarrow> PriceLevel \<Rightarrow> bool" where
  "level_at ar i l \<longleftrightarrow> i < mp_capacity (ar_levels ar) \<and> lev ar i = Obj l"

definition put_order :: "nat \<Rightarrow> Order \<Rightarrow> arena \<Rightarrow> arena" where
  "put_order i x ar = ar\<lparr>ar_orders := (ar_orders ar)\<lparr>mp_storage := (ord ar)(i := Obj x)\<rparr>\<rparr>"

definition put_level :: "nat \<Rightarrow> PriceLevel \<Rightarrow> arena \<Rightarrow> arena" where
  "put_level i l ar = ar\<lparr>ar_levels := (ar_levels ar)\<lparr>mp_storage := (lev ar)(i := Obj l)\<rparr>\<rparr>"

lemma put_order_sel [simp]:
  "ord (put_order i x ar) = (ord ar)(i := Obj x)"
  "ar_levels (put_order i x ar) = ar_levels ar"
  "mp_capacity (ar_orders (put_order i x ar)) = mp_capacity (ar_orders ar)"
  "mp_head (ar_orders (put_order i x ar)) = mp_head (ar_orders ar)"
  by (simp_all add: put_order_def)

lemma put_level_sel [simp]:
  "lev (put_level i l ar) = (lev ar)(i := Obj l)"
  "ar_orders (put_level i l ar) = ar_orders ar"
  "mp_capacity (ar_levels (put_level i l ar)) = mp_capacity (ar_levels ar)"
  "mp_head (ar_levels (put_level i l ar)) = mp_head (ar_levels ar)"
  by (simp_all add: put_level_def)

lemma order_at_put [simp]:
  "order_at (put_order i x ar) j y \<longleftrightarrow>
     (if j = i then i < mp_capacity (ar_orders ar) \<and> y = x else order_at ar j y)"
  "order_at (put_level i l ar) j y \<longleftrightarrow> order_at ar j y"
  by (auto simp: order_at_def)

lemma level_at_put [simp]:
  "level_at (put_level i x ar) j y \<longleftrightarrow>
     (if j = i then i < mp_capacity (ar_levels ar) \<and> y = x else level_at ar j y)"
  "level_at (put_order i z ar) j y \<longleftrightarrow> level_at ar j y"
  by (auto simp: level_at_def)

lemma order_at_less: "order_at ar i x \<Longrightarrow> i < mp_capacity (ar_orders ar)"
  by (simp add: order_at_def)

lemma level_at_less: "level_at ar i l \<Longrightarrow> i < mp_capacity (ar_levels ar)"
  by (simp add: level_at_def)

lemma order_at_unique: "order_at ar i x \<Longrightarrow> order_at ar i y \<Longrightarrow> x = y"
  by (simp add: order_at_def)

lemma level_at_unique: "level_at ar i x \<Longrightarrow> level_at ar i y \<Longrightarrow> x = y"
  by (simp add: level_at_def)

lemma arena_eval [exec_simps]:
  "order_at ar i x \<Longrightarrow> get_order ar i = Some x"
  "level_at ar i l \<Longrightarrow> get_level ar i = Some l"
  "order_at ar i x \<Longrightarrow> upd_order ar i f = Some (put_order i (f x) ar)"
  "level_at ar i l \<Longrightarrow> upd_level ar i g = Some (put_level i (g l) ar)"
  by (simp_all add: order_at_def level_at_def get_order_def get_level_def upd_order_def
      upd_level_def put_order_def put_level_def exec_simps)

section \<open>Frames\<close>

text \<open>
  \<open>ar'\<close> differs from \<open>ar\<close> at most in the order slots \<open>Os\<close> and the level slots \<open>Ls\<close>, and
  the free list of the order pool is the same.
\<close>

definition arena_frame :: "nat set \<Rightarrow> nat set \<Rightarrow> arena \<Rightarrow> arena \<Rightarrow> bool" where
  "arena_frame Os Ls ar ar' \<longleftrightarrow>
     mp_capacity (ar_orders ar') = mp_capacity (ar_orders ar) \<and>
     mp_capacity (ar_levels ar') = mp_capacity (ar_levels ar) \<and>
     mp_head (ar_orders ar') = mp_head (ar_orders ar) \<and>
     (\<forall>i. i \<notin> Os \<longrightarrow> ord ar' i = ord ar i) \<and> (\<forall>i. i \<notin> Ls \<longrightarrow> lev ar' i = lev ar i)"

lemma arena_frame_refl [simp]: "arena_frame Os Ls ar ar"
  by (simp add: arena_frame_def)

lemma arena_frame_mono:
  "arena_frame Os Ls ar ar' \<Longrightarrow> Os \<subseteq> Os' \<Longrightarrow> Ls \<subseteq> Ls' \<Longrightarrow> arena_frame Os' Ls' ar ar'"
  unfolding arena_frame_def by blast

lemma arena_frame_trans:
  "arena_frame Os Ls ar ar' \<Longrightarrow> arena_frame Os Ls ar' ar'' \<Longrightarrow> arena_frame Os Ls ar ar''"
  by (simp add: arena_frame_def)

lemma arena_frame_put_order: "i \<in> Os \<Longrightarrow> arena_frame Os Ls ar (put_order i x ar)"
  by (simp add: arena_frame_def)

lemma arena_frame_put_level: "i \<in> Ls \<Longrightarrow> arena_frame Os Ls ar (put_level i l ar)"
  by (simp add: arena_frame_def)

lemma order_at_frame: "arena_frame Os Ls ar ar' \<Longrightarrow> i \<notin> Os \<Longrightarrow> order_at ar' i x = order_at ar i x"
  by (simp add: arena_frame_def order_at_def)

lemma level_at_frame: "arena_frame Os Ls ar ar' \<Longrightarrow> i \<notin> Ls \<Longrightarrow> level_at ar' i x = level_at ar i x"
  by (simp add: arena_frame_def level_at_def)

text \<open>Writes inside the owned slots leave the free list as it is.\<close>

lemma free_chain_cong:
  "(\<And>x. x \<in> set xs \<Longrightarrow> st' x = st x) \<Longrightarrow> free_chain st' q xs = free_chain st q xs"
  by (induction xs arbitrary: q) (simp_all cong: cell.case_cong)

lemma owned_cong:
  assumes "owned p U" "mp_capacity p' = mp_capacity p" "mp_head p' = mp_head p"
    and "\<And>i. i \<notin> U \<Longrightarrow> mp_storage p' i = mp_storage p i"
  shows "owned p' U"
proof -
  from assms(1) obtain fs where fs: "free_chain (mp_storage p) (mp_head p) fs" "distinct fs"
    "set fs = {..<mp_capacity p} - U" by (auto simp: owned_def)
  then have "free_chain (mp_storage p') (mp_head p) fs"
    using assms(4) free_chain_cong [of fs "mp_storage p'" "mp_storage p"] by auto
  with fs assms show ?thesis by (auto simp: owned_def)
qed

lemma owned_orders_frame:
  "owned (ar_orders ar) U \<Longrightarrow> arena_frame Os Ls ar ar' \<Longrightarrow> Os \<subseteq> U \<Longrightarrow> owned (ar_orders ar') U"
  by (erule owned_cong) (auto simp: arena_frame_def)

lemma owned_levels_frame:
  "owned (ar_levels ar) U \<Longrightarrow> arena_frame Os Ls ar ar' \<Longrightarrow> Ls \<subseteq> U \<Longrightarrow>
   mp_head (ar_levels ar') = mp_head (ar_levels ar) \<Longrightarrow> owned (ar_levels ar') U"
  by (erule owned_cong) (auto simp: arena_frame_def)

section \<open>What a level represents\<close>

definition shares_at :: "arena \<Rightarrow> nat \<Rightarrow> Shares" where
  "shares_at ar i = (case ord ar i of Obj x \<Rightarrow> o_shares_remaining x | FreeNode _ \<Rightarrow> 0)"

definition shares_sum :: "arena \<Rightarrow> nat list \<Rightarrow> u64" where
  "shares_sum ar os = sum_list (map (\<lambda>i. ucast (shares_at ar i)) os)"

text \<open>The links, counts and keys of a level with the order list \<open>os\<close>.\<close>

definition level_list :: "arena \<Rightarrow> Side \<Rightarrow> nat \<Rightarrow> Price \<Rightarrow> nat list \<Rightarrow> bool" where
  "level_list ar s lv px os \<longleftrightarrow> distinct os \<and> dlinks o_next o_prev (ord ar) None os None \<and>
     (\<forall>i\<in>set os. \<exists>x. order_at ar i x \<and> o_price_cents x = px \<and> o_side x = s) \<and>
     (\<exists>l. level_at ar lv l \<and> l_price_cents l = px \<and> l_side l = s \<and>
        l_head_order l = firstp os None \<and> l_tail_order l = lastp None os \<and>
        l_order_count l = of_nat (length os))"

definition level_rep :: "arena \<Rightarrow> Side \<Rightarrow> nat \<Rightarrow> Price \<Rightarrow> nat list \<Rightarrow> bool" where
  "level_rep ar s lv px os \<longleftrightarrow> level_list ar s lv px os \<and>
     (\<exists>l. level_at ar lv l \<and> l_total_shares l = shares_sum ar os)"

text \<open>
  A step inside the level \<open>lv\<close>: it writes only the orders \<open>Os\<close> and that level, keeps what
  every order says and keeps the place of the level among the levels.
\<close>

definition data_kept :: "arena \<Rightarrow> arena \<Rightarrow> bool" where
  "data_kept ar ar' \<longleftrightarrow> (\<forall>i x. order_at ar i x \<longrightarrow> (\<exists>x'. order_at ar' i x' \<and> o_data x' = o_data x))"

definition place_kept :: "nat \<Rightarrow> arena \<Rightarrow> arena \<Rightarrow> bool" where
  "place_kept lv ar ar' \<longleftrightarrow> mp_head (ar_levels ar') = mp_head (ar_levels ar) \<and>
     (\<forall>l. level_at ar lv l \<longrightarrow> (\<exists>l'. level_at ar' lv l' \<and>
        l_prev_level l' = l_prev_level l \<and> l_next_level l' = l_next_level l))"

lemma o_data_sel:
  "o_data x' = o_data x \<Longrightarrow> o_order_id x' = o_order_id x \<and> o_locate x' = o_locate x \<and>
     o_price_cents x' = o_price_cents x \<and> o_shares_remaining x' = o_shares_remaining x \<and>
     o_side x' = o_side x \<and> o_added_at_ns x' = o_added_at_ns x \<and> o_mpid x' = o_mpid x"
  unfolding o_data_def by (cases x; cases x') simp

lemma o_data_links [simp]:
  "o_data (x\<lparr>o_next := q\<rparr>) = o_data x" "o_data (x\<lparr>o_prev := q\<rparr>) = o_data x"
  "o_data (order_set_next q x) = o_data x" "o_data (order_set_prev q x) = o_data x"
  by (simp_all add: o_data_def order_set_next_def order_set_prev_def)

lemma data_kept_refl [simp]: "data_kept ar ar"
  by (auto simp: data_kept_def)

lemma data_kept_trans: "data_kept ar ar' \<Longrightarrow> data_kept ar' ar'' \<Longrightarrow> data_kept ar ar''"
  unfolding data_kept_def by metis

lemma data_kept_put_order: "order_at ar i x \<Longrightarrow> o_data x' = o_data x \<Longrightarrow> data_kept ar (put_order i x' ar)"
  by (auto simp: data_kept_def order_at_def)

lemma data_kept_put_level [simp]: "data_kept ar (put_level i l ar)"
  by (auto simp: data_kept_def)

lemma shares_at_order: "order_at ar i x \<Longrightarrow> shares_at ar i = o_shares_remaining x"
  by (simp add: order_at_def shares_at_def)

lemma shares_at_kept: "data_kept ar ar' \<Longrightarrow> order_at ar i x \<Longrightarrow> shares_at ar' i = shares_at ar i"
  unfolding data_kept_def using shares_at_order o_data_sel by metis

lemma shares_sum_simps [simp]:
  "shares_sum ar [] = 0" "shares_sum ar (i # os) = ucast (shares_at ar i) + shares_sum ar os"
  "shares_sum ar (os @ js) = shares_sum ar os + shares_sum ar js"
  by (simp_all add: shares_sum_def)

lemma shares_sum_cong:
  "(\<And>i. i \<in> set os \<Longrightarrow> shares_at ar' i = shares_at ar i) \<Longrightarrow> shares_sum ar' os = shares_sum ar os"
  unfolding shares_sum_def by (intro arg_cong [where f = sum_list] map_cong) simp_all


section \<open>The operations\<close>

lemma level_list_order:
  "level_list ar s lv px os \<Longrightarrow> i \<in> set os \<Longrightarrow>
   \<exists>x. order_at ar i x \<and> o_price_cents x = px \<and> o_side x = s"
  unfolding level_list_def by blast

lemma shares_sum_kept:
  "data_kept ar ar' \<Longrightarrow> \<forall>i\<in>set os. \<exists>x. order_at ar i x \<Longrightarrow> shares_sum ar' os = shares_sum ar os"
  by (rule shares_sum_cong) (metis shares_at_kept)

lemma orders_kept:
  assumes "data_kept ar ar'" "\<forall>i\<in>set os. \<exists>x. order_at ar i x \<and> o_price_cents x = px \<and> o_side x = s"
  shows "\<forall>i\<in>set os. \<exists>x. order_at ar' i x \<and> o_price_cents x = px \<and> o_side x = s"
  using assms unfolding data_kept_def by (metis o_data_sel)

lemma level_listI:
  assumes "level_at ar lv l" "distinct os" "dlinks o_next o_prev (ord ar) None os None"
    and "\<forall>i\<in>set os. \<exists>x. order_at ar i x \<and> o_price_cents x = px \<and> o_side x = s"
    and "l_price_cents l = px" "l_side l = s" "l_head_order l = firstp os None"
      "l_tail_order l = lastp None os" "l_order_count l = of_nat (length os)"
  shows "level_list ar s lv px os"
  using assms unfolding level_list_def by blast

lemma level_repI:
  "level_at ar lv l \<Longrightarrow> level_list ar s lv px os \<Longrightarrow> l_total_shares l = shares_sum ar os \<Longrightarrow>
   level_rep ar s lv px os"
  unfolding level_rep_def by blast

text \<open>The memory after appending: the old tail gets a successor, the level a new tail.\<close>

lemma push_back_eval:
  assumes x: "order_at ar i x" and l: "level_at ar lv l"
    and tail: "l_tail_order l = None \<or> (\<exists>t y. l_tail_order l = Some t \<and> order_at ar t y \<and> t \<noteq> i)"
  shows "\<exists>ar'. push_back ar lv i = Some ar' \<and>
     ord ar' = join_next order_set_next (l_tail_order l) (Some i)
                 ((ord ar)(i := Obj (x\<lparr>o_next := None, o_prev := l_tail_order l\<rparr>))) \<and>
     arena_frame (insert i (set_option (l_tail_order l))) {lv} ar ar' \<and> data_kept ar ar' \<and>
     mp_head (ar_levels ar') = mp_head (ar_levels ar) \<and>
     level_at ar' lv (l\<lparr>l_head_order := (if l_tail_order l = None then Some i else l_head_order l),
       l_tail_order := Some i, l_total_shares := l_total_shares l + ucast (o_shares_remaining x),
       l_order_count := l_order_count l + 1\<rparr>)"
proof -
  let ?x = "x\<lparr>o_next := None, o_prev := l_tail_order l\<rparr>"
  let ?ar1 = "put_order i ?x ar"
  have k1: "data_kept ar ?ar1" using x by (rule data_kept_put_order) (simp add: o_data_def)
  note less = order_at_less [OF x] level_at_less [OF l]
  from tail show ?thesis
  proof
    assume "l_tail_order l = None"
    with x l less k1 show ?thesis
      by (simp add: push_back_def exec_simps arena_frame_def data_kept_def)
  next
    assume "\<exists>t y. l_tail_order l = Some t \<and> order_at ar t y \<and> t \<noteq> i"
    then obtain t y where t: "l_tail_order l = Some t" "order_at ar t y" "t \<noteq> i" by blast
    let ?ar2 = "put_order t (y\<lparr>o_next := Some i\<rparr>) ?ar1"
    have "data_kept ?ar1 ?ar2" using t by (intro data_kept_put_order) auto
    with k1 have "data_kept ar ?ar2" by (rule data_kept_trans)
    moreover have "ord ar t = Obj y" "t < mp_capacity (ar_orders ar)" using t(2) by (simp_all add: order_at_def)
    ultimately show ?thesis using x l less t
      by (simp add: push_back_def exec_simps arena_frame_def data_kept_def join_next_def order_set_next_def)
  qed
qed

lemma push_back_ok:
  assumes rep: "level_rep ar s lv px os" and i: "order_at ar i x" "i \<notin> set os"
    and x: "o_price_cents x = px" "o_side x = s"
  shows "\<exists>ar'. push_back ar lv i = Some ar' \<and> level_rep ar' s lv px (os @ [i]) \<and>
     arena_frame (insert i (set os)) {lv} ar ar' \<and> data_kept ar ar' \<and> place_kept lv ar ar'"
proof -
  from rep obtain l where list: "level_list ar s lv px os" and l: "level_at ar lv l"
    "l_price_cents l = px" "l_side l = s" "l_head_order l = firstp os None"
    "l_tail_order l = lastp None os" "l_order_count l = of_nat (length os)"
    "l_total_shares l = shares_sum ar os"
    by (auto simp: level_rep_def level_list_def dest: level_at_unique)
  have os: "distinct os" "dlinks o_next o_prev (ord ar) None os None"
    "\<forall>i\<in>set os. \<exists>x. order_at ar i x \<and> o_price_cents x = px \<and> o_side x = s"
    using list by (simp_all add: level_list_def)
  have tail: "set_option (l_tail_order l) \<subseteq> set os"
    using l(5) by (auto simp: lastp_def l(5))
  then have "l_tail_order l = None \<or> (\<exists>t y. l_tail_order l = Some t \<and> order_at ar t y \<and> t \<noteq> i)"
    using os(3) i(2) by (cases "l_tail_order l") fastforce+
  from push_back_eval [OF i(1) l(1) this] obtain ar' where ar': "push_back ar lv i = Some ar'"
    "ord ar' = join_next order_set_next (l_tail_order l) (Some i)
                 ((ord ar)(i := Obj (x\<lparr>o_next := None, o_prev := l_tail_order l\<rparr>)))"
    "arena_frame (insert i (set_option (l_tail_order l))) {lv} ar ar'" "data_kept ar ar'"
    "mp_head (ar_levels ar') = mp_head (ar_levels ar)"
    "level_at ar' lv (l\<lparr>l_head_order := (if l_tail_order l = None then Some i else l_head_order l),
       l_tail_order := Some i, l_total_shares := l_total_shares l + ucast (o_shares_remaining x),
       l_order_count := l_order_count l + 1\<rparr>)" by blast
  have links: "dlinks o_next o_prev (ord ar') None (os @ [i]) None"
  proof -
    have "dlinks o_next o_prev ((ord ar)(i := Obj (x\<lparr>o_next := None, o_prev := l_tail_order l\<rparr>)))
        None (os @ []) None" using os(2) i(2) by simp
    from order_node.links_insert [OF this, of i] os(1) i(2) l(5) show ?thesis
      by (simp add: ar'(2))
  qed
  have "\<exists>x'. order_at ar' i x' \<and> o_price_cents x' = px \<and> o_side x' = s"
    using ar'(4) i(1) x unfolding data_kept_def by (metis o_data_sel)
  with orders_kept [OF ar'(4) os(3)]
  have orders: "\<forall>j\<in>set (os @ [i]). \<exists>x. order_at ar' j x \<and> o_price_cents x = px \<and> o_side x = s" by simp
  have head: "(if l_tail_order l = None then Some i else l_head_order l) = firstp (os @ [i]) None"
    using l(4,5) by (cases os) (auto simp: lastp_def)
  have "level_list ar' s lv px (os @ [i])"
    using links orders os(1) i(2) l head by (intro level_listI [OF ar'(6)]) (simp_all add: add.commute)
  moreover have "shares_sum ar' (os @ [i]) = l_total_shares l + ucast (o_shares_remaining x)"
    using shares_sum_kept [OF ar'(4), of os] os(3) l(7) shares_at_kept [OF ar'(4) i(1)] shares_at_order [OF i(1)]
    by fastforce
  ultimately have "level_rep ar' s lv px (os @ [i])" by (intro level_repI [OF ar'(6)]) simp_all
  moreover have "arena_frame (insert i (set os)) {lv} ar ar'"
    using ar'(3) tail by (rule_tac arena_frame_mono) auto
  moreover have "place_kept lv ar ar'"
    using ar'(5,6) l(1) by (auto simp: place_kept_def dest: level_at_unique)
  ultimately show ?thesis using ar'(1,4) by blast
qed

text \<open>The memory after unlinking: the neighbours are joined and the level's ends updated.\<close>

lemma unlink_eval:
  assumes x: "order_at ar i x" and l: "level_at ar lv l"
    and p: "o_prev x = None \<or> (\<exists>p y. o_prev x = Some p \<and> order_at ar p y \<and> p \<noteq> i)"
    and n: "o_next x = None \<or> (\<exists>n y. o_next x = Some n \<and> order_at ar n y \<and> n \<noteq> i \<and> o_prev x \<noteq> Some n)"
  shows "\<exists>ar'. unlink ar lv i = Some ar' \<and>
     ord ar' = (join_next order_set_prev (o_next x) (o_prev x)
                 (join_next order_set_next (o_prev x) (o_next x) (ord ar)))
               (i := Obj (x\<lparr>o_next := None, o_prev := None\<rparr>)) \<and>
     arena_frame (insert i (set_option (o_prev x) \<union> set_option (o_next x))) {lv} ar ar' \<and>
     data_kept ar ar' \<and> mp_head (ar_levels ar') = mp_head (ar_levels ar) \<and>
     level_at ar' lv (l\<lparr>l_head_order := (if o_prev x = None then o_next x else l_head_order l),
       l_tail_order := (if o_next x = None then o_prev x else l_tail_order l),
       l_order_count := l_order_count l - 1\<rparr>)"
proof -
  note less = order_at_less [OF x] level_at_less [OF l]
  note eval = unlink_def exec_simps arena_frame_def join_next_def order_set_next_def order_set_prev_def
    data_kept_def
  have x': "ord ar i = Obj x" using x by (simp add: order_at_def)
  from p n show ?thesis
  proof (elim disjE exE conjE)
    assume "o_prev x = None" "o_next x = None"
    with x l less x' show ?thesis by (simp add: eval) (metis order_at_unique o_data_links(1,2))
  next
    fix n y assume "o_prev x = None" and n: "o_next x = Some n" "order_at ar n y" "n \<noteq> i"
    moreover have "ord ar n = Obj y" "n < mp_capacity (ar_orders ar)" using n(2) by (simp_all add: order_at_def)
    ultimately show ?thesis using x l less x' by (simp add: eval) (metis order_at_unique o_data_links(1,2))
  next
    fix p y assume "o_next x = None" and p: "o_prev x = Some p" "order_at ar p y" "p \<noteq> i"
    moreover have "ord ar p = Obj y" "p < mp_capacity (ar_orders ar)" using p(2) by (simp_all add: order_at_def)
    ultimately show ?thesis using x l less x' by (simp add: eval) (metis order_at_unique o_data_links(1,2))
  next
    fix p y n z assume p: "o_prev x = Some p" "order_at ar p y" "p \<noteq> i"
      and n: "o_next x = Some n" "order_at ar n z" "n \<noteq> i" "o_prev x \<noteq> Some n"
    moreover have "ord ar p = Obj y" "p < mp_capacity (ar_orders ar)"
      "ord ar n = Obj z" "n < mp_capacity (ar_orders ar)"
      using p(2) n(2) by (simp_all add: order_at_def)
    ultimately show ?thesis using x l less x' by (simp add: eval) (metis order_at_unique o_data_links(1,2))
  qed
qed

lemma unlink_ok:
  assumes list: "level_list ar s lv px (xs @ i # ys)"
  shows "\<exists>ar'. unlink ar lv i = Some ar' \<and> level_list ar' s lv px (xs @ ys) \<and>
     arena_frame (set (xs @ i # ys)) {lv} ar ar' \<and> data_kept ar ar' \<and> place_kept lv ar ar' \<and>
     (\<forall>l. level_at ar lv l \<longrightarrow> (\<exists>l'. level_at ar' lv l' \<and> l_total_shares l' = l_total_shares l))"
proof -
  from list obtain l where l: "level_at ar lv l"
    "l_price_cents l = px" "l_side l = s" "l_head_order l = firstp (xs @ i # ys) None"
    "l_tail_order l = lastp None (xs @ i # ys)" "l_order_count l = of_nat (length (xs @ i # ys))"
    unfolding level_list_def by blast
  from list have dis: "distinct (xs @ i # ys)"
    and links: "dlinks o_next o_prev (ord ar) None (xs @ i # ys) None"
    and orders: "\<forall>j\<in>set (xs @ i # ys). \<exists>x. order_at ar j x \<and> o_price_cents x = px \<and> o_side x = s"
    unfolding level_list_def by blast+
  then obtain x where x: "order_at ar i x" by auto
  then have "ord ar i = Obj x" by (simp add: order_at_def)
  from order_node.node_neighbours [OF links this]
  have nb: "o_prev x = lastp None xs" "o_next x = firstp ys None" .
  have prev: "set_option (o_prev x) \<subseteq> set xs" by (auto simp: nb lastp_def split: if_splits)
  have nxt: "set_option (o_next x) \<subseteq> set ys" by (auto simp: nb firstp_def split: list.splits)
  have "o_prev x = None \<or> (\<exists>p y. o_prev x = Some p \<and> order_at ar p y \<and> p \<noteq> i)"
    using prev orders dis by (cases "o_prev x") fastforce+
  moreover have "o_next x = None \<or>
      (\<exists>n y. o_next x = Some n \<and> order_at ar n y \<and> n \<noteq> i \<and> o_prev x \<noteq> Some n)"
    using prev nxt orders dis by (cases "o_next x") fastforce+
  ultimately obtain ar' where ar': "unlink ar lv i = Some ar'"
    "ord ar' = (join_next order_set_prev (o_next x) (o_prev x)
                 (join_next order_set_next (o_prev x) (o_next x) (ord ar)))
               (i := Obj (x\<lparr>o_next := None, o_prev := None\<rparr>))"
    "arena_frame (insert i (set_option (o_prev x) \<union> set_option (o_next x))) {lv} ar ar'"
    "data_kept ar ar'" "mp_head (ar_levels ar') = mp_head (ar_levels ar)"
    "level_at ar' lv (l\<lparr>l_head_order := (if o_prev x = None then o_next x else l_head_order l),
       l_tail_order := (if o_next x = None then o_prev x else l_tail_order l),
       l_order_count := l_order_count l - 1\<rparr>)"
    using unlink_eval [OF x l(1)] by blast
  have links': "dlinks o_next o_prev (ord ar') None (xs @ ys) None"
    using order_node.links_unlink [OF links dis] dis by (simp add: ar'(2) nb)
  have "firstp xs (firstp ys None) = (if o_prev x = None then o_next x else l_head_order l)"
    using l(4) by (cases xs) (auto simp: nb lastp_def)
  moreover have "lastp (lastp None xs) ys = (if o_next x = None then o_prev x else l_tail_order l)"
    using l(5) by (cases ys) (auto simp: nb lastp_def)
  ultimately have "level_list ar' s lv px (xs @ ys)"
    using links' orders_kept [OF ar'(4) orders] dis l
    by (intro level_listI [OF ar'(6)]) simp_all
  moreover have "arena_frame (set (xs @ i # ys)) {lv} ar ar'"
    using ar'(3) prev nxt by (rule_tac arena_frame_mono) auto
  moreover have "place_kept lv ar ar'" "\<forall>l. level_at ar lv l \<longrightarrow>
      (\<exists>l'. level_at ar' lv l' \<and> l_total_shares l' = l_total_shares l)"
    using ar'(5,6) l(1) by (auto simp: place_kept_def dest: level_at_unique)
  ultimately show ?thesis using ar'(1,4) by blast
qed

lemma level_list_put_level:
  assumes "level_list ar s lv px os" "level_at ar lv l" "l_price_cents l' = l_price_cents l"
    "l_side l' = l_side l" "l_head_order l' = l_head_order l" "l_tail_order l' = l_tail_order l"
    "l_order_count l' = l_order_count l"
  shows "level_list (put_level lv l' ar) s lv px os"
  using assms level_at_less [OF assms(2)] unfolding level_list_def
  by (auto dest: level_at_unique [OF assms(2)])

lemma place_kept_put_level:
  "level_at ar lv l \<Longrightarrow> l_prev_level l' = l_prev_level l \<Longrightarrow> l_next_level l' = l_next_level l \<Longrightarrow>
   place_kept lv ar (put_level lv l' ar)"
  by (auto simp: place_kept_def level_at_def)

lemma place_kept_trans: "place_kept lv ar ar' \<Longrightarrow> place_kept lv ar' ar'' \<Longrightarrow> place_kept lv ar ar''"
  unfolding place_kept_def by metis

lemma unlink_and_deduct_ok:
  assumes rep: "level_rep ar s lv px (xs @ i # ys)"
  shows "\<exists>ar'. unlink_and_deduct ar lv i = Some ar' \<and> level_rep ar' s lv px (xs @ ys) \<and>
     arena_frame (set (xs @ i # ys)) {lv} ar ar' \<and> data_kept ar ar' \<and> place_kept lv ar ar'"
proof -
  from rep obtain l where list: "level_list ar s lv px (xs @ i # ys)" and l: "level_at ar lv l"
    "l_total_shares l = shares_sum ar (xs @ i # ys)" unfolding level_rep_def by blast
  then obtain x where x: "order_at ar i x" unfolding level_list_def by force
  let ?l = "l\<lparr>l_total_shares := l_total_shares l - ucast (o_shares_remaining x)\<rparr>"
  let ?ar1 = "put_level lv ?l ar"
  have list1: "level_list ?ar1 s lv px (xs @ i # ys)"
    using list l(1) by (rule level_list_put_level) simp_all
  have place1: "place_kept lv ar ?ar1" using l(1) by (rule place_kept_put_level) simp_all
  have l1: "level_at ?ar1 lv ?l" using l(1) by (simp add: level_at_def)
  from unlink_ok [OF list1] l1 obtain ar' l' where ar': "unlink ?ar1 lv i = Some ar'"
    "level_list ar' s lv px (xs @ ys)" "arena_frame (set (xs @ i # ys)) {lv} ?ar1 ar'"
    "data_kept ?ar1 ar'" "place_kept lv ?ar1 ar'" "level_at ar' lv l'"
    "l_total_shares l' = l_total_shares l - ucast (o_shares_remaining x)" by fastforce
  have kept: "data_kept ar ar'" using data_kept_put_level ar'(4) by (rule data_kept_trans)
  have frame: "arena_frame (set (xs @ i # ys)) {lv} ar ar'"
    using arena_frame_put_level ar'(3) by (rule arena_frame_trans) simp
  have "\<forall>j\<in>set (xs @ ys). \<exists>x. order_at ar j x" using list unfolding level_list_def by auto
  from shares_sum_kept [OF kept this] l(2) shares_at_order [OF x]
  have "l_total_shares l' = shares_sum ar' (xs @ ys)" by (simp add: ar'(7))
  with ar'(2,6) have "level_rep ar' s lv px (xs @ ys)" by (intro level_repI)
  moreover have "unlink_and_deduct ar lv i = Some ar'"
    using x l(1) ar'(1) by (simp add: unlink_and_deduct_def exec_simps)
  ultimately show ?thesis using kept frame place_kept_trans [OF place1 ar'(5)] by blast
qed

text \<open>Filling part or all of an order that stays linked: level total and order move together.\<close>

lemma ucast_diff_le:
  fixes a f :: Shares
  assumes "f \<le> a" shows "(ucast (a - f) :: u64) = ucast a - ucast f"
proof -
  have "unat f \<le> unat a" using assms by (simp add: word_le_nat_alt)
  then have "(of_nat (unat a - unat f) :: u64) = of_nat (unat a) - of_nat (unat f)"
    by (rule of_nat_diff)
  moreover have "unat (a - f) = unat a - unat f" using assms by (rule unat_sub)
  moreover have cast: "(ucast w :: u64) = of_nat (unat w)" for w :: Shares by simp
  ultimately show ?thesis by (simp only: cast)
qed

lemma fill_ok:
  assumes rep: "level_rep ar s lv px (xs @ i # ys)" and x: "order_at ar i x" and l: "level_at ar lv l"
    and f: "f \<le> o_shares_remaining x"
  shows "level_rep (put_order i (x\<lparr>o_shares_remaining := o_shares_remaining x - f\<rparr>)
           (put_level lv (l\<lparr>l_total_shares := l_total_shares l - ucast f\<rparr>) ar)) s lv px (xs @ i # ys)"
proof -
  let ?x = "x\<lparr>o_shares_remaining := o_shares_remaining x - f\<rparr>"
  let ?l = "l\<lparr>l_total_shares := l_total_shares l - ucast f\<rparr>"
  let ?ar1 = "put_level lv ?l ar" let ?ar' = "put_order i ?x ?ar1"
  from rep have list: "level_list ar s lv px (xs @ i # ys)"
    and total: "l_total_shares l = shares_sum ar (xs @ i # ys)"
    using l by (auto simp: level_rep_def dest: level_at_unique)
  have list1: "level_list ?ar1 s lv px (xs @ i # ys)"
    using list l by (rule level_list_put_level) simp_all
  have "level_list ?ar' s lv px (xs @ i # ys)"
    unfolding level_list_def
  proof (intro conjI)
    show "dlinks o_next o_prev (ord ?ar') None (xs @ i # ys) None"
      by (rule dlinks_same_links [where st = "ord ar"])
        (use list x in \<open>auto simp: level_list_def order_at_def\<close>)
    show "\<forall>j\<in>set (xs @ i # ys). \<exists>x. order_at ?ar' j x \<and> o_price_cents x = px \<and> o_side x = s"
      using list x order_at_less [OF x] unfolding level_list_def
      by (auto dest: order_at_unique [OF x])
  qed (use list1 in \<open>auto simp: level_list_def\<close>)
  moreover have "level_at ?ar' lv ?l" using l by (simp add: level_at_def)
  moreover have "l_total_shares ?l = shares_sum ?ar' (xs @ i # ys)"
  proof -
    have "i \<notin> set xs" "i \<notin> set ys" using list by (simp_all add: level_list_def)
    then have "shares_sum ?ar' xs = shares_sum ar xs" "shares_sum ?ar' ys = shares_sum ar ys"
      by (auto intro!: shares_sum_cong simp: shares_at_def)
    moreover have "shares_at ?ar' i = o_shares_remaining x - f" by (simp add: shares_at_def)
    ultimately show ?thesis by (simp add: total shares_at_order [OF x] ucast_diff_le [OF f])
  qed
  ultimately show ?thesis by (intro level_repI)
qed

text \<open>A level depends only on its own memory.\<close>

definition same_on :: "nat set \<Rightarrow> nat set \<Rightarrow> arena \<Rightarrow> arena \<Rightarrow> bool" where
  "same_on Os Ls ar ar' \<longleftrightarrow>
     mp_capacity (ar_orders ar') = mp_capacity (ar_orders ar) \<and>
     mp_capacity (ar_levels ar') = mp_capacity (ar_levels ar) \<and>
     (\<forall>i\<in>Os. ord ar' i = ord ar i) \<and> (\<forall>i\<in>Ls. lev ar' i = lev ar i)"

lemma same_on_frame:
  "arena_frame Os Ls ar ar' \<Longrightarrow> Os \<inter> Os' = {} \<Longrightarrow> Ls \<inter> Ls' = {} \<Longrightarrow> same_on Os' Ls' ar ar'"
  unfolding arena_frame_def same_on_def by blast

lemma same_on_mono: "same_on Os Ls ar ar' \<Longrightarrow> Os' \<subseteq> Os \<Longrightarrow> Ls' \<subseteq> Ls \<Longrightarrow> same_on Os' Ls' ar ar'"
  unfolding same_on_def by blast

lemma order_at_same: "same_on Os Ls ar ar' \<Longrightarrow> i \<in> Os \<Longrightarrow> order_at ar' i x = order_at ar i x"
  by (simp add: same_on_def order_at_def)

lemma level_at_same: "same_on Os Ls ar ar' \<Longrightarrow> i \<in> Ls \<Longrightarrow> level_at ar' i x = level_at ar i x"
  by (simp add: same_on_def level_at_def)

lemma shares_sum_same: "same_on Os Ls ar ar' \<Longrightarrow> set os \<subseteq> Os \<Longrightarrow> shares_sum ar' os = shares_sum ar os"
  by (rule shares_sum_cong) (auto simp: same_on_def shares_at_def)

text \<open>The level slot itself may change its place among the levels.\<close>

lemma level_rep_same:
  assumes rep: "level_rep ar s lv px os" and same: "same_on (set os) {} ar ar'"
    and lv: "\<And>l. level_at ar lv l \<Longrightarrow> \<exists>p q. level_at ar' lv (l\<lparr>l_prev_level := p, l_next_level := q\<rparr>)"
  shows "level_rep ar' s lv px os"
proof -
  from rep obtain l where l: "level_at ar lv l" "l_price_cents l = px" "l_side l = s"
    "l_head_order l = firstp os None" "l_tail_order l = lastp None os"
    "l_order_count l = of_nat (length os)" "l_total_shares l = shares_sum ar os"
    and os: "distinct os" "dlinks o_next o_prev (ord ar) None os None"
    "\<forall>i\<in>set os. \<exists>x. order_at ar i x \<and> o_price_cents x = px \<and> o_side x = s"
    by (auto simp: level_rep_def level_list_def dest: level_at_unique)
  from lv [OF l(1)] obtain p q where l': "level_at ar' lv (l\<lparr>l_prev_level := p, l_next_level := q\<rparr>)"
    by blast
  have "dlinks o_next o_prev (ord ar') None os None"
    using os(2) same by (subst dlinks_cong [where st = "ord ar"]) (auto simp: same_on_def)
  then have "level_list ar' s lv px os"
    using os order_at_same [OF same] l by (intro level_listI [OF l']) auto
  moreover have "shares_sum ar' os = shares_sum ar os" using same by (rule shares_sum_same) simp
  ultimately show ?thesis using l by (intro level_repI [OF l']) simp_all
qed

lemma level_rep_cong:
  assumes "level_rep ar s lv px os" and same: "same_on (set os) {lv} ar ar'"
  shows "level_rep ar' s lv px os"
proof (rule level_rep_same [OF assms(1)])
  show "same_on (set os) {} ar ar'" using same by (rule same_on_mono) simp_all
  fix l assume "level_at ar lv l"
  then have "level_at ar' lv (l\<lparr>l_prev_level := l_prev_level l, l_next_level := l_next_level l\<rparr>)"
    using level_at_same [OF same] by simp
  then show "\<exists>p q. level_at ar' lv (l\<lparr>l_prev_level := p, l_next_level := q\<rparr>)" by blast
qed

text \<open>The assertions the code makes about the sizes of the two structs; a free slot holds a pointer.\<close>

lemma pooled_sizes:
  "sizeof_Order \<le> kCacheLineSize" "sizeof_PriceLevel \<le> 2 * kCacheLineSize" "sizeof_Order \<ge> 8" "sizeof_PriceLevel \<ge> 8"
  by code_simp+

end
