(* ===== verification/Probing.thy ===== *)
theory Probing
  imports Itch_Prelude
begin

text \<open>
  Linear probing in a ring of \<open>N\<close> slots, independent of the hash function: the invariant of
  an open-addressing table without tombstones, and the argument why deleting a key and
  re-inserting the keys that follow it, up to the next empty slot, restores the invariant and
  ends. \<open>K\<close> gives the key of each slot, \<open>e\<close> is the key that marks an empty slot and
  \<open>home k\<close> is the slot where the probe sequence of \<open>k\<close> starts. The locale \<open>probing\<close> is
  the contract of the home function.
\<close>

section \<open>Definitions\<close>

definition slot :: "nat \<Rightarrow> nat \<Rightarrow> nat \<Rightarrow> nat" where
  "slot N h d = (h + d) mod N"

definition dist :: "nat \<Rightarrow> nat \<Rightarrow> nat \<Rightarrow> nat" where
  "dist N h p = (p + N - h) mod N"

text \<open>No slot on the probe sequence before the key's own slot is empty.\<close>

definition well_placed :: "nat \<Rightarrow> ('k \<Rightarrow> nat) \<Rightarrow> 'k \<Rightarrow> (nat \<Rightarrow> 'k) \<Rightarrow> nat \<Rightarrow> bool" where
  "well_placed N home e K p \<longleftrightarrow>
     (\<exists>d<N. p = slot N (home (K p)) d \<and> (\<forall>d'<d. K (slot N (home (K p)) d') \<noteq> e))"

text \<open>Slot \<open>p\<close> is reached from \<open>j\<close> through occupied slots only.\<close>

definition in_run :: "nat \<Rightarrow> 'k \<Rightarrow> (nat \<Rightarrow> 'k) \<Rightarrow> nat \<Rightarrow> nat \<Rightarrow> bool" where
  "in_run N e K j p \<longleftrightarrow> (\<exists>d<N. p = slot N j d \<and> (\<forall>d'\<le>d. K (slot N j d') \<noteq> e))"

definition keys_once :: "nat \<Rightarrow> 'k \<Rightarrow> (nat \<Rightarrow> 'k) \<Rightarrow> bool" where
  "keys_once N e K \<longleftrightarrow> (\<forall>i<N. \<forall>j<N. K i = K j \<longrightarrow> K i \<noteq> e \<longrightarrow> i = j)"

definition table_ok :: "nat \<Rightarrow> ('k \<Rightarrow> nat) \<Rightarrow> 'k \<Rightarrow> (nat \<Rightarrow> 'k) \<Rightarrow> bool" where
  "table_ok N home e K \<longleftrightarrow> keys_once N e K \<and> (\<forall>p<N. K p \<noteq> e \<longrightarrow> well_placed N home e K p)"

text \<open>
  The state inside the repair loop at slot \<open>j\<close>: a key may be misplaced, but then it lies in
  the run of occupied slots that starts at \<open>j\<close>, which the loop has still to visit.
\<close>

definition table_gap :: "nat \<Rightarrow> ('k \<Rightarrow> nat) \<Rightarrow> 'k \<Rightarrow> (nat \<Rightarrow> 'k) \<Rightarrow> nat \<Rightarrow> bool" where
  "table_gap N home e K j \<longleftrightarrow> keys_once N e K \<and> (\<exists>i<N. K i = e) \<and>
     (\<forall>p<N. K p \<noteq> e \<longrightarrow> well_placed N home e K p \<or> in_run N e K j p)"

definition occupied :: "nat \<Rightarrow> 'k \<Rightarrow> (nat \<Rightarrow> 'k) \<Rightarrow> nat set" where
  "occupied N e K = {p. p < N \<and> K p \<noteq> e}"

definition displacement :: "nat \<Rightarrow> ('k \<Rightarrow> nat) \<Rightarrow> 'k \<Rightarrow> (nat \<Rightarrow> 'k) \<Rightarrow> nat" where
  "displacement N home e K = (\<Sum>p\<in>occupied N e K. dist N (home (K p)) p)"

definition run_length :: "nat \<Rightarrow> 'k \<Rightarrow> (nat \<Rightarrow> 'k) \<Rightarrow> nat \<Rightarrow> nat" where
  "run_length N e K j = (LEAST d. K (slot N j d) = e)"

section \<open>Arithmetic of the ring\<close>

lemma slot_less: "0 < N \<Longrightarrow> slot N h d < N"
  by (simp add: slot_def)

lemma slot_0 [simp]: "h < N \<Longrightarrow> slot N h 0 = h"
  by (simp add: slot_def)

lemma slot_Suc: "slot N (Suc h mod N) d = slot N h (Suc d)"
  by (simp add: slot_def mod_simps)

lemma slot_slot: "slot N (slot N h d) d' = slot N h (d + d')"
  by (simp add: slot_def mod_simps add.assoc)

lemma slot_mod_Suc: "Suc (slot N h d) mod N = slot N h (Suc d)"
  by (simp add: slot_def mod_simps)

lemma slot_inj:
  assumes "h < N" "d < N" "d' < N" "slot N h d = slot N h d'"
  shows "d = d'"
  using assms by (auto simp: slot_def mod_if split: if_splits)

lemma slot_dist: "h < N \<Longrightarrow> p < N \<Longrightarrow> slot N h (dist N h p) = p"
  by (simp add: slot_def dist_def mod_simps)

lemma dist_less: "0 < N \<Longrightarrow> dist N h p < N"
  by (simp add: dist_def)

lemma dist_slot:
  assumes "h < N" "d < N" shows "dist N h (slot N h d) = d"
proof (rule slot_inj)
  show "slot N h (dist N h (slot N h d)) = slot N h d"
    using assms by (intro slot_dist slot_less) auto
qed (use assms dist_less in auto)

lemma occupied_finite [simp]: "finite (occupied N e K)"
  by (simp add: occupied_def)

lemma occupied_card_le: "card (occupied N e K) \<le> N"
proof -
  have "card (occupied N e K) \<le> card {..<N}" by (rule card_mono) (auto simp: occupied_def)
  then show ?thesis by simp
qed

lemma empty_slot_iff: "(\<exists>i<N. K i = e) \<longleftrightarrow> card (occupied N e K) < N"
proof
  assume "\<exists>i<N. K i = e"
  then obtain i where i: "i < N" "K i = e" by blast
  then have "card (occupied N e K) < card {..<N}"
    by (intro psubset_card_mono psubsetI) (auto simp: occupied_def)
  then show "card (occupied N e K) < N" by simp
next
  assume less: "card (occupied N e K) < N"
  show "\<exists>i<N. K i = e"
  proof (rule ccontr)
    assume "\<not> ?thesis"
    then have "occupied N e K = {..<N}" by (auto simp: occupied_def)
    with less show False by simp
  qed
qed

lemma occupied_fill: "i < N \<Longrightarrow> k \<noteq> e \<Longrightarrow> occupied N e (K(i := k)) = insert i (occupied N e K)"
  by (auto simp: occupied_def)

lemma occupied_clear: "occupied N e (K(i := e)) = occupied N e K - {i}"
  by (auto simp: occupied_def)

lemma well_placedI:
  assumes "d < N" "p = slot N (home (K p)) d" "\<And>d'. d' < d \<Longrightarrow> K (slot N (home (K p)) d') \<noteq> e"
  shows "well_placed N home e K p"
  using assms unfolding well_placed_def by blast

section \<open>The contract of the home function\<close>

locale probing =
  fixes N :: nat and home :: "'k \<Rightarrow> nat" and e :: 'k
  assumes N_pos: "0 < N" and home_less: "home k < N"
begin

text \<open>Every probe sequence meets an empty slot, if there is one.\<close>

lemma first_empty:
  assumes "\<exists>i<N. K i = e" "h < N"
  shows "\<exists>d<N. K (slot N h d) = e \<and> (\<forall>d'<d. K (slot N h d') \<noteq> e)"
proof -
  from assms obtain i where i: "i < N" "K i = e" by blast
  let ?P = "\<lambda>d. K (slot N h d) = e"
  have ex: "?P (dist N h i)" using i assms(2) by (simp add: slot_dist)
  let ?d = "LEAST d. ?P d"
  have "?P ?d" using ex by (rule LeastI)
  moreover have "?d \<le> dist N h i" using ex by (rule Least_le)
  then have "?d < N" using dist_less [OF N_pos] by (rule le_less_trans)
  moreover have "\<forall>d'<?d. \<not> ?P d'" using not_less_Least by blast
  ultimately show ?thesis by blast
qed

lemma insert_ok:
  assumes ok: "table_ok N home e K" and fresh: "\<forall>i<N. K i \<noteq> k" and k: "k \<noteq> e"
    and d: "d < N" "\<forall>d'<d. K (slot N (home k) d') \<noteq> e"
  shows "table_ok N home e (K(slot N (home k) d := k))"
proof -
  let ?q = "slot N (home k) d" let ?K = "K(?q := k)"
  have q: "?q < N" using N_pos by (rule slot_less)
  have "keys_once N e ?K" using ok fresh by (fastforce simp: table_ok_def keys_once_def)
  moreover have "well_placed N home e ?K p" if p: "p < N" "?K p \<noteq> e" for p
  proof (cases "p = ?q")
    case True
    show ?thesis
      by (rule well_placedI [OF d(1)]) (use True d(2) k in simp_all)
  next
    case False
    with p ok have "well_placed N home e K p" by (simp add: table_ok_def)
    with False k show ?thesis by (auto simp: well_placed_def)
  qed
  ultimately show ?thesis by (simp add: table_ok_def)
qed

text \<open>Emptying slot \<open>i\<close> misplaces only keys of the run behind it.\<close>

lemma clear_slot:
  assumes wp: "well_placed N home e K p" and p: "p \<noteq> i" "K p \<noteq> e" and i: "i < N"
  shows "well_placed N home e (K(i := e)) p \<or> in_run N e (K(i := e)) (Suc i mod N) p"
proof -
  let ?h = "home (K p)" let ?K = "K(i := e)"
  from wp obtain d where d: "d < N" "p = slot N ?h d" "\<forall>d'<d. K (slot N ?h d') \<noteq> e"
    by (auto simp: well_placed_def)
  have Kp: "?K p = K p" using p by simp
  show ?thesis
  proof (cases "\<exists>d0<d. slot N ?h d0 = i")
    case False
    then have "?K (slot N ?h d') \<noteq> e" if "d' < d" for d' using d(3) that by auto
    then have "well_placed N home e ?K p"
      using d(2) by (intro well_placedI [OF d(1)]) (simp_all only: Kp not_False_eq_True)
    then show ?thesis ..
  next
    case True
    then obtain d0 where d0: "d0 < d" "slot N ?h d0 = i" by blast
    let ?x = "d - Suc d0"
    have run: "slot N (Suc i mod N) y = slot N ?h (Suc (d0 + y))" for y
      by (simp add: slot_Suc slot_slot flip: d0(2))
    have "?K (slot N (Suc i mod N) y) \<noteq> e" if "y \<le> ?x" for y
    proof -
      have y: "Suc (d0 + y) \<le> d" using that d0(1) by simp
      have "slot N ?h (Suc (d0 + y)) \<noteq> slot N ?h d0"
        using slot_inj [OF home_less, of "Suc (d0 + y)" d0 "K p"] y d(1) d0(1) by auto
      moreover have "K (slot N ?h (Suc (d0 + y))) \<noteq> e"
        using y d(2,3) p(2) by (cases "Suc (d0 + y) = d") auto
      ultimately show ?thesis by (simp add: run d0(2))
    qed
    moreover have "p = slot N (Suc i mod N) ?x" using d(2) d0(1) by (simp add: run)
    moreover have "?x < N" using d(1) by simp
    ultimately have "in_run N e ?K (Suc i mod N) p" unfolding in_run_def by blast
    then show ?thesis ..
  qed
qed

lemma keys_once_clear: "keys_once N e K \<Longrightarrow> keys_once N e (K(i := e))"
  by (auto simp: keys_once_def)

lemma gap_start:
  assumes "table_ok N home e K" "i < N"
  shows "table_gap N home e (K(i := e)) (Suc i mod N)"
proof -
  have "well_placed N home e (K(i := e)) p \<or> in_run N e (K(i := e)) (Suc i mod N) p"
    if "p < N" "(K(i := e)) p \<noteq> e" for p
    using that assms by (intro clear_slot) (auto simp: table_ok_def split: if_splits)
  moreover have "keys_once N e (K(i := e))" using assms by (simp add: table_ok_def keys_once_clear)
  ultimately show ?thesis using assms(2) unfolding table_gap_def by fastforce
qed

lemma gap_stop:
  assumes "table_gap N home e K j" "j < N" "K j = e"
  shows "table_ok N home e K"
proof -
  have "\<not> in_run N e K j p" for p using assms(2,3) by (auto simp: in_run_def)
  with assms(1) show ?thesis by (simp add: table_gap_def table_ok_def)
qed

lemma in_run_next:
  assumes "in_run N e K j p" "p \<noteq> j" "j < N"
  shows "in_run N e (K(j := c)) (Suc j mod N) p"
proof -
  from assms(1) obtain d where d: "d < N" "p = slot N j d" "\<forall>d'\<le>d. K (slot N j d') \<noteq> e"
    by (auto simp: in_run_def)
  with assms obtain x where x: "d = Suc x" by (cases d) auto
  have "(K(j := c)) (slot N (Suc j mod N) y) \<noteq> e" if "y \<le> x" for y
  proof -
    have "slot N j (Suc y) \<noteq> j"
      using slot_inj [OF assms(3), of "Suc y" 0] that x d(1) assms(3) by auto
    then show ?thesis using d(3) that x by (simp add: slot_Suc)
  qed
  moreover have "p = slot N (Suc j mod N) x" using d(2) x by (simp add: slot_Suc)
  moreover have "x < N" using d(1) x by simp
  ultimately show ?thesis unfolding in_run_def by blast
qed

lemma in_run_fill: "in_run N e K j p \<Longrightarrow> k \<noteq> e \<Longrightarrow> in_run N e (K(q := k)) j p"
  by (auto simp: in_run_def)

lemma well_placed_fill:
  "well_placed N home e K p \<Longrightarrow> k \<noteq> e \<Longrightarrow> p \<noteq> q \<Longrightarrow> well_placed N home e (K(q := k)) p"
  by (auto simp: well_placed_def)

lemma keys_once_move:
  assumes once: "keys_once N e K" and j: "j < N" "K j \<noteq> e" and q: "(K(j := e)) q = e"
  shows "keys_once N e (K(j := e, q := K j))"
proof (cases "q = j")
  case True
  then show ?thesis using once by simp
next
  case False
  let ?K2 = "K(j := e, q := K j)"
  have old: "?K2 a = K a" "a \<noteq> j" "K a \<noteq> e" if "a \<noteq> q" "?K2 a \<noteq> e" for a
    using that by (auto split: if_splits)
  have uniq: "a < N \<Longrightarrow> b < N \<Longrightarrow> K a = K b \<Longrightarrow> K a \<noteq> e \<Longrightarrow> a = b" for a b
    using once unfolding keys_once_def by blast
  show ?thesis unfolding keys_once_def
  proof (intro allI impI)
    fix a b assume ab: "a < N" "b < N" "?K2 a = ?K2 b" "?K2 a \<noteq> e"
    show "a = b"
    proof (cases "a = q"; cases "b = q")
      assume a: "a = q" and b: "b \<noteq> q"
      have eb: "?K2 b \<noteq> e" using ab(3,4) by metis
      have "K b = K j" using ab(3) a old(1) [OF b eb] by (metis fun_upd_same)
      then have "b = j" using uniq [OF ab(2) j(1)] old(3) [OF b eb] by blast
      with old(2) [OF b eb] show ?thesis by blast
    next
      assume a: "a \<noteq> q" and b: "b = q"
      have "K a = K j" using ab(3) b old(1) [OF a ab(4)] by (metis fun_upd_same)
      then have "a = j" using uniq [OF ab(1) j(1)] old(3) [OF a ab(4)] by blast
      with old(2) [OF a ab(4)] show ?thesis by blast
    next
      assume a: "a \<noteq> q" and b: "b \<noteq> q"
      have eb: "?K2 b \<noteq> e" using ab(3,4) by metis
      have "K a = K b" using ab(3) old(1) [OF a ab(4)] old(1) [OF b eb] by metis
      then show ?thesis using uniq [OF ab(1,2)] old(3) [OF a ab(4)] by blast
    qed simp
  qed
qed

text \<open>One iteration of the repair loop: take the key out of slot \<open>j\<close> and insert it again.\<close>

lemma gap_step:
  assumes gap: "table_gap N home e K j" and j: "j < N" "K j \<noteq> e"
    and d: "d < N" "(K(j := e)) (slot N (home (K j)) d) = e"
      "\<forall>d'<d. (K(j := e)) (slot N (home (K j)) d') \<noteq> e"
  shows "table_gap N home e (K(j := e, slot N (home (K j)) d := K j)) (Suc j mod N)"
proof -
  let ?k = "K j" let ?q = "slot N (home ?k) d" let ?K1 = "K(j := e)" let ?K2 = "?K1(?q := ?k)"
  have q: "?q < N" using N_pos by (rule slot_less)
  have "keys_once N e ?K2"
    using gap j d(2) by (intro keys_once_move) (simp_all add: table_gap_def)
  moreover have "\<exists>i<N. ?K2 i = e"
  proof (cases "?q = j")
    case True
    then show ?thesis using gap j by (auto simp: table_gap_def)
  next
    case False
    then show ?thesis using j(1) by auto
  qed
  moreover have "well_placed N home e ?K2 p \<or> in_run N e ?K2 (Suc j mod N) p"
    if p: "p < N" "?K2 p \<noteq> e" for p
  proof (cases "p = ?q")
    case True
    have "?K2 (slot N (home ?k) d') \<noteq> e" if "d' < d" for d' using d(3) j(2) that by simp
    then have "well_placed N home e ?K2 p"
      by (intro well_placedI [OF d(1)]) (simp_all only: True fun_upd_same not_False_eq_True)
    then show ?thesis ..
  next
    case False
    with p(2) have pj: "p \<noteq> j" "K p \<noteq> e" by (auto split: if_splits)
    from gap p(1) pj(2) consider "well_placed N home e K p" | "in_run N e K j p"
      by (auto simp: table_gap_def)
    then have "well_placed N home e ?K1 p \<or> in_run N e ?K1 (Suc j mod N) p"
    proof cases
      case 1
      then show ?thesis by (rule clear_slot) (use pj j in auto)
    next
      case 2
      then show ?thesis using pj j by (simp add: in_run_next)
    qed
    then show ?thesis using well_placed_fill [OF _ j(2) False] in_run_fill [OF _ j(2)] by blast
  qed
  ultimately show ?thesis by (simp add: table_gap_def)
qed

section \<open>The repair loop ends\<close>

lemma run_length_less:
  assumes "\<exists>i<N. K i = e" "j < N" shows "run_length N e K j < N"
proof -
  from first_empty [OF assms] obtain d where "d < N" "K (slot N j d) = e" by blast
  then show ?thesis
    unfolding run_length_def using Least_le [of "\<lambda>d. K (slot N j d) = e" d] by linarith
qed

lemma run_length_Suc:
  assumes "\<exists>i<N. K i = e" "j < N" "K j \<noteq> e"
  shows "run_length N e K j = Suc (run_length N e K (Suc j mod N))"
proof -
  from first_empty [OF assms(1,2)] obtain d where "K (slot N j d) = e" by blast
  then have "(LEAST d. K (slot N j d) = e) = Suc (LEAST d. K (slot N j (Suc d)) = e)"
    using assms(2,3) by (intro Least_Suc) auto
  then show ?thesis by (simp add: run_length_def slot_Suc)
qed

lemma displacement_move:
  assumes "j < N" "K j \<noteq> e" "q < N" "q \<noteq> j" "K q = e"
  shows "displacement N home e (K(j := e, q := K j)) + dist N (home (K j)) j
       = displacement N home e K + dist N (home (K j)) q"
proof -
  let ?K2 = "K(j := e, q := K j)"
  let ?S = "occupied N e K - {j}"
  have q: "q \<notin> occupied N e K" and j: "j \<in> occupied N e K" using assms by (auto simp: occupied_def)
  have "occupied N e ?K2 = insert q ?S"
    using assms by (simp only: occupied_fill occupied_clear not_False_eq_True)
  then have "displacement N home e ?K2
      = dist N (home (K j)) q + (\<Sum>p\<in>?S. dist N (home (?K2 p)) p)"
    using q by (simp add: displacement_def)
  moreover have "(\<Sum>p\<in>?S. dist N (home (?K2 p)) p) = (\<Sum>p\<in>?S. dist N (home (K p)) p)"
    using q by (intro sum.cong) auto
  moreover have "displacement N home e K
      = dist N (home (K j)) j + (\<Sum>p\<in>?S. dist N (home (K p)) p)"
    unfolding displacement_def using j by (subst sum.remove [of _ j]) auto
  ultimately show ?thesis by simp
qed

text \<open>Each iteration moves a key nearer to its home, or leaves the table and shortens the run.\<close>

lemma repair_decreases:
  assumes gap: "table_gap N home e K j" and j: "j < N" "K j \<noteq> e"
    and d: "d < N" "(K(j := e)) (slot N (home (K j)) d) = e"
      "\<forall>d'<d. (K(j := e)) (slot N (home (K j)) d') \<noteq> e"
  shows "displacement N home e (K(j := e, slot N (home (K j)) d := K j)) * N
           + run_length N e (K(j := e, slot N (home (K j)) d := K j)) (Suc j mod N)
       < displacement N home e K * N + run_length N e K j"
proof -
  let ?q = "slot N (home (K j)) d" let ?K2 = "K(j := e, ?q := K j)"
  have ex: "\<exists>i<N. K i = e" using gap by (simp add: table_gap_def)
  have q: "?q < N" using N_pos by (rule slot_less)
  show ?thesis
  proof (cases "?q = j")
    case True
    then have "?K2 = K" by simp
    then show ?thesis using run_length_Suc [OF ex j] by simp
  next
    case False
    have "slot N (home (K j)) (dist N (home (K j)) j) = j"
      using home_less j(1) by (rule slot_dist)
    then have "\<not> dist N (home (K j)) j < d" using d(3) by (auto dest: spec)
    moreover have "dist N (home (K j)) j \<noteq> d"
      using False slot_dist [OF home_less j(1)] by metis
    ultimately have less: "dist N (home (K j)) ?q < dist N (home (K j)) j"
      using dist_slot [OF home_less d(1)] by simp
    have "K ?q = e" using d(2) False by simp
    from displacement_move [OF j q False this] less
    have "displacement N home e ?K2 < displacement N home e K" by linarith
    then have "Suc (displacement N home e ?K2) * N \<le> displacement N home e K * N"
      by (intro mult_le_mono1) simp
    moreover have "run_length N e ?K2 (Suc j mod N) < N"
    proof (rule run_length_less)
      show "\<exists>i<N. ?K2 i = e" using False j(1) by auto
    qed (simp add: N_pos)
    ultimately show ?thesis by simp
  qed
qed

end

end
