(* ===== verification/Keyed_Table.thy ===== *)
theory Keyed_Table
  imports Itch_Prelude
begin

text \<open>
  The contract of a table from keys to objects, shared by its two providers: the price level
  map of a book (\<open>FlatHashMap\<close>) and the order index of the engine (\<open>DirectOrderIndex\<close>).
  A client only inserts keys that are absent, finds and erases. \<open>content\<close> is what the table
  holds, \<open>fits k v\<close> says which entries the provider can hold, \<open>room\<close> when it can take one
  more.
\<close>

locale keyed_table =
  fixes ins :: "'m \<Rightarrow> 'k \<Rightarrow> nat \<Rightarrow> (bool \<times> 'm) exec"
    and look :: "'m \<Rightarrow> 'k \<Rightarrow> ptr exec"
    and del :: "'m \<Rightarrow> 'k \<Rightarrow> 'm exec"
    and content :: "'m \<Rightarrow> 'k \<Rightarrow> ptr"
    and ok :: "'m \<Rightarrow> bool"
    and fits :: "'k \<Rightarrow> nat \<Rightarrow> bool"
    and room :: "'m \<Rightarrow> bool"
  assumes look_content: "ok m \<Longrightarrow> look m k = Some (content m k)"
    and ins_fresh: "ok m \<Longrightarrow> fits k v \<Longrightarrow> content m k = None \<Longrightarrow> room m \<Longrightarrow>
      \<exists>m'. ins m k v = Some (True, m') \<and> ok m' \<and> content m' = (content m)(k \<mapsto> v)"
    and del_key: "ok m \<Longrightarrow> \<exists>m'. del m k = Some m' \<and> ok m' \<and> content m' = (content m)(k := None)"
begin

text \<open>Erasing a key that was just inserted gives back every lookup.\<close>

lemma ins_then_del:
  assumes "ok m" "fits k v" "content m k = None" "room m"
  shows "\<exists>m' m''. ins m k v = Some (True, m') \<and> del m' k = Some m'' \<and> (\<forall>k. look m'' k = look m k)"
proof -
  from ins_fresh [OF assms] obtain m' where m': "ins m k v = Some (True, m')" "ok m'"
    "content m' = (content m)(k \<mapsto> v)" by blast
  from del_key [OF m'(2), of k] obtain m'' where "del m' k = Some m''" "ok m''"
    "content m'' = (content m')(k := None)" by blast
  moreover have "(content m')(k := None) = content m" using m'(3) assms(3) by auto
  ultimately show ?thesis using m'(1) look_content assms(1) by metis
qed

text \<open>Erasing a list of keys removes exactly these.\<close>

lemma del_list:
  "ok m \<Longrightarrow> \<exists>m'. exec_list del m ks = Some m' \<and> ok m' \<and>
     content m' = (\<lambda>k. if k \<in> set ks then None else content m k)"
proof (induction ks arbitrary: m)
  case Nil
  then show ?case by simp
next
  case (Cons k ks)
  from del_key [OF Cons.prems, of k] obtain m1 where m1: "del m k = Some m1" "ok m1"
    "content m1 = (content m)(k := None)" by blast
  from Cons.IH [OF m1(2)] obtain m' where m': "exec_list del m1 ks = Some m'" "ok m'"
    "content m' = (\<lambda>k. if k \<in> set ks then None else content m1 k)" by blast
  have "content m' = (\<lambda>k'. if k' \<in> set (k # ks) then None else content m k')"
    using m'(3) m1(3) by (auto simp: fun_eq_iff)
  with m1(1) m' show ?case by simp
qed

end

end
