(* ===== verification/Flat_Hash_Map.thy ===== *)
theory Flat_Hash_Map
  imports Probing Keyed_Table
begin

text \<open>
  \<open>FlatHashMap<KeyT, ValueT, kCapacity, kEmpty>\<close> of \<open>include/OrderBook.hpp\<close>: linear probing
  over two arrays of \<open>kCapacity\<close> slots, with the key \<open>kEmpty\<close> marking a free slot and
  deletion by re-inserting the keys that follow. The template arguments \<open>kCapacity\<close> and
  \<open>kEmpty\<close> are the arguments \<open>c\<close> and \<open>e\<close>; values are pointers. Every index the code uses is
  masked with \<open>kCapacity - 1\<close>, so the arrays are functions of the slot number.

  The repair loop of \<open>erase\<close> has no bound in the code: it is a \<open>partial_function\<close>, and
  \<open>repair_ok\<close> proves that it ends. \<open>assert\<close> is compiled out of the default Release build,
  so a full table makes \<open>insert\<close> return \<open>false\<close> and do nothing.
\<close>

section \<open>State\<close>

record 'k FlatHashMap =
  fm_keys :: "nat \<Rightarrow> 'k"
  fm_values :: "nat \<Rightarrow> ptr"
  fm_size :: u64

definition FlatHashMap_init :: "'k::len word \<Rightarrow> 'k word FlatHashMap" where
  "FlatHashMap_init e = \<lparr>fm_keys = (\<lambda>_. e), fm_values = (\<lambda>_. None), fm_size = 0\<rparr>"

section \<open>Operations\<close>

definition fhm_hash :: "'k::len word \<Rightarrow> u64" where
  "fhm_hash k =
     (let x = ucast k;
          x = x XOR drop_bit 33 x;
          x = x * 0xff51afd7ed558ccd;
          x = x XOR drop_bit 33 x;
          x = x * 0xc4ceb9fe1a85ec53;
          x = x XOR drop_bit 33 x
      in x)"

text \<open>The three writes to a slot: taking an empty one, changing its value, emptying it.\<close>

definition fm_occupy :: "nat \<Rightarrow> 'k \<Rightarrow> ptr \<Rightarrow> 'k FlatHashMap \<Rightarrow> 'k FlatHashMap" where
  "fm_occupy i k v m = m\<lparr>fm_keys := (fm_keys m)(i := k),
                         fm_values := (fm_values m)(i := v),
                         fm_size := fm_size m + 1\<rparr>"

definition fm_overwrite :: "nat \<Rightarrow> ptr \<Rightarrow> 'k FlatHashMap \<Rightarrow> 'k FlatHashMap" where
  "fm_overwrite i v m = m\<lparr>fm_values := (fm_values m)(i := v)\<rparr>"

definition fm_vacate :: "'k::len word \<Rightarrow> nat \<Rightarrow> 'k word FlatHashMap \<Rightarrow> 'k word FlatHashMap" where
  "fm_vacate e i m = m\<lparr>fm_keys := (fm_keys m)(i := e),
                       fm_values := (fm_values m)(i := None),
                       fm_size := fm_size m - 1\<rparr>"

fun insert_probe ::
  "u64 \<Rightarrow> 'k::len word \<Rightarrow> nat \<Rightarrow> u64 \<Rightarrow> 'k word \<Rightarrow> ptr \<Rightarrow> 'k word FlatHashMap \<Rightarrow> bool \<times> 'k word FlatHashMap"
where
  "insert_probe c e 0 i k v m = (False, m)"
| "insert_probe c e (Suc n) i k v m =
     (if fm_keys m (unat i) = e
      then (True, fm_occupy (unat i) k v m)
      else if fm_keys m (unat i) = k
      then (False, fm_overwrite (unat i) v m)
      else insert_probe c e n ((i + 1) AND (c - 1)) k v m)"

definition fhm_insert ::
  "u64 \<Rightarrow> 'k::len word \<Rightarrow> 'k word FlatHashMap \<Rightarrow> 'k word \<Rightarrow> ptr \<Rightarrow> bool \<times> 'k word FlatHashMap" where
  "fhm_insert c e m k v = insert_probe c e (unat c) (fhm_hash k AND (c - 1)) k v m"

fun find_probe :: "u64 \<Rightarrow> 'k::len word \<Rightarrow> nat \<Rightarrow> u64 \<Rightarrow> 'k word \<Rightarrow> 'k word FlatHashMap \<Rightarrow> ptr" where
  "find_probe c e 0 i k m = None"
| "find_probe c e (Suc n) i k m =
     (if fm_keys m (unat i) = e then None
      else if fm_keys m (unat i) = k then fm_values m (unat i)
      else find_probe c e n ((i + 1) AND (c - 1)) k m)"

definition fhm_find :: "u64 \<Rightarrow> 'k::len word \<Rightarrow> 'k word FlatHashMap \<Rightarrow> 'k word \<Rightarrow> ptr" where
  "fhm_find c e m k = find_probe c e (unat c) (fhm_hash k AND (c - 1)) k m"

partial_function (option) repair ::
  "u64 \<Rightarrow> 'k::len word \<Rightarrow> u64 \<Rightarrow> 'k word FlatHashMap \<Rightarrow> 'k word FlatHashMap option" where
  "repair c e j m =
     (if fm_keys m (unat j) = e then Some m
      else repair c e ((j + 1) AND (c - 1))
             (snd (fhm_insert c e (fm_vacate e (unat j) m) (fm_keys m (unat j)) (fm_values m (unat j)))))"

fun erase_probe ::
  "u64 \<Rightarrow> 'k::len word \<Rightarrow> nat \<Rightarrow> u64 \<Rightarrow> 'k word \<Rightarrow> 'k word FlatHashMap \<Rightarrow> 'k word FlatHashMap exec" where
  "erase_probe c e 0 i k m = Some m"
| "erase_probe c e (Suc n) i k m =
     (if fm_keys m (unat i) = e then Some m
      else if fm_keys m (unat i) = k then repair c e ((i + 1) AND (c - 1)) (fm_vacate e (unat i) m)
      else erase_probe c e n ((i + 1) AND (c - 1)) k m)"

definition fhm_erase :: "u64 \<Rightarrow> 'k::len word \<Rightarrow> 'k word FlatHashMap \<Rightarrow> 'k word \<Rightarrow> 'k word FlatHashMap exec" where
  "fhm_erase c e m k = erase_probe c e (unat c) (fhm_hash k AND (c - 1)) k m"

definition fhm_clear :: "'k::len word \<Rightarrow> 'k word FlatHashMap \<Rightarrow> 'k word FlatHashMap" where
  "fhm_clear e m = \<lparr>fm_keys = (\<lambda>_. e), fm_values = (\<lambda>_. None), fm_size = 0\<rparr>"

definition fhm_for_each :: "u64 \<Rightarrow> 'k::len word \<Rightarrow> 'k word FlatHashMap \<Rightarrow> ('k word \<times> ptr) list" where
  "fhm_for_each c e m =
     map (\<lambda>i. (fm_keys m i, fm_values m i)) (filter (\<lambda>i. fm_keys m i \<noteq> e) [0..<unat c])"

text \<open>Unfolding a probe loop whose bound is a numeral.\<close>

lemma probe_numeral [simp]:
  "insert_probe c e (numeral w) i k v m =
     (if fm_keys m (unat i) = e
      then (True, fm_occupy (unat i) k v m)
      else if fm_keys m (unat i) = k
      then (False, fm_overwrite (unat i) v m)
      else insert_probe c e (pred_numeral w) ((i + 1) AND (c - 1)) k v m)"
  "find_probe c e (numeral w) i k m =
     (if fm_keys m (unat i) = e then None
      else if fm_keys m (unat i) = k then fm_values m (unat i)
      else find_probe c e (pred_numeral w) ((i + 1) AND (c - 1)) k m)"
  "erase_probe c e (numeral w) i k m =
     (if fm_keys m (unat i) = e then Some m
      else if fm_keys m (unat i) = k then repair c e ((i + 1) AND (c - 1)) (fm_vacate e (unat i) m)
      else erase_probe c e (pred_numeral w) ((i + 1) AND (c - 1)) k m)"
  by (simp_all add: numeral_eq_Suc)

section \<open>Representation invariant and entries\<close>

definition fhm_home :: "u64 \<Rightarrow> 'k::len word \<Rightarrow> nat" where
  "fhm_home c k = unat (fhm_hash k AND (c - 1))"

definition fhm_inv :: "u64 \<Rightarrow> 'k::len word \<Rightarrow> 'k word FlatHashMap \<Rightarrow> bool" where
  "fhm_inv c e m \<longleftrightarrow> pow2_size c \<and> table_ok (unat c) (fhm_home c) e (fm_keys m) \<and>
     fm_size m = of_nat (card (occupied (unat c) e (fm_keys m)))"

definition fhm_entries :: "u64 \<Rightarrow> 'k::len word \<Rightarrow> 'k word FlatHashMap \<Rightarrow> ('k word \<times> ptr) set" where
  "fhm_entries c e m = (\<lambda>i. (fm_keys m i, fm_values m i)) ` occupied (unat c) e (fm_keys m)"

definition fhm_room :: "u64 \<Rightarrow> 'k::len word \<Rightarrow> 'k word FlatHashMap \<Rightarrow> bool" where
  "fhm_room c e m \<longleftrightarrow> card (occupied (unat c) e (fm_keys m)) < unat c"

lemma fhm_probing: "pow2_size c \<Longrightarrow> probing (unat c) (fhm_home c)"
  by unfold_locales (simp_all add: pow2_size_pos fhm_home_def unat_and_mask_less)

lemma next_index:
  assumes "pow2_size c" shows "unat ((i + 1) AND (c - 1)) = Suc (unat i) mod unat c"
proof -
  from pow2_size_unat [OF assms] obtain k where k: "k < 64" "unat c = 2 ^ k" by blast
  have "(2::nat) ^ k dvd 2 ^ 64" using k(1) by (intro le_imp_power_dvd) simp
  then have "unat c dvd 2 ^ LENGTH(64)" using k(2) by simp
  then show ?thesis
    by (simp only: unat_and_mask [OF assms] unat_word_ariths mod_mod_cancel unsigned_1) simp
qed

text \<open>The slot the probe loops look at after \<open>d\<close> steps.\<close>

lemma insert_probe_empty:
  assumes "pow2_size c"
  shows "d < n \<Longrightarrow> unat i < unat c \<Longrightarrow> fm_keys m (slot (unat c) (unat i) d) = e \<Longrightarrow>
    \<forall>d'<d. fm_keys m (slot (unat c) (unat i) d') \<notin> {e, k} \<Longrightarrow>
    insert_probe c e n i k v m =
      (True, fm_occupy (slot (unat c) (unat i) d) k v m)"
proof (induction n arbitrary: i d)
  case 0
  then show ?case by simp
next
  case (Suc n)
  show ?case
  proof (cases d)
    case 0
    with Suc.prems show ?thesis by (simp add:)
  next
    case (Suc d1)
    have "fm_keys m (unat i) \<notin> {e, k}" using Suc.prems(2,4) Suc by (auto dest: spec [of _ 0])
    moreover have "insert_probe c e n ((i + 1) AND (c - 1)) k v m =
      (True, fm_occupy (slot (unat c) (unat i) d) k v m)"
      using Suc.IH [of d1 "(i + 1) AND (c - 1)"] Suc.prems Suc unat_and_mask_less [OF assms]
      by (simp add: next_index [OF assms] slot_Suc)
    ultimately show ?thesis by simp
  qed
qed

lemma insert_probe_found:
  assumes "pow2_size c"
  shows "d < n \<Longrightarrow> unat i < unat c \<Longrightarrow> fm_keys m (slot (unat c) (unat i) d) = k \<Longrightarrow> k \<noteq> e \<Longrightarrow>
    \<forall>d'<d. fm_keys m (slot (unat c) (unat i) d') \<notin> {e, k} \<Longrightarrow>
    insert_probe c e n i k v m =
      (False, fm_overwrite (slot (unat c) (unat i) d) v m)"
proof (induction n arbitrary: i d)
  case 0
  then show ?case by simp
next
  case (Suc n)
  show ?case
  proof (cases d)
    case 0
    with Suc.prems show ?thesis by (simp add:)
  next
    case (Suc d1)
    have "fm_keys m (unat i) \<notin> {e, k}" using Suc.prems(2,5) Suc by (auto dest: spec [of _ 0])
    moreover have "insert_probe c e n ((i + 1) AND (c - 1)) k v m =
      (False, fm_overwrite (slot (unat c) (unat i) d) v m)"
      using Suc.IH [of d1 "(i + 1) AND (c - 1)"] Suc.prems Suc unat_and_mask_less [OF assms]
      by (simp add: next_index [OF assms] slot_Suc)
    ultimately show ?thesis by simp
  qed
qed

lemma insert_probe_full:
  assumes "pow2_size c" "\<forall>p<unat c. fm_keys m p \<notin> {e, k}"
  shows "unat i < unat c \<Longrightarrow> insert_probe c e n i k v m = (False, m)"
  using assms(2) unat_and_mask_less [OF assms(1)] by (induction n arbitrary: i) auto

lemma find_probe_found:
  assumes "pow2_size c"
  shows "d < n \<Longrightarrow> unat i < unat c \<Longrightarrow> fm_keys m (slot (unat c) (unat i) d) = k \<Longrightarrow> k \<noteq> e \<Longrightarrow>
    \<forall>d'<d. fm_keys m (slot (unat c) (unat i) d') \<notin> {e, k} \<Longrightarrow>
    find_probe c e n i k m = fm_values m (slot (unat c) (unat i) d)"
proof (induction n arbitrary: i d)
  case 0
  then show ?case by simp
next
  case (Suc n)
  show ?case
  proof (cases d)
    case 0
    with Suc.prems show ?thesis by simp
  next
    case (Suc d1)
    have "fm_keys m (unat i) \<notin> {e, k}" using Suc.prems(2,5) Suc by (auto dest: spec [of _ 0])
    moreover have "find_probe c e n ((i + 1) AND (c - 1)) k m
        = fm_values m (slot (unat c) (unat i) d)"
      using Suc.IH [of d1 "(i + 1) AND (c - 1)"] Suc.prems Suc unat_and_mask_less [OF assms]
      by (simp add: next_index [OF assms] slot_Suc)
    ultimately show ?thesis by simp
  qed
qed

lemma find_probe_absent:
  assumes "pow2_size c" "\<forall>p<unat c. k \<noteq> e \<longrightarrow> fm_keys m p \<noteq> k"
  shows "unat i < unat c \<Longrightarrow> find_probe c e n i k m = None"
  using assms(2) unat_and_mask_less [OF assms(1)] by (induction n arbitrary: i) auto

lemma erase_probe_found:
  assumes "pow2_size c"
  shows "d < n \<Longrightarrow> unat i < unat c \<Longrightarrow> fm_keys m (slot (unat c) (unat i) d) = k \<Longrightarrow> k \<noteq> e \<Longrightarrow>
    \<forall>d'<d. fm_keys m (slot (unat c) (unat i) d') \<notin> {e, k} \<Longrightarrow>
    \<exists>w. unat w = slot (unat c) (unat i) d \<and>
      erase_probe c e n i k m = repair c e ((w + 1) AND (c - 1)) (fm_vacate e (unat w) m)"
proof (induction n arbitrary: i d)
  case 0
  then show ?case by simp
next
  case (Suc n)
  show ?case
  proof (cases d)
    case 0
    with Suc.prems show ?thesis by auto
  next
    case (Suc d1)
    have "fm_keys m (unat i) \<notin> {e, k}" using Suc.prems(2,5) Suc by (auto dest: spec [of _ 0])
    moreover have "\<exists>w. unat w = slot (unat c) (unat i) d \<and> erase_probe c e n ((i + 1) AND (c - 1)) k m
        = repair c e ((w + 1) AND (c - 1)) (fm_vacate e (unat w) m)"
      using Suc.IH [of d1 "(i + 1) AND (c - 1)"] Suc.prems Suc unat_and_mask_less [OF assms]
      by (simp add: next_index [OF assms] slot_Suc)
    ultimately show ?thesis by simp
  qed
qed

lemma erase_probe_absent:
  assumes "pow2_size c" "\<forall>p<unat c. k \<noteq> e \<longrightarrow> fm_keys m p \<noteq> k"
  shows "unat i < unat c \<Longrightarrow> erase_probe c e n i k m = Some m"
  using assms(2) unat_and_mask_less [OF assms(1)] by (induction n arbitrary: i) auto

section \<open>Lookup reads the entries\<close>

lemma fm_occupy_sel [simp]:
  "fm_keys (fm_occupy i k v m) = (fm_keys m)(i := k)"
  "fm_values (fm_occupy i k v m) = (fm_values m)(i := v)"
  "fm_size (fm_occupy i k v m) = fm_size m + 1"
  by (simp_all add: fm_occupy_def)

lemma fm_overwrite_sel [simp]:
  "fm_keys (fm_overwrite i v m) = fm_keys m"
  "fm_values (fm_overwrite i v m) = (fm_values m)(i := v)"
  "fm_size (fm_overwrite i v m) = fm_size m"
  by (simp_all add: fm_overwrite_def)

lemma fm_vacate_sel [simp]:
  "fm_keys (fm_vacate e i m) = (fm_keys m)(i := e)"
  "fm_values (fm_vacate e i m) = (fm_values m)(i := None)"
  "fm_size (fm_vacate e i m) = fm_size m - 1"
  by (simp_all add: fm_vacate_def)

lemma fhm_inv_pow2: "fhm_inv c e m \<Longrightarrow> pow2_size c"
  by (simp add: fhm_inv_def)

lemma fhm_home_less: "pow2_size c \<Longrightarrow> fhm_home c k < unat c"
  by (simp add: fhm_home_def unat_and_mask_less)

lemma in_entries:
  "(k, v) \<in> fhm_entries c e m \<longleftrightarrow>
     (\<exists>p<unat c. fm_keys m p = k \<and> k \<noteq> e \<and> fm_values m p = v)"
  by (auto simp: fhm_entries_def occupied_def)

lemma present_probe:
  assumes inv: "fhm_inv c e m" and p: "p < unat c" "fm_keys m p = k" "k \<noteq> e"
  shows "\<exists>d<unat c. p = slot (unat c) (fhm_home c k) d \<and>
           (\<forall>d'<d. fm_keys m (slot (unat c) (fhm_home c k) d') \<notin> {e, k})"
proof -
  have pow: "pow2_size c" and ok: "table_ok (unat c) (fhm_home c) e (fm_keys m)"
    using inv by (simp_all add: fhm_inv_def)
  from ok p have "well_placed (unat c) (fhm_home c) e (fm_keys m) p" by (simp add: table_ok_def)
  then obtain d where d: "d < unat c" "p = slot (unat c) (fhm_home c k) d"
    "\<forall>d'<d. fm_keys m (slot (unat c) (fhm_home c k) d') \<noteq> e"
    by (auto simp: well_placed_def p(2))
  have "fm_keys m (slot (unat c) (fhm_home c k) d') \<noteq> k" if "d' < d" for d'
  proof
    assume eq: "fm_keys m (slot (unat c) (fhm_home c k) d') = k"
    have "slot (unat c) (fhm_home c k) d' = p"
      using ok p eq slot_less [OF pow2_size_pos [OF pow]] by (auto simp: table_ok_def keys_once_def)
    then have "d' = d"
      using slot_inj [OF fhm_home_less [OF pow]] d(1,2) that by (metis less_trans)
    with that show False by simp
  qed
  with d show ?thesis by blast
qed

lemma find_entry:
  assumes "fhm_inv c e m" "(k, v) \<in> fhm_entries c e m"
  shows "fhm_find c e m k = v"
proof -
  from assms(2) obtain p where p: "p < unat c" "fm_keys m p = k" "k \<noteq> e" "fm_values m p = v"
    by (auto simp: in_entries)
  from present_probe [OF assms(1) p(1-3)] obtain d where d: "d < unat c"
    "p = slot (unat c) (fhm_home c k) d"
    "\<forall>d'<d. fm_keys m (slot (unat c) (fhm_home c k) d') \<notin> {e, k}" by blast
  have pow: "pow2_size c" using assms(1) by (rule fhm_inv_pow2)
  from find_probe_found [OF pow d(1), of "fhm_hash k AND (c - 1)" m k e] d p
  show ?thesis by (simp add: fhm_find_def fhm_home_def unat_and_mask_less [OF pow])
qed

lemma find_no_entry:
  assumes "pow2_size c" "\<forall>v. (k, v) \<notin> fhm_entries c e m"
  shows "fhm_find c e m k = None"
  unfolding fhm_find_def using assms
  by (intro find_probe_absent unat_and_mask_less) (auto simp: in_entries)

lemma find_empty_key:
  assumes "pow2_size c" shows "fhm_find c e m e = None"
  using assms by (intro find_no_entry) (auto simp: in_entries)

lemma find_eq_entries:
  assumes "fhm_inv c e m" "fhm_inv c e m'" "fhm_entries c e m' = fhm_entries c e m"
  shows "fhm_find c e m' k = fhm_find c e m k"
proof (cases "\<exists>v. (k, v) \<in> fhm_entries c e m")
  case True
  then show ?thesis using find_entry assms by metis
next
  case False
  then show ?thesis using find_no_entry fhm_inv_pow2 assms by metis
qed

lemma find_Some_entry:
  "fhm_inv c e m \<Longrightarrow> fhm_find c e m k = Some l \<Longrightarrow> (k, Some l) \<in> fhm_entries c e m"
  using find_entry find_no_entry fhm_inv_pow2 by (metis option.distinct(1))

section \<open>Insertion\<close>

lemma fhm_inv_init: "pow2_size c \<Longrightarrow> fhm_inv c e (FlatHashMap_init e)"
  by (simp add: fhm_inv_def FlatHashMap_init_def table_ok_def keys_once_def occupied_def)

lemma fhm_entries_init [simp]: "fhm_entries c e (FlatHashMap_init e) = {}"
  by (simp add: fhm_entries_def FlatHashMap_init_def occupied_def)

lemma fhm_clear_init: "fhm_clear e m = FlatHashMap_init e"
  by (simp add: fhm_clear_def FlatHashMap_init_def)

lemma entries_occupy:
  "i < unat c \<Longrightarrow> fm_keys m i = e \<Longrightarrow> k \<noteq> e \<Longrightarrow>
   fhm_entries c e (fm_occupy i k v m) = insert (k, v) (fhm_entries c e m)"
  by (auto simp: fhm_entries_def occupied_fill occupied_def image_iff)

lemma occupied_occupy:
  assumes "i < unat c" "fm_keys m i = e" "k \<noteq> e"
  shows "card (occupied (unat c) e (fm_keys (fm_occupy i k v m)))
       = Suc (card (occupied (unat c) e (fm_keys m)))"
proof -
  have "i \<notin> occupied (unat c) e (fm_keys m)" using assms by (simp add: occupied_def)
  then show ?thesis using assms by (simp add: occupied_fill)
qed

lemma insert_fresh:
  assumes inv: "fhm_inv c e m" and k: "k \<noteq> e" "\<forall>v. (k, v) \<notin> fhm_entries c e m"
    and room: "fhm_room c e m"
  shows "\<exists>i<unat c. fm_keys m i = e \<and> fhm_insert c e m k v = (True, fm_occupy i k v m)
       \<and> fhm_inv c e (fm_occupy i k v m)"
proof -
  have pow: "pow2_size c" and ok: "table_ok (unat c) (fhm_home c) e (fm_keys m)"
    using inv by (simp_all add: fhm_inv_def)
  note prb = fhm_probing [OF pow]
  have "\<exists>i<unat c. fm_keys m i = e" using room by (simp add: fhm_room_def empty_slot_iff)
  from probing.first_empty [OF prb this fhm_home_less [OF pow, of k]] obtain d
    where d: "d < unat c" "fm_keys m (slot (unat c) (fhm_home c k) d) = e"
      "\<forall>d'<d. fm_keys m (slot (unat c) (fhm_home c k) d') \<noteq> e" by blast
  let ?i = "slot (unat c) (fhm_home c k) d"
  have i: "?i < unat c" using pow by (intro slot_less pow2_size_pos)
  have absent: "\<forall>p<unat c. fm_keys m p \<noteq> k" using k by (auto simp: in_entries)
  have "\<forall>d'<d. fm_keys m (slot (unat c) (fhm_home c k) d') \<notin> {e, k}"
    using d(3) absent slot_less [OF pow2_size_pos [OF pow]] by simp
  from insert_probe_empty [OF pow d(1), of "fhm_hash k AND (c - 1)" m e k v] d(2) this
  have ins: "fhm_insert c e m k v = (True, fm_occupy ?i k v m)"
    by (simp add: fhm_insert_def fhm_home_def unat_and_mask_less [OF pow])
  have "table_ok (unat c) (fhm_home c) e (fm_keys (fm_occupy ?i k v m))"
    using probing.insert_ok [OF prb ok absent k(1) d(1,3)] by simp
  then have "fhm_inv c e (fm_occupy ?i k v m)"
    using inv occupied_occupy [OF i d(2) k(1), of v]
    by (simp add: fhm_inv_def add.commute del: fm_occupy_sel(1))
  with i d(2) ins show ?thesis by blast
qed

lemma insert_present:
  assumes inv: "fhm_inv c e m" and p: "p < unat c" "fm_keys m p = k" "k \<noteq> e"
  shows "fhm_insert c e m k v = (False, fm_overwrite p v m)"
proof -
  have pow: "pow2_size c" using inv by (rule fhm_inv_pow2)
  from present_probe [OF inv p] obtain d where d: "d < unat c" "p = slot (unat c) (fhm_home c k) d"
    "\<forall>d'<d. fm_keys m (slot (unat c) (fhm_home c k) d') \<notin> {e, k}" by blast
  from insert_probe_found [OF pow d(1), of "fhm_hash k AND (c - 1)" m k e v] d p
  show ?thesis by (simp add: fhm_insert_def fhm_home_def unat_and_mask_less [OF pow])
qed

lemma insert_full:
  assumes "pow2_size c" "\<not> fhm_room c e m" "\<forall>v. (k, v) \<notin> fhm_entries c e m"
  shows "fhm_insert c e m k v = (False, m)"
proof -
  have "\<forall>p<unat c. fm_keys m p \<notin> {e, k}"
    using assms(2,3) empty_slot_iff [of "unat c" "fm_keys m" e] by (auto simp: fhm_room_def in_entries)
  then show ?thesis
    unfolding fhm_insert_def using assms(1) by (intro insert_probe_full unat_and_mask_less)
qed

section \<open>Deletion\<close>

lemma entries_vacate:
  "i < unat c \<Longrightarrow> fhm_entries c e (fm_vacate e i m) =
     (\<lambda>p. (fm_keys m p, fm_values m p)) ` (occupied (unat c) e (fm_keys m) - {i})"
  by (auto simp: fhm_entries_def occupied_clear image_iff)

lemma entries_split:
  "i < unat c \<Longrightarrow> fm_keys m i \<noteq> e \<Longrightarrow> fhm_entries c e m =
     insert (fm_keys m i, fm_values m i) (fhm_entries c e (fm_vacate e i m))"
  by (auto simp: entries_vacate fhm_entries_def occupied_def image_iff)

lemma card_vacate:
  assumes "i < unat c" "fm_keys m i \<noteq> e"
  shows "card (occupied (unat c) e (fm_keys m)) =
     Suc (card (occupied (unat c) e (fm_keys (fm_vacate e i m))))"
proof -
  have "i \<in> occupied (unat c) e (fm_keys m)" using assms by (simp add: occupied_def)
  then show ?thesis by (simp add: occupied_clear card.remove del: card_Diff_insert)
qed

text \<open>The new slot of a key that the repair loop took out of slot \<open>j\<close>.\<close>

lemma reinsert:
  assumes pow: "pow2_size c" and gap: "table_gap (unat c) (fhm_home c) e (fm_keys m) i"
    and i: "i < unat c" "fm_keys m i \<noteq> e"
  shows "\<exists>d<unat c. fm_keys (fm_vacate e i m) (slot (unat c) (fhm_home c (fm_keys m i)) d) = e
     \<and> (\<forall>d'<d. fm_keys (fm_vacate e i m) (slot (unat c) (fhm_home c (fm_keys m i)) d') \<noteq> e)
     \<and> fhm_insert c e (fm_vacate e i m) (fm_keys m i) (fm_values m i)
       = (True, fm_occupy (slot (unat c) (fhm_home c (fm_keys m i)) d) (fm_keys m i) (fm_values m i)
                  (fm_vacate e i m))"
proof -
  let ?k = "fm_keys m i" let ?m1 = "fm_vacate e i m"
  have "\<exists>p<unat c. fm_keys ?m1 p = e" using i(1) by auto
  from probing.first_empty [OF fhm_probing [OF pow] this fhm_home_less [OF pow, of ?k]] obtain d
    where d: "d < unat c" "fm_keys ?m1 (slot (unat c) (fhm_home c ?k) d) = e"
      "\<forall>d'<d. fm_keys ?m1 (slot (unat c) (fhm_home c ?k) d') \<noteq> e" by blast
  have "fm_keys ?m1 p \<noteq> ?k" if "p < unat c" for p
    using gap i that by (auto simp: table_gap_def keys_once_def)
  then have "\<forall>d'<d. fm_keys ?m1 (slot (unat c) (fhm_home c ?k) d') \<notin> {e, ?k}"
    using d(3) slot_less [OF pow2_size_pos [OF pow]] by simp
  from insert_probe_empty [OF pow d(1), of "fhm_hash ?k AND (c - 1)" ?m1 e ?k "fm_values m i"] d(2) this
  have "fhm_insert c e ?m1 ?k (fm_values m i)
      = (True, fm_occupy (slot (unat c) (fhm_home c ?k) d) ?k (fm_values m i) ?m1)"
    by (simp add: fhm_insert_def fhm_home_def unat_and_mask_less [OF pow] del: fm_vacate_sel)
  with d show ?thesis by blast
qed

definition repair_measure :: "u64 \<Rightarrow> 'k::len word \<Rightarrow> nat \<Rightarrow> 'k word FlatHashMap \<Rightarrow> nat" where
  "repair_measure c e i m =
     displacement (unat c) (fhm_home c) e (fm_keys m) * unat c + run_length (unat c) e (fm_keys m) i"

lemma repair_ok:
  assumes pow: "pow2_size c"
  shows "unat j < unat c \<Longrightarrow> table_gap (unat c) (fhm_home c) e (fm_keys m) (unat j) \<Longrightarrow>
    fm_size m = of_nat (card (occupied (unat c) e (fm_keys m))) \<Longrightarrow>
    \<exists>m'. repair c e j m = Some m' \<and> fhm_inv c e m' \<and> fhm_entries c e m' = fhm_entries c e m"
proof (induction "repair_measure c e (unat j) m" arbitrary: j m rule: less_induct)
  case less
  note prb = fhm_probing [OF pow]
  show ?case
  proof (cases "fm_keys m (unat j) = e")
    case True
    with less.prems have "fhm_inv c e m"
      by (simp add: fhm_inv_def pow probing.gap_stop [OF prb])
    with True show ?thesis by (subst repair.simps) simp
  next
    case False
    let ?i = "unat j" let ?j' = "(j + 1) AND (c - 1)" let ?m1 = "fm_vacate e ?i m"
    let ?k = "fm_keys m ?i" let ?q = "\<lambda>d. slot (unat c) (fhm_home c ?k) d"
    from reinsert [OF pow less.prems(2,1) False] obtain d where d: "d < unat c"
      "fm_keys ?m1 (?q d) = e" "\<forall>d'<d. fm_keys ?m1 (?q d') \<noteq> e"
      "fhm_insert c e ?m1 ?k (fm_values m ?i) = (True, fm_occupy (?q d) ?k (fm_values m ?i) ?m1)"
      by blast
    let ?m2 = "fm_occupy (?q d) ?k (fm_values m ?i) ?m1"
    have q: "?q d < unat c" using pow by (intro slot_less pow2_size_pos)
    have keys: "fm_keys ?m2 = (fm_keys m)(?i := e, ?q d := ?k)" by simp
    have j': "unat ?j' = Suc ?i mod unat c" by (rule next_index [OF pow])
    have gap: "table_gap (unat c) (fhm_home c) e (fm_keys ?m2) (unat ?j')"
      unfolding keys j' using d by (intro probing.gap_step [OF prb less.prems(2,1) False]) simp_all
    have "repair_measure c e (unat ?j') ?m2 < repair_measure c e ?i m"
      unfolding repair_measure_def keys j'
      using d by (intro probing.repair_decreases [OF prb less.prems(2,1) False]) simp_all
    moreover have "fm_size ?m2 = of_nat (card (occupied (unat c) e (fm_keys ?m2)))"
      using less.prems(3) card_vacate [of ?i c m e, OF less.prems(1) False]
        occupied_occupy [OF q d(2) False, of "fm_values m ?i"]
      by (simp del: fm_occupy_sel(1) fm_vacate_sel(1))
    moreover have "fhm_entries c e ?m2 = fhm_entries c e m"
      using entries_occupy [OF q d(2) False] entries_split [of ?i c m e, OF less.prems(1) False] by simp
    moreover have "repair c e j m = repair c e ?j' ?m2"
      using False d(4) by (subst repair.simps) simp
    ultimately show ?thesis
      using less.hyps [of ?j' ?m2] gap unat_and_mask_less [OF pow] by simp
  qed
qed

lemma erase_present:
  assumes inv: "fhm_inv c e m" and kv: "(k, v) \<in> fhm_entries c e m"
  shows "\<exists>m'. fhm_erase c e m k = Some m' \<and> fhm_inv c e m'
       \<and> fhm_entries c e m' = fhm_entries c e m - {(k, v)}"
proof -
  have pow: "pow2_size c" using inv by (rule fhm_inv_pow2)
  from kv obtain p where p: "p < unat c" "fm_keys m p = k" "k \<noteq> e" "fm_values m p = v"
    by (auto simp: in_entries)
  from present_probe [OF inv p(1-3)] obtain d where d: "d < unat c"
    "p = slot (unat c) (fhm_home c k) d"
    "\<forall>d'<d. fm_keys m (slot (unat c) (fhm_home c k) d') \<notin> {e, k}" by blast
  from erase_probe_found [OF pow d(1), of "fhm_hash k AND (c - 1)" m k e] d p obtain w where
    w: "unat w = p" "fhm_erase c e m k = repair c e ((w + 1) AND (c - 1)) (fm_vacate e p m)"
    by (auto simp: fhm_erase_def fhm_home_def unat_and_mask_less [OF pow])
  let ?m1 = "fm_vacate e p m" let ?j = "(w + 1) AND (c - 1)"
  have "table_gap (unat c) (fhm_home c) e (fm_keys ?m1) (unat ?j)"
    using probing.gap_start [OF fhm_probing [OF pow], of e "fm_keys m" p] inv p(1)
    by (simp add: next_index [OF pow] w(1) fhm_inv_def)
  moreover have "fm_size ?m1 = of_nat (card (occupied (unat c) e (fm_keys ?m1)))"
    using inv card_vacate [of p c m e] p by (simp add: fhm_inv_def del: fm_vacate_sel(1))
  moreover have "fhm_entries c e ?m1 = fhm_entries c e m - {(k, v)}"
  proof -
    have "fm_keys m x \<noteq> k" if "x \<in> occupied (unat c) e (fm_keys m) - {p}" for x
      using inv that p by (auto simp: fhm_inv_def table_ok_def keys_once_def occupied_def)
    then have "(k, v) \<notin> fhm_entries c e ?m1" using p(1) by (force simp: entries_vacate)
    then show ?thesis using entries_split [of p c m e] p by auto
  qed
  ultimately show ?thesis using repair_ok [OF pow unat_and_mask_less [OF pow]] w(2) by metis
qed

lemma erase_absent:
  assumes "pow2_size c" "\<forall>v. (k, v) \<notin> fhm_entries c e m"
  shows "fhm_erase c e m k = Some m"
  unfolding fhm_erase_def using assms
  by (intro erase_probe_absent unat_and_mask_less) (auto simp: in_entries)

lemma for_each_entries: "set (fhm_for_each c e m) = fhm_entries c e m"
  by (auto simp: fhm_for_each_def fhm_entries_def occupied_def)

section \<open>The map is a keyed table\<close>

text \<open>A map of non-null pointers, as the level maps of a book are.\<close>

definition fhm_ok :: "u64 \<Rightarrow> 'k::len word \<Rightarrow> 'k word FlatHashMap \<Rightarrow> bool" where
  "fhm_ok c e m \<longleftrightarrow> fhm_inv c e m \<and> (\<forall>(k, v) \<in> fhm_entries c e m. v \<noteq> None)"

lemma fhm_okI: "fhm_inv c e m \<Longrightarrow> \<forall>k. (k, None) \<notin> fhm_entries c e m \<Longrightarrow> fhm_ok c e m"
  unfolding fhm_ok_def by (intro conjI ballI) (auto intro: ccontr)

lemma fhm_ok_None: "fhm_ok c e m \<Longrightarrow> (k, None) \<notin> fhm_entries c e m"
  by (auto simp: fhm_ok_def)

lemma fhm_ok_find:
  assumes "fhm_ok c e m" shows "fhm_find c e m k = Some v \<longleftrightarrow> (k, Some v) \<in> fhm_entries c e m"
  using assms find_entry [of c e m k "Some v"] find_Some_entry [of c e m k v] by (auto simp: fhm_ok_def)

lemma fhm_ok_absent:
  assumes "fhm_ok c e m" shows "fhm_find c e m k = None \<longleftrightarrow> (\<forall>v. (k, v) \<notin> fhm_entries c e m)"
proof
  assume none: "fhm_find c e m k = None"
  show "\<forall>v. (k, v) \<notin> fhm_entries c e m"
  proof (intro allI notI)
    fix v assume "(k, v) \<in> fhm_entries c e m"
    then have "v = None" using none find_entry [of c e m k v] assms by (simp add: fhm_ok_def)
    with \<open>(k, v) \<in> fhm_entries c e m\<close> fhm_ok_None [OF assms] show False by blast
  qed
next
  assume "\<forall>v. (k, v) \<notin> fhm_entries c e m"
  with assms show "fhm_find c e m k = None"
    by (intro find_no_entry) (auto simp: fhm_ok_def fhm_inv_def)
qed

lemma fhm_find_ext:
  assumes "fhm_ok c e m" "fhm_ok c e m'"
    and "\<And>k v. (k, Some v) \<in> fhm_entries c e m' \<longleftrightarrow> f k = Some v"
  shows "fhm_find c e m' = f"
proof
  fix k show "fhm_find c e m' k = f k"
    using fhm_ok_find [OF assms(2), of k] assms(3) [of k]
    by (cases "f k"; cases "fhm_find c e m' k") auto
qed

interpretation fhm: keyed_table "\<lambda>m k v. Some (fhm_insert c e m k (Some v))"
  "\<lambda>m k. Some (fhm_find c e m k)" "fhm_erase c e" "fhm_find c e" "fhm_ok c e" "\<lambda>k v. k \<noteq> e" "fhm_room c e"
proof unfold_locales
  fix m :: "'a word FlatHashMap" and k v
  assume ok: "fhm_ok c e m"
  then have inv: "fhm_inv c e m" by (simp add: fhm_ok_def)
  show "Some (fhm_find c e m k) = Some (fhm_find c e m k)" ..
  show "\<exists>m'. Some (fhm_insert c e m k (Some v)) = Some (True, m') \<and> fhm_ok c e m'
      \<and> fhm_find c e m' = (fhm_find c e m)(k \<mapsto> v)"
    if k: "k \<noteq> e" and none: "fhm_find c e m k = None" and room: "fhm_room c e m"
  proof -
    have abs: "\<forall>v. (k, v) \<notin> fhm_entries c e m" using none fhm_ok_absent [OF ok] by blast
    from insert_fresh [OF inv k abs room, of "Some v"] obtain i where i: "i < unat c" "fm_keys m i = e"
      "fhm_insert c e m k (Some v) = (True, fm_occupy i k (Some v) m)"
      "fhm_inv c e (fm_occupy i k (Some v) m)" by blast
    have ent: "fhm_entries c e (fm_occupy i k (Some v) m) = insert (k, Some v) (fhm_entries c e m)"
      using i(1,2) k by (rule entries_occupy)
    have ok': "fhm_ok c e (fm_occupy i k (Some v) m)"
      using i(4) ent fhm_ok_None [OF ok] by (intro fhm_okI) auto
    have "fhm_find c e (fm_occupy i k (Some v) m) = (fhm_find c e m)(k \<mapsto> v)"
      using abs by (intro fhm_find_ext [OF ok ok']) (auto simp: ent fhm_ok_find [OF ok])
    with i(3) ok' show ?thesis by simp
  qed
  show "\<exists>m'. fhm_erase c e m k = Some m' \<and> fhm_ok c e m' \<and> fhm_find c e m' = (fhm_find c e m)(k := None)"
  proof (cases "fhm_find c e m k")
    case None
    then have "fhm_erase c e m k = Some m"
      using fhm_ok_absent [OF ok] inv by (intro erase_absent) (simp_all add: fhm_inv_def)
    with ok None show ?thesis by (intro exI [of _ m]) auto
  next
    case (Some w)
    then have kw: "(k, Some w) \<in> fhm_entries c e m" using fhm_ok_find [OF ok] by blast
    from erase_present [OF inv kw] obtain m' where m': "fhm_erase c e m k = Some m'" "fhm_inv c e m'"
      "fhm_entries c e m' = fhm_entries c e m - {(k, Some w)}" by blast
    have ok': "fhm_ok c e m'" using m'(2,3) fhm_ok_None [OF ok] by (intro fhm_okI) auto
    have only: "v = w" if "(k, Some v) \<in> fhm_entries c e m" for v
      using iffD2 [OF fhm_ok_find [OF ok] that] Some by simp
    have "fhm_find c e m' = (fhm_find c e m)(k := None)"
      using only by (intro fhm_find_ext [OF ok ok']) (auto simp: m'(3) fhm_ok_find [OF ok])
    with m'(1) ok' show ?thesis by blast
  qed
qed

text \<open>The number of keys, and when there is room.\<close>

lemma card_dom_find:
  assumes "fhm_ok c e m"
  shows "card (dom (fhm_find c e m)) = card (occupied (unat c) e (fm_keys m))"
proof -
  have "dom (fhm_find c e m) = fm_keys m ` occupied (unat c) e (fm_keys m)"
  proof (intro set_eqI iffI)
    fix k assume "k \<in> dom (fhm_find c e m)"
    then show "k \<in> fm_keys m ` occupied (unat c) e (fm_keys m)"
      using fhm_ok_find [OF assms] by (auto simp: in_entries occupied_def image_iff)
  next
    fix k assume "k \<in> fm_keys m ` occupied (unat c) e (fm_keys m)"
    then obtain v where "(k, v) \<in> fhm_entries c e m" by (auto simp: fhm_entries_def)
    then show "k \<in> dom (fhm_find c e m)" using fhm_ok_absent [OF assms] by blast
  qed
  moreover have "inj_on (fm_keys m) (occupied (unat c) e (fm_keys m))"
    using assms by (auto simp: fhm_ok_def fhm_inv_def table_ok_def keys_once_def occupied_def inj_on_def)
  ultimately show ?thesis by (simp add: card_image)
qed

lemma fhm_ok_init: "pow2_size c \<Longrightarrow> fhm_ok c e (FlatHashMap_init e)"
  by (intro fhm_okI fhm_inv_init) simp_all

lemma fhm_find_init: "pow2_size c \<Longrightarrow> fhm_find c e (FlatHashMap_init e) = Map.empty"
  by (intro ext find_no_entry) simp_all

section \<open>The map behaves as a finite map\<close>

lemma entries_overwrite:
  assumes inv: "fhm_inv c e m" and p: "p < unat c" "fm_keys m p = k" "k \<noteq> e"
  shows "fhm_entries c e (fm_overwrite p v m) = insert (k, v) {(k', v') \<in> fhm_entries c e m. k' \<noteq> k}"
proof -
  have "q = p" if "q < unat c" "fm_keys m q = k" for q
    using that inv p by (auto simp: fhm_inv_def table_ok_def keys_once_def)
  note only = this
  have "(a, w) \<in> fhm_entries c e (fm_overwrite p v m) \<longleftrightarrow>
      (a, w) = (k, v) \<or> (a, w) \<in> fhm_entries c e m \<and> a \<noteq> k" for a w
  proof (cases "a = k")
    case True
    have "(k, w) \<in> fhm_entries c e (fm_overwrite p v m) \<longleftrightarrow> w = v"
      unfolding in_entries fm_overwrite_sel using p only by (metis fun_upd_same)
    with True show ?thesis by simp
  next
    case False
    with p show ?thesis by (auto simp: in_entries)
  qed
  then show ?thesis by auto
qed

lemma fhm_insert_any:
  assumes ok: "fhm_ok c e m" and k: "k \<noteq> e" and room: "fhm_find c e m k = None \<Longrightarrow> fhm_room c e m"
  shows "\<exists>m'. fhm_insert c e m k (Some v) = (fhm_find c e m k = None, m') \<and> fhm_ok c e m' \<and>
    fhm_find c e m' = (fhm_find c e m)(k \<mapsto> v)"
proof (cases "fhm_find c e m k")
  case None
  from fhm.ins_fresh [OF ok k None room [OF None]] None show ?thesis by auto
next
  case (Some w)
  have inv: "fhm_inv c e m" using ok by (simp add: fhm_ok_def)
  from Some fhm_ok_find [OF ok] obtain p where p: "p < unat c" "fm_keys m p = k" "k \<noteq> e"
    by (auto simp: in_entries)
  let ?m' = "fm_overwrite p (Some v) m"
  note ent = entries_overwrite [OF inv p, of "Some v"]
  have "fhm_inv c e ?m'" using inv by (simp add: fhm_inv_def)
  then have ok': "fhm_ok c e ?m'" using fhm_ok_None [OF ok] by (intro fhm_okI) (auto simp: ent)
  have "fhm_find c e ?m' = (fhm_find c e m)(k \<mapsto> v)"
    by (rule fhm_find_ext [OF ok ok']) (auto simp: ent fhm_ok_find [OF ok])
  with insert_present [OF inv p] ok' Some show ?thesis by auto
qed

text \<open>
  C29. On a map in its invariant, inserting a key other than the empty marker (with a free slot
  if the key is new) maps the key to the value, leaves every other key as it was, keeps the
  invariant and returns whether the key was new.
\<close>

theorem FlatHashMap_insert_updates:
  assumes "fhm_ok c e m" "k \<noteq> e" "fhm_find c e m k = None \<longrightarrow> fhm_room c e m"
  shows "\<exists>m'. fhm_insert c e m k (Some v) = (fhm_find c e m k = None, m') \<and> fhm_ok c e m' \<and>
    fhm_find c e m' = (fhm_find c e m)(k \<mapsto> v)"
  by (rule fhm_insert_any) (use assms in auto)

lemma fhm_room_init: "pow2_size c \<Longrightarrow> fhm_room c e (FlatHashMap_init e)"
  by (simp add: fhm_room_def FlatHashMap_init_def occupied_def pow2_size_pos)

lemma pow2_4: "pow2_size 4"
  unfolding pow2_size_def by (intro exI [of _ 2]) simp

theorem FlatHashMap_insert_updates_witness:
  "\<exists>m. fhm_insert 4 0 (FlatHashMap_init (0 :: u32)) 9 (Some 5) = (True, m) \<and> fhm_find 4 0 m 9 = Some 5 \<and>
     fhm_find 4 0 m 8 = None"
  using FlatHashMap_insert_updates [OF fhm_ok_init [OF pow2_4, of "0 :: u32"], of 9 5]
  by (auto simp: fhm_find_init [OF pow2_4] fhm_room_init [OF pow2_4])

lemma size_card: "fhm_ok c e m \<Longrightarrow> unat (fm_size m) = card (dom (fhm_find c e m))"
proof -
  assume ok: "fhm_ok c e m"
  have "card (occupied (unat c) e (fm_keys m)) \<le> unat c" by (rule occupied_card_le)
  also have "unat c < 2 ^ LENGTH(64)" by (rule unsigned_less)
  finally have "unat (fm_size m) = card (occupied (unat c) e (fm_keys m))"
    using ok by (simp add: fhm_ok_def fhm_inv_def unat_of_nat)
  then show ?thesis by (simp only: card_dom_find [OF ok])
qed

text \<open>
  C28. Erasing a key ends (the repair loop reaches an empty slot), removes exactly that key, leaves
  every other key findable with its value, keeps the invariant, and the size stays the number of
  keys held.
\<close>

theorem FlatHashMap_erase_removes:
  assumes "fhm_ok c e m"
  shows "\<exists>m'. fhm_erase c e m k = Some m' \<and> fhm_ok c e m' \<and>
    fhm_find c e m' = (fhm_find c e m)(k := None) \<and> unat (fm_size m') = card (dom (fhm_find c e m) - {k})"
proof -
  from fhm.del_key [OF assms] obtain m' where "fhm_erase c e m k = Some m'" "fhm_ok c e m'"
    "fhm_find c e m' = (fhm_find c e m)(k := None)" by blast
  then show ?thesis by (simp add: size_card)
qed

theorem FlatHashMap_erase_removes_witness:
  "\<exists>m m'. fhm_insert 4 0 (FlatHashMap_init (0 :: u32)) 9 (Some 5) = (True, m) \<and> fhm_erase 4 0 m 9 = Some m' \<and>
     fhm_find 4 0 m' 9 = None \<and> fm_size m' = 0"
proof -
  obtain m where m: "fhm_insert 4 0 (FlatHashMap_init (0 :: u32)) 9 (Some 5) = (True, m)" "fhm_ok 4 0 m"
    "fhm_find 4 0 m = [9 \<mapsto> 5]"
    using fhm_insert_any [OF fhm_ok_init [OF pow2_4, of "0 :: u32"], of 9 5]
    by (auto simp: fhm_find_init [OF pow2_4] fhm_room_init [OF pow2_4])
  from FlatHashMap_erase_removes [OF m(2), of 9] m(3) obtain m' where
    "fhm_erase 4 0 m 9 = Some m'" "fhm_find 4 0 m' 9 = None" "unat (fm_size m') = 0" by auto
  with m(1) show ?thesis by (auto simp: unsigned_eq_0_iff)
qed

text \<open>
  On a full map the insertion of a new key does nothing and returns false (the assertion of
  the code is compiled out of the default build).
\<close>

lemma FlatHashMap_insert_full:
  assumes "fhm_ok c e m" "\<not> fhm_room c e m" "fhm_find c e m k = None"
  shows "fhm_insert c e m k v = (False, m)"
  using assms fhm_ok_absent [OF assms(1)] by (intro insert_full) (auto simp: fhm_ok_def fhm_inv_def)

text \<open>A map filled with the keys \<open>1, ..., n\<close>.\<close>

lemma fhm_filled:
  assumes c: "pow2_size c"
  shows "n \<le> unat c \<Longrightarrow> unat c < 2 ^ 32 - 1 \<Longrightarrow> \<exists>m :: u32 FlatHashMap. fhm_ok c (- 1) m \<and>
    dom (fhm_find c (- 1) m) = of_nat ` {..<n}"
proof (induction n)
  case 0
  then show ?case using fhm_ok_init [OF c, of "- 1 :: u32"] fhm_find_init [OF c, of "- 1 :: u32"] by auto
next
  case (Suc n)
  then obtain m :: "u32 FlatHashMap" where m: "fhm_ok c (- 1) m"
    "dom (fhm_find c (- 1) m) = of_nat ` {..<n}" by auto
  let ?k = "of_nat n :: u32"
  have inj: "inj_on (of_nat :: nat \<Rightarrow> u32) {..n}"
    using Suc.prems by (intro inj_onI) (auto simp: word_of_nat_eq_iff take_bit_nat_eq_self)
  have "?k \<notin> of_nat ` {..<n}"
    using inj_on_image_mem_iff [OF inj, of n "{..<n}"] by fastforce
  then have none: "fhm_find c (- 1) m ?k = None" using m(2) by (auto simp: domIff)
  have "card (dom (fhm_find c (- 1) m)) = n"
    unfolding m(2) using inj by (subst card_image) (auto intro: inj_on_subset)
  then have room: "fhm_room c (- 1) m"
    using Suc.prems(1) by (simp add: fhm_room_def flip: card_dom_find [OF m(1)])
  have "?k \<noteq> - 1"
  proof
    assume "?k = - 1"
    then have "unat ?k = unat (- 1 :: u32)" by simp
    then show False using Suc.prems by (simp add: unat_of_nat unsigned_minus_1_eq_mask mask_eq_exp_minus_1)
  qed
  from fhm.ins_fresh [OF m(1) this none room, of 0] obtain m' where "fhm_ok c (- 1) m'"
    "fhm_find c (- 1) m' = (fhm_find c (- 1) m)(?k \<mapsto> 0)" by blast
  moreover have "dom ((fhm_find c (- 1) m)(?k \<mapsto> 0)) = of_nat ` {..<Suc n}"
    unfolding dom_fun_upd m(2) by (simp add: lessThan_Suc)
  ultimately show ?case by metis
qed

lemma FlatHashMap_insert_full_example:
  "\<exists>m :: u32 FlatHashMap. fhm_ok 4 (- 1) m \<and> unat (fm_size m) = 4 \<and> fhm_insert 4 (- 1) m 77 (Some 1) = (False, m)"
proof -
  obtain m :: "u32 FlatHashMap" where m: "fhm_ok 4 (- 1) m" "dom (fhm_find 4 (- 1) m) = of_nat ` {..<4}"
    using fhm_filled [OF pow2_4, of 4] by auto
  have dom: "dom (fhm_find 4 (- 1) m) = {0, 1, 2, 3}"
    using m(2) by (simp add: lessThan_Suc eval_nat_numeral) auto
  have "77 \<notin> dom (fhm_find 4 (- 1) m)" unfolding dom by simp
  then have "fhm_find 4 (- 1) m 77 = None" by (simp add: domIff)
  moreover have card: "card (dom (fhm_find 4 (- 1) m)) = 4" by (simp add: dom)
  then have "\<not> fhm_room 4 (- 1) m" using card_dom_find [OF m(1)] by (simp add: fhm_room_def)
  moreover have "unat (fm_size m) = 4" using size_card [OF m(1)] card by simp
  ultimately show ?thesis using FlatHashMap_insert_full [OF m(1)] m(1) by blast
qed

end
