(* ===== verification/Book_Rep.thy ===== *)
theory Book_Rep
  imports Order_Book
begin

text \<open>
  What an order book represents. \<open>G s\<close> is the list of levels of side \<open>s\<close>, best price
  first, each with its slot, its price and the slots of its orders, oldest first.
  \<open>side_mem\<close> says that the memory holds that list, \<open>side_index\<close> that the book's fields
  (best pointer, map, count) name it, \<open>book_rep\<close> that both hold for both sides and that no
  level is empty. The lemmas give the effect of each operation on \<open>G\<close> and on memory.
\<close>

type_synonym levels = "(nat \<times> Price \<times> nat list) list"

section \<open>Definitions\<close>

definition levels_of :: "levels \<Rightarrow> nat list" where
  "levels_of L = map fst L"
definition prices_of :: "levels \<Rightarrow> Price list" where
  "prices_of L = map (fst \<circ> snd) L"
definition orders_of :: "levels \<Rightarrow> nat list" where
  "orders_of L = concat (map (snd \<circ> snd) L)"
definition level_map :: "levels \<Rightarrow> Price \<Rightarrow> ptr" where
  "level_map L = map_of (map (\<lambda>(lv, px, os). (px, lv)) L)"

definition book_map :: "Side \<Rightarrow> OrderBook \<Rightarrow> Price FlatHashMap" where
  "book_map s b = (if s = Buy then ob_bid_map b else ob_ask_map b)"
definition book_count :: "Side \<Rightarrow> OrderBook \<Rightarrow> u64" where
  "book_count s b = (if s = Buy then ob_bid_level_count b else ob_ask_level_count b)"

definition side_mem :: "arena \<Rightarrow> Side \<Rightarrow> levels \<Rightarrow> bool" where
  "side_mem ar s L \<longleftrightarrow> distinct (levels_of L) \<and>
     dlinks l_next_level l_prev_level (lev ar) None (levels_of L) None \<and>
     sorted_wrt (better s) (prices_of L) \<and>
     (\<forall>(lv, px, os)\<in>set L. level_rep ar s lv px os)"

definition side_index :: "Side \<Rightarrow> OrderBook \<Rightarrow> levels \<Rightarrow> bool" where
  "side_index s b L \<longleftrightarrow> best s b = firstp (levels_of L) None \<and>
     fhm_ok kPriceLevelMapCapacity kEmptyPrice (book_map s b) \<and>
     find_level b s = level_map L \<and> book_count s b = of_nat (length L)"

definition no_empty :: "levels \<Rightarrow> bool" where
  "no_empty L \<longleftrightarrow> (\<forall>(lv, px, os)\<in>set L. os \<noteq> [])"

definition book_sides :: "arena \<Rightarrow> OrderBook \<Rightarrow> (Side \<Rightarrow> levels) \<Rightarrow> bool" where
  "book_sides ar b G \<longleftrightarrow> (\<forall>s. side_mem ar s (G s) \<and> side_index s b (G s))"

definition book_rep :: "arena \<Rightarrow> OrderBook \<Rightarrow> (Side \<Rightarrow> levels) \<Rightarrow> bool" where
  "book_rep ar b G \<longleftrightarrow> book_sides ar b G \<and> (\<forall>s. no_empty (G s)) \<and>
     ob_live_order_count b = of_nat (length (orders_of (G Buy)) + length (orders_of (G Sell)))"

definition book_orders :: "(Side \<Rightarrow> levels) \<Rightarrow> nat set" where
  "book_orders G = set (orders_of (G Buy)) \<union> set (orders_of (G Sell))"
definition book_levels :: "(Side \<Rightarrow> levels) \<Rightarrow> nat set" where
  "book_levels G = set (levels_of (G Buy)) \<union> set (levels_of (G Sell))"

section \<open>Lists of levels\<close>

lemma levels_of_simps [simp]:
  "levels_of [] = []" "levels_of (x # L) = fst x # levels_of L"
  "levels_of (A @ B) = levels_of A @ levels_of B"
  by (simp_all add: levels_of_def)

lemma prices_of_simps [simp]:
  "prices_of [] = []" "prices_of (x # L) = fst (snd x) # prices_of L"
  "prices_of (A @ B) = prices_of A @ prices_of B"
  by (simp_all add: prices_of_def)

lemma orders_of_simps [simp]:
  "orders_of [] = []" "orders_of (x # L) = snd (snd x) @ orders_of L"
  "orders_of (A @ B) = orders_of A @ orders_of B"
  by (simp_all add: orders_of_def)

lemma no_empty_simps [simp]:
  "no_empty []" "no_empty ((lv, px, os) # L) \<longleftrightarrow> os \<noteq> [] \<and> no_empty L"
  "no_empty (A @ B) \<longleftrightarrow> no_empty A \<and> no_empty B"
  by (simp_all add: no_empty_def ball_Un)

lemma better_irrefl [simp]: "\<not> better s p p"
  by (simp add: better_def)

lemma better_trans: "better s p q \<Longrightarrow> better s q r \<Longrightarrow> better s p r"
  by (auto simp: better_def split: if_splits)

lemma better_linear: "p \<noteq> q \<Longrightarrow> better s p q \<or> better s q p"
  by (auto simp: better_def)

lemma better_asym: "better s p q \<Longrightarrow> \<not> better s q p"
  by (auto simp: better_def split: if_splits)

lemma prices_distinct: "sorted_wrt (better s) ps \<Longrightarrow> distinct ps"
  by (induction ps) auto

lemma in_prices: "(lv, px, os) \<in> set L \<Longrightarrow> px \<in> set (prices_of L)"
  by (force simp: prices_of_def)

lemma in_levels: "(lv, px, os) \<in> set L \<Longrightarrow> lv \<in> set (levels_of L)"
  by (force simp: levels_of_def)

lemma in_orders: "i \<in> set (orders_of L) \<longleftrightarrow> (\<exists>lv px os. (lv, px, os) \<in> set L \<and> i \<in> set os)"
  by (force simp: orders_of_def)

lemma prices_levels: "px \<in> set (prices_of L) \<Longrightarrow> \<exists>lv os. (lv, px, os) \<in> set L"
  by (force simp: prices_of_def)

lemma level_map_Some: "level_map L px = Some lv \<Longrightarrow> \<exists>os. (lv, px, os) \<in> set L"
  by (force simp: level_map_def dest: map_of_SomeD)

lemma level_map_None: "level_map L px = None \<longleftrightarrow> px \<notin> set (prices_of L)"
  by (force simp: level_map_def map_of_eq_None_iff prices_of_def)

lemma level_map_in:
  "distinct (prices_of L) \<Longrightarrow> (lv, px, os) \<in> set L \<Longrightarrow> level_map L px = Some lv"
  unfolding level_map_def
  by (intro map_of_is_SomeI) (force simp: prices_of_def o_def case_prod_beta)+

lemma level_map_simps [simp]:
  "level_map [] = Map.empty" "level_map (x # L) = (level_map L)(fst (snd x) \<mapsto> fst x)"
  "level_map (A @ B) = level_map B ++ level_map A"
  by (simp_all add: level_map_def case_prod_beta)

lemma level_map_split:
  assumes "distinct (prices_of (A @ (lv, px, os) # B))"
  shows "level_map (A @ (lv, px, os) # B) = (level_map (A @ B))(px \<mapsto> lv)"
    and "level_map (A @ B) = (level_map (A @ (lv, px, os) # B))(px := None)"
proof -
  have none: "level_map (A @ B) px = None" and "px \<notin> dom (level_map A)"
    using assms by (simp_all add: level_map_None domIff)
  from map_add_upd_left [OF this(2)]
  show "level_map (A @ (lv, px, os) # B) = (level_map (A @ B))(px \<mapsto> lv)" by simp
  then show "level_map (A @ B) = (level_map (A @ (lv, px, os) # B))(px := None)"
    using none by (auto simp: fun_eq_iff)
qed

lemma card_level_map: "distinct (prices_of L) \<Longrightarrow> card (dom (level_map L)) = length L"
proof -
  assume dis: "distinct (prices_of L)"
  have "dom (level_map L) = set (prices_of L)" by (auto simp: domIff level_map_None dest: level_map_Some in_prices) (metis level_map_None not_None_eq)
  moreover have "length (prices_of L) = length L" by (simp add: prices_of_def)
  ultimately show ?thesis using distinct_card [OF dis] by simp
qed

text \<open>The partition of a side by a price that none of its levels has.\<close>

definition ahead :: "Side \<Rightarrow> Price \<Rightarrow> levels \<Rightarrow> levels" where
  "ahead s px L = takeWhile (\<lambda>x. better s (fst (snd x)) px) L"
definition behind :: "Side \<Rightarrow> Price \<Rightarrow> levels \<Rightarrow> levels" where
  "behind s px L = dropWhile (\<lambda>x. better s (fst (snd x)) px) L"

lemma ahead_behind [simp]: "ahead s px L @ behind s px L = L"
  by (simp add: ahead_def behind_def)

lemma ahead_behind_of:
  "orders_of (ahead s px L) @ orders_of (behind s px L) = orders_of L"
  "levels_of (ahead s px L) @ levels_of (behind s px L) = levels_of L"
  by (simp_all flip: orders_of_simps(3) levels_of_simps(3))

lemma ahead_better: "x \<in> set (ahead s px L) \<Longrightarrow> better s (fst (snd x)) px"
  by (auto simp: ahead_def dest: set_takeWhileD)

lemma behind_worse:
  "sorted_wrt (better s) (prices_of L) \<Longrightarrow> px \<notin> set (prices_of L) \<Longrightarrow> x \<in> set (behind s px L) \<Longrightarrow>
   better s px (fst (snd x))"
proof (induction L)
  case Nil
  then show ?case by (simp add: behind_def)
next
  case (Cons y L)
  show ?case
  proof (cases "better s (fst (snd y)) px")
    case True
    with Cons show ?thesis by (simp add: behind_def)
  next
    case False
    then have "better s px (fst (snd y))" using Cons.prems(2) better_linear by force
    moreover have "x = y \<or> better s (fst (snd y)) (fst (snd x))"
      using Cons.prems(1,3) False by (auto simp: behind_def prices_of_def)
    ultimately show ?thesis using better_trans by blast
  qed
qed

lemma sorted_insert_level:
  assumes "sorted_wrt (better s) (prices_of L)" "px \<notin> set (prices_of L)"
  shows "sorted_wrt (better s) (prices_of (ahead s px L @ (lv, px, os) # behind s px L))"
proof -
  have "sorted_wrt (better s) (prices_of (ahead s px L @ behind s px L))"
    using assms(1) by (simp del: prices_of_simps)
  moreover have "\<forall>p\<in>set (prices_of (ahead s px L)). better s p px"
    using ahead_better by (fastforce simp: prices_of_def)
  moreover have "\<forall>p\<in>set (prices_of (behind s px L)). better s px p"
    using behind_worse [OF assms] by (fastforce simp: prices_of_def)
  ultimately show ?thesis unfolding prices_of_simps sorted_wrt_append by simp
qed

lemma os_subset: "(lv, px, os) \<in> set L \<Longrightarrow> set os \<subseteq> set (orders_of L)"
  unfolding subset_iff in_orders by blast

section \<open>Facts of a side\<close>

lemma side_memD:
  assumes "side_mem ar s L"
  shows "distinct (levels_of L)" "dlinks l_next_level l_prev_level (lev ar) None (levels_of L) None"
    "sorted_wrt (better s) (prices_of L)" "distinct (prices_of L)"
    "\<And>lv px os. (lv, px, os) \<in> set L \<Longrightarrow> level_rep ar s lv px os"
  using assms prices_distinct unfolding side_mem_def by blast+

lemma side_memI:
  assumes "distinct (levels_of L)" "dlinks l_next_level l_prev_level (lev ar) None (levels_of L) None"
    "sorted_wrt (better s) (prices_of L)" "\<And>lv px os. (lv, px, os) \<in> set L \<Longrightarrow> level_rep ar s lv px os"
  shows "side_mem ar s L"
  using assms unfolding side_mem_def by blast

lemma level_rep_order:
  "level_rep ar s lv px os \<Longrightarrow> i \<in> set os \<Longrightarrow> \<exists>x. order_at ar i x \<and> o_price_cents x = px \<and> o_side x = s"
  unfolding level_rep_def by (blast dest: level_list_order)

lemma level_rep_level:
  "level_rep ar s lv px os \<Longrightarrow> \<exists>l. level_at ar lv l \<and> l_price_cents l = px \<and> l_side l = s"
  unfolding level_rep_def level_list_def by blast

lemma level_rep_distinct: "level_rep ar s lv px os \<Longrightarrow> distinct os"
  unfolding level_rep_def level_list_def by blast

lemma side_order:
  assumes "side_mem ar s L" "i \<in> set (orders_of L)"
  shows "\<exists>x. order_at ar i x \<and> o_price_cents x \<in> set (prices_of L) \<and> o_side x = s"
  using assms by (auto simp: in_orders dest!: side_memD(5) level_rep_order dest: in_prices)

lemma side_level:
  assumes "side_mem ar s L" "lv \<in> set (levels_of L)"
  shows "\<exists>l. level_at ar lv l \<and> l_side l = s"
proof -
  from assms(2) obtain px os where "(lv, px, os) \<in> set L" by (force simp: levels_of_def)
  from level_rep_level [OF side_memD(5) [OF assms(1) this]] show ?thesis by blast
qed

text \<open>An order lies in the level of its price, and in no other.\<close>

lemma side_order_level:
  assumes "side_mem ar s L" "i \<in> set os" "(lv, px, os) \<in> set L" "order_at ar i x"
  shows "o_price_cents x = px" "o_side x = s"
  using level_rep_order [OF side_memD(5) [OF assms(1,3)] assms(2)] order_at_unique [OF assms(4)] by auto

lemma side_order_unique:
  assumes mem: "side_mem ar s (A @ (lv, px, os) # B)" and i: "i \<in> set os"
  shows "i \<notin> set (orders_of A)" "i \<notin> set (orders_of B)"
proof -
  have "level_rep ar s lv px os" by (rule side_memD(5) [OF mem]) simp
  from level_rep_order [OF this i] obtain x where x: "order_at ar i x" "o_price_cents x = px" by blast
  have other: "px' = px" if "(lv', px', os') \<in> set (A @ (lv, px, os) # B)" "i \<in> set os'" for lv' px' os'
    using side_order_level(1) [OF mem that(2,1) x(1)] x(2) by simp
  have "px \<notin> set (prices_of A)" "px \<notin> set (prices_of B)" using side_memD(4) [OF mem] by auto
  then show "i \<notin> set (orders_of A)" "i \<notin> set (orders_of B)"
    unfolding in_orders using other in_prices
    by (metis Un_iff set_append, metis Un_iff set_append list.set_intros(2))
qed

lemma orders_distinct_aux:
  "distinct (prices_of L) \<Longrightarrow> (\<And>lv px os. (lv, px, os) \<in> set L \<Longrightarrow> level_rep ar s lv px os) \<Longrightarrow>
   distinct (orders_of L)"
proof (induction L)
  case Nil
  then show ?case by simp
next
  case (Cons y L)
  obtain lv px os where y: "y = (lv, px, os)" by (cases y)
  have rep: "level_rep ar s lv px os" using Cons.prems(2) y by simp
  have "distinct (orders_of L)" using Cons by simp
  moreover have "set os \<inter> set (orders_of L) = {}"
  proof (rule ccontr)
    assume "\<not> ?thesis"
    then obtain i lv' px' os' where i: "i \<in> set os" "(lv', px', os') \<in> set L" "i \<in> set os'"
      by (auto simp: in_orders)
    have "level_rep ar s lv' px' os'" using Cons.prems(2) i(2) by simp
    then have "px' = px" using level_rep_order [OF rep i(1)] level_rep_order i(3) order_at_unique by metis
    with Cons.prems(1) in_prices [OF i(2)] y show False by simp
  qed
  ultimately show ?case using level_rep_distinct [OF rep] y by simp
qed

lemma side_orders_distinct: "side_mem ar s L \<Longrightarrow> distinct (orders_of L)"
  using side_memD(4,5) by (rule orders_distinct_aux)

lemma sides_disjoint:
  assumes "side_mem ar s L" "side_mem ar t L'" "s \<noteq> t"
  shows "set (orders_of L) \<inter> set (orders_of L') = {}" "set (levels_of L) \<inter> set (levels_of L') = {}"
proof -
  show "set (orders_of L) \<inter> set (orders_of L') = {}"
    using side_order [OF assms(1)] side_order [OF assms(2)] assms(3) by (fastforce dest: order_at_unique)
  show "set (levels_of L) \<inter> set (levels_of L') = {}"
    using side_level [OF assms(1)] side_level [OF assms(2)] assms(3) by (fastforce dest: level_at_unique)
qed

section \<open>Changes of memory\<close>

lemma side_mem_same:
  assumes mem: "side_mem ar s L" and same: "same_on (set (orders_of L)) (set (levels_of L)) ar ar'"
  shows "side_mem ar' s L"
proof (rule side_memI)
  show "dlinks l_next_level l_prev_level (lev ar') None (levels_of L) None"
    using side_memD(2) [OF mem] same by (subst dlinks_cong [where st = "lev ar"]) (auto simp: same_on_def)
  fix lv px os assume in_L: "(lv, px, os) \<in> set L"
  have "same_on (set os) {lv} ar ar'"
    using same os_subset [OF in_L] in_levels [OF in_L] by (intro same_on_mono [OF same]) auto
  then show "level_rep ar' s lv px os" by (rule level_rep_cong [OF side_memD(5) [OF mem in_L]])
qed (use side_memD [OF mem] in auto)

text \<open>A step inside one level.\<close>

lemma side_mem_level:
  assumes mem: "side_mem ar s (A @ (lv, px, os) # B)" and frame: "arena_frame Os {lv} ar ar'"
    and apart: "Os \<inter> set (orders_of A @ orders_of B) = {}" and place: "place_kept lv ar ar'"
    and rep: "level_rep ar' s lv px os'"
  shows "side_mem ar' s (A @ (lv, px, os') # B)"
proof (rule side_memI)
  note D = side_memD [OF mem]
  show "distinct (levels_of (A @ (lv, px, os') # B))" "sorted_wrt (better s) (prices_of (A @ (lv, px, os') # B))"
    using D(1,3) by simp_all
  have same: "lev ar' i = lev ar i" if "i \<noteq> lv" for i using frame that by (simp add: arena_frame_def)
  have "dlinks l_next_level l_prev_level (lev ar') None (levels_of (A @ (lv, px, os) # B)) None"
  proof (rule dlinks_same_links [OF _ D(2)])
    fix i n assume i: "i \<in> set (levels_of (A @ (lv, px, os) # B))" "lev ar i = Obj n"
    show "\<exists>n'. lev ar' i = Obj n' \<and> l_next_level n' = l_next_level n \<and> l_prev_level n' = l_prev_level n"
    proof (cases "i = lv")
      case True
      from side_level [OF mem i(1)] i(2) have "level_at ar lv n" by (auto simp: level_at_def True)
      with place show ?thesis by (fastforce simp: place_kept_def level_at_def True)
    qed (use same i(2) in simp)
  qed
  then show "dlinks l_next_level l_prev_level (lev ar') None (levels_of (A @ (lv, px, os') # B)) None" by simp
  fix lv' px' os'' assume "(lv', px', os'') \<in> set (A @ (lv, px, os') # B)"
  then consider "(lv', px', os'') = (lv, px, os')" | "(lv', px', os'') \<in> set (A @ B)" by auto
  then show "level_rep ar' s lv' px' os''"
  proof cases
    case 2
    then have in_L: "(lv', px', os'') \<in> set (A @ (lv, px, os) # B)" by auto
    have "lv' \<noteq> lv" using D(1) 2 by (auto dest: in_levels)
    then have "same_on (set os'') {lv'} ar ar'"
      using frame apart os_subset [OF 2] by (intro same_on_frame) auto
    then show ?thesis by (rule level_rep_cong [OF D(5) [OF in_L]])
  qed (use rep in simp)
qed

section \<open>Linking and unlinking a level\<close>

lemma seek_level_stop:
  "dlinks l_next_level l_prev_level (lev ar) prev (levels_of L) None \<Longrightarrow>
   (\<And>lv p os. (lv, p, os) \<in> set L \<Longrightarrow> level_rep ar s lv p os) \<Longrightarrow>
   seek_level s px ar prev (firstp (levels_of L) None) =
     Some (lastp prev (levels_of (ahead s px L)), firstp (levels_of (behind s px L)) None)"
proof (induction L arbitrary: prev)
  case Nil
  then show ?case by (simp add: seek_level.simps ahead_def behind_def)
next
  case (Cons y L)
  obtain lv p os where y: "y = (lv, p, os)" by (cases y)
  have "level_rep ar s lv p os" using Cons.prems(2) y by simp
  from level_rep_level [OF this] obtain l where l: "level_at ar lv l" "l_price_cents l = p" by blast
  then have next_l: "l_next_level l = firstp (levels_of L) None"
    "dlinks l_next_level l_prev_level (lev ar) (Some lv) (levels_of L) None"
    using Cons.prems(1) y by (simp_all add: level_at_def)
  show ?case
  proof (cases "better s p px")
    case True
    then have "ahead s px (y # L) = y # ahead s px L" "behind s px (y # L) = behind s px L"
      by (simp_all add: ahead_def behind_def y)
    then show ?thesis
      using Cons.IH [OF next_l(2)] Cons.prems(2) True l next_l(1)
      by (subst seek_level.simps) (simp add: y exec_simps)
  next
    case False
    then have "ahead s px (y # L) = []" "behind s px (y # L) = y # L"
      by (simp_all add: ahead_def behind_def y)
    then show ?thesis using False l by (subst seek_level.simps) (simp add: y exec_simps)
  qed
qed

text \<open>Memory in which only the places of levels changed.\<close>

definition relinked :: "arena \<Rightarrow> arena \<Rightarrow> bool" where
  "relinked ar ar' \<longleftrightarrow> ar_orders ar' = ar_orders ar \<and>
     mp_capacity (ar_levels ar') = mp_capacity (ar_levels ar) \<and>
     mp_head (ar_levels ar') = mp_head (ar_levels ar) \<and>
     (\<forall>i l. level_at ar i l \<longrightarrow> (\<exists>p q. level_at ar' i (l\<lparr>l_prev_level := p, l_next_level := q\<rparr>)))"

lemma relinked_refl [simp]: "relinked ar ar"
proof -
  have "level_at ar i l \<longrightarrow> level_at ar i (l\<lparr>l_prev_level := l_prev_level l, l_next_level := l_next_level l\<rparr>)"
    for i l by simp
  then show ?thesis unfolding relinked_def by blast
qed

lemma relinked_trans: "relinked ar ar' \<Longrightarrow> relinked ar' ar'' \<Longrightarrow> relinked ar ar''"
proof -
  assume r: "relinked ar ar'" "relinked ar' ar''"
  have "\<exists>p q. level_at ar'' i (l\<lparr>l_prev_level := p, l_next_level := q\<rparr>)" if l: "level_at ar i l" for i l
  proof -
    from r(1) l obtain p q where "level_at ar' i (l\<lparr>l_prev_level := p, l_next_level := q\<rparr>)"
      unfolding relinked_def by blast
    with r(2) have "\<exists>p' q'. level_at ar'' i (l\<lparr>l_prev_level := p, l_next_level := q\<rparr>
        \<lparr>l_prev_level := p', l_next_level := q'\<rparr>)" unfolding relinked_def by blast
    then show ?thesis by simp
  qed
  with r show ?thesis by (simp add: relinked_def)
qed

lemma relinked_put:
  assumes "level_at ar i l"
  shows "relinked ar (put_level i (l\<lparr>l_prev_level := p, l_next_level := q\<rparr>) ar)"
    and "relinked ar (put_level i (l\<lparr>l_prev_level := p\<rparr>) ar)"
    and "relinked ar (put_level i (l\<lparr>l_next_level := q\<rparr>) ar)"
proof -
  have gen: "relinked ar (put_level i (l\<lparr>l_prev_level := p', l_next_level := q'\<rparr>) ar)" for p' q'
  proof -
    have "\<exists>a c. level_at (put_level i (l\<lparr>l_prev_level := p', l_next_level := q'\<rparr>) ar) j
        (k\<lparr>l_prev_level := a, l_next_level := c\<rparr>)" if k: "level_at ar j k" for j k
    proof (cases "j = i")
      case True
      then have "k = l" using k assms level_at_unique by blast
      then show ?thesis using True level_at_less [OF assms] by auto
    next
      case False
      then have "level_at (put_level i (l\<lparr>l_prev_level := p', l_next_level := q'\<rparr>) ar) j
        (k\<lparr>l_prev_level := l_prev_level k, l_next_level := l_next_level k\<rparr>)" using k by simp
      then show ?thesis by blast
    qed
    then show ?thesis by (simp add: relinked_def)
  qed
  show "relinked ar (put_level i (l\<lparr>l_prev_level := p, l_next_level := q\<rparr>) ar)" by (rule gen)
  show "relinked ar (put_level i (l\<lparr>l_prev_level := p\<rparr>) ar)" using gen [of "l_next_level l" p] by simp
  show "relinked ar (put_level i (l\<lparr>l_next_level := q\<rparr>) ar)" using gen [of q "l_prev_level l"] by simp
qed

lemma level_rep_relinked: "level_rep ar s lv px os \<Longrightarrow> relinked ar ar' \<Longrightarrow> level_rep ar' s lv px os"
  by (erule level_rep_same) (auto simp: relinked_def same_on_def)

text \<open>The two writes to the neighbours of a place in the list.\<close>

lemma upd_next_ok:
  assumes "q = None \<or> (\<exists>p l. q = Some p \<and> level_at ar p l)"
  shows "\<exists>ar'. (case q of Some p \<Rightarrow> upd_level ar p (\<lambda>l. l\<lparr>l_next_level := v\<rparr>) | None \<Rightarrow> Some ar) = Some ar'
     \<and> lev ar' = join_next level_set_next q v (lev ar) \<and> relinked ar ar'
     \<and> arena_frame {} (set_option q) ar ar'"
  using assms
proof (elim disjE exE conjE)
  fix p l assume "q = Some p" "level_at ar p l"
  moreover have "lev ar p = Obj l" using calculation by (simp add: level_at_def)
  ultimately show ?thesis
    using relinked_put(3) [of ar p l v]
    by (simp add: exec_simps join_next_def level_set_next_def arena_frame_put_level)
qed (simp add: join_next_def)

lemma upd_prev_ok:
  assumes "q = None \<or> (\<exists>p l. q = Some p \<and> level_at ar p l)"
  shows "\<exists>ar'. (case q of Some p \<Rightarrow> upd_level ar p (\<lambda>l. l\<lparr>l_prev_level := v\<rparr>) | None \<Rightarrow> Some ar) = Some ar'
     \<and> lev ar' = join_next level_set_prev q v (lev ar) \<and> relinked ar ar'
     \<and> arena_frame {} (set_option q) ar ar'"
  using assms
proof (elim disjE exE conjE)
  fix p l assume "q = Some p" "level_at ar p l"
  moreover have "lev ar p = Obj l" using calculation by (simp add: level_at_def)
  ultimately show ?thesis
    using relinked_put(2) [of ar p l v]
    by (simp add: exec_simps join_next_def level_set_prev_def arena_frame_put_level)
qed (simp add: join_next_def)

lemma relinked_level_at: "relinked ar ar' \<Longrightarrow> level_at ar i l \<Longrightarrow> \<exists>l'. level_at ar' i l'"
  unfolding relinked_def by blast

text \<open>The update of the best pointer that goes with a missing predecessor.\<close>

lemma next_or_best:
  "(case q of
      Some p \<Rightarrow> do { ar \<leftarrow> upd_level ar p (\<lambda>l. l\<lparr>l_next_level := v\<rparr>); Some (b, ar) }
    | None \<Rightarrow> Some (set_best s v b, ar)) =
   do { ar \<leftarrow> (case q of Some p \<Rightarrow> upd_level ar p (\<lambda>l. l\<lparr>l_next_level := v\<rparr>) | None \<Rightarrow> Some ar);
        Some (if q = None then set_best s v b else b, ar) }"
  by (cases q) simp_all

lemma insert_level_sorted_ok:
  assumes mem: "side_mem ar s L" and best: "best s b = firstp (levels_of L) None"
    and lv: "level_at ar lv l" "lv \<notin> set (levels_of L)" "level_rep ar s lv px []"
    and px: "px \<notin> set (prices_of L)"
  shows "\<exists>ar'. insert_level_sorted b ar s lv =
      Some (if ahead s px L = [] then set_best s (Some lv) b else b, ar') \<and>
      side_mem ar' s (ahead s px L @ (lv, px, []) # behind s px L) \<and>
      relinked ar ar' \<and> arena_frame {} (insert lv (set (levels_of L))) ar ar'"
proof -
  let ?A = "ahead s px L" and ?B = "behind s px L"
  let ?p = "lastp None (levels_of ?A)" and ?c = "firstp (levels_of ?B) None"
  let ?l = "l\<lparr>l_prev_level := ?p, l_next_level := ?c\<rparr>"
  let ?ar1 = "put_level lv ?l ar"
  note D = side_memD [OF mem]
  have L: "levels_of L = levels_of ?A @ levels_of ?B" by (simp flip: levels_of_simps(3))
  have dis: "distinct (levels_of ?A @ lv # levels_of ?B)" using D(1) lv(2) by (auto simp: L)
  have sub: "set_option ?p \<subseteq> set (levels_of ?A)" "set_option ?c \<subseteq> set (levels_of ?B)"
    by (auto simp: lastp_def firstp_def split: if_splits list.splits)
  have seek: "seek_level s px ar None (firstp (levels_of L) None) = Some (?p, ?c)"
    using seek_level_stop [OF D(2,5)] by blast
  have at1: "\<exists>l. level_at ?ar1 i l" if "i \<in> set (levels_of L)" for i
    using side_level [OF mem that] level_at_less [OF lv(1)] by auto
  have "?p = None \<or> (\<exists>p l. ?p = Some p \<and> level_at ?ar1 p l)"
    using sub(1) at1 L by (cases ?p) auto
  from upd_next_ok [OF this, of "Some lv"] obtain ar2 where ar2:
    "(case ?p of Some p \<Rightarrow> upd_level ?ar1 p (\<lambda>l. l\<lparr>l_next_level := Some lv\<rparr>) | None \<Rightarrow> Some ?ar1) = Some ar2"
    "lev ar2 = join_next level_set_next ?p (Some lv) (lev ?ar1)" "relinked ?ar1 ar2"
    "arena_frame {} (set_option ?p) ?ar1 ar2" by blast
  have at2: "\<exists>l. level_at ar2 i l" if "i \<in> set (levels_of L)" for i
    using at1 [OF that] relinked_level_at [OF ar2(3)] by blast
  have "?c = None \<or> (\<exists>p l. ?c = Some p \<and> level_at ar2 p l)"
    using sub(2) at2 L by (cases ?c) auto
  from upd_prev_ok [OF this, of "Some lv"] obtain ar3 where ar3:
    "(case ?c of Some p \<Rightarrow> upd_level ar2 p (\<lambda>l. l\<lparr>l_prev_level := Some lv\<rparr>) | None \<Rightarrow> Some ar2) = Some ar3"
    "lev ar3 = join_next level_set_prev ?c (Some lv) (lev ar2)" "relinked ar2 ar3"
    "arena_frame {} (set_option ?c) ar2 ar3" by blast
  have rel: "relinked ar ar3"
    using relinked_put(1) [OF lv(1)] ar2(3) ar3(3) relinked_trans by blast
  have price: "l_price_cents l = px" using level_rep_level [OF lv(3)] level_at_unique [OF lv(1)] by auto
  have eval: "insert_level_sorted b ar s lv = Some (if ?A = [] then set_best s (Some lv) b else b, ar3)"
  proof -
    have "(?p = None) = (?A = [])" by (auto simp: lastp_def levels_of_def)
    then show ?thesis
      using lv(1) seek ar2(1) ar3(1)
      by (simp add: insert_level_sorted_def exec_simps price best next_or_best)
  qed
  have "side_mem ar3 s (?A @ (lv, px, []) # ?B)"
  proof (rule side_memI)
    show "distinct (levels_of (?A @ (lv, px, []) # ?B))" using dis by simp
    show "sorted_wrt (better s) (prices_of (?A @ (lv, px, []) # ?B))"
      by (rule sorted_insert_level [OF D(3) px])
    have "dlinks l_next_level l_prev_level (lev ?ar1) None (levels_of ?A @ levels_of ?B) None"
      using D(2) lv(2) L by (simp del: dlinks_append)
    from level_node.links_insert [OF this dis, of ?l] level_at_less [OF lv(1)]
    show "dlinks l_next_level l_prev_level (lev ar3) None (levels_of (?A @ (lv, px, []) # ?B)) None"
      by (simp add: ar2(2) ar3(2))
    fix lv' px' os assume "(lv', px', os) \<in> set (?A @ (lv, px, []) # ?B)"
    moreover have "set ?A \<union> set ?B = set L" by (simp flip: set_append)
    ultimately have "(lv', px', os) = (lv, px, []) \<or> (lv', px', os) \<in> set L" by auto
    then have "level_rep ar s lv' px' os" using lv(3) D(5) by blast
    then show "level_rep ar3 s lv' px' os" using rel by (rule level_rep_relinked)
  qed
  moreover have "arena_frame {} (insert lv (set (levels_of L))) ar ?ar1"
    by (rule arena_frame_put_level) simp
  then have "arena_frame {} (insert lv (set (levels_of L))) ar ar2"
    by (rule arena_frame_trans) (rule arena_frame_mono [OF ar2(4)], use sub(1) L in auto)
  then have "arena_frame {} (insert lv (set (levels_of L))) ar ar3"
    by (rule arena_frame_trans) (rule arena_frame_mono [OF ar3(4)], use sub(2) L in auto)
  ultimately show ?thesis using eval rel by blast
qed

lemma set_best_best [simp]: "best s (set_best s q b) = q"
  by (simp add: best_def set_best_def)

lemma set_best_other [simp]: "t \<noteq> s \<Longrightarrow> best t (set_best s q b) = best t b"
  by (cases s; cases t) (simp_all add: best_def set_best_def)

lemma remove_level_from_list_ok:
  assumes mem: "side_mem ar s (A @ (lv, px, os) # B)"
  shows "\<exists>ar'. remove_level_from_list b ar s lv =
      Some (if A = [] then set_best s (firstp (levels_of B) None) b else b, ar') \<and>
      side_mem ar' s (A @ B) \<and> relinked ar ar' \<and>
      arena_frame {} (set (levels_of (A @ (lv, px, os) # B))) ar ar'"
proof -
  note D = side_memD [OF mem]
  let ?p = "lastp None (levels_of A)" and ?c = "firstp (levels_of B) None"
  have dis: "distinct (levels_of A @ lv # levels_of B)" using D(1) by simp
  have sub: "set_option ?p \<subseteq> set (levels_of A)" "set_option ?c \<subseteq> set (levels_of B)"
    by (auto simp: lastp_def firstp_def split: if_splits list.splits)
  have links: "dlinks l_next_level l_prev_level (lev ar) None (levels_of A @ lv # levels_of B) None"
    using D(2) by simp
  obtain l where l: "level_at ar lv l" using side_level [OF mem, of lv] by auto
  then have "lev ar lv = Obj l" by (simp add: level_at_def)
  from level_node.node_neighbours [OF links this] have nb: "l_prev_level l = ?p" "l_next_level l = ?c" .
  have at1: "\<exists>l. level_at ar i l" if "i \<in> set (levels_of A) \<union> set (levels_of B)" for i
    using side_level [OF mem, of i] that by auto
  then have "?p = None \<or> (\<exists>p l. ?p = Some p \<and> level_at ar p l)" using sub(1) by (cases ?p) auto
  from upd_next_ok [OF this, of ?c] obtain ar1 where ar1:
    "(case ?p of Some p \<Rightarrow> upd_level ar p (\<lambda>l. l\<lparr>l_next_level := ?c\<rparr>) | None \<Rightarrow> Some ar) = Some ar1"
    "lev ar1 = join_next level_set_next ?p ?c (lev ar)" "relinked ar ar1"
    "arena_frame {} (set_option ?p) ar ar1" by blast
  have l1: "level_at ar1 lv l" using l sub(1) dis by (subst level_at_frame [OF ar1(4)]) auto
  have at2: "\<exists>l. level_at ar1 i l" if "i \<in> set (levels_of A) \<union> set (levels_of B)" for i
    using at1 [OF that] relinked_level_at [OF ar1(3)] by blast
  then have "?c = None \<or> (\<exists>p l. ?c = Some p \<and> level_at ar1 p l)" using sub(2) by (cases ?c) auto
  from upd_prev_ok [OF this, of ?p] obtain ar2 where ar2:
    "(case ?c of Some p \<Rightarrow> upd_level ar1 p (\<lambda>l. l\<lparr>l_prev_level := ?p\<rparr>) | None \<Rightarrow> Some ar1) = Some ar2"
    "lev ar2 = join_next level_set_prev ?c ?p (lev ar1)" "relinked ar1 ar2"
    "arena_frame {} (set_option ?c) ar1 ar2" by blast
  have l2: "level_at ar2 lv l" using l1 sub(2) dis by (subst level_at_frame [OF ar2(4)]) auto
  let ?l3 = "l\<lparr>l_prev_level := None, l_next_level := None\<rparr>" let ?ar3 = "put_level lv ?l3 ar2"
  have rel: "relinked ar ?ar3"
    using ar1(3) ar2(3) relinked_put(1) [OF l2] relinked_trans by blast
  have nxt: "(case l_prev_level l of Some p \<Rightarrow> upd_level ar p (\<lambda>k. k\<lparr>l_next_level := l_next_level l\<rparr>)
      | None \<Rightarrow> Some ar) = Some ar1" using ar1(1) by (simp only: nb)
  have prv: "(case l_next_level l of Some n \<Rightarrow> upd_level ar1 n (\<lambda>k. k\<lparr>l_prev_level := l_prev_level l\<rparr>)
      | None \<Rightarrow> Some ar1) = Some ar2" using ar2(1) by (simp only: nb)
  have "remove_level_from_list b ar s lv =
      Some (if l_prev_level l = None then set_best s (l_next_level l) b else b, ?ar3)"
    using l l1 l2 nxt prv by (simp add: remove_level_from_list_def exec_simps next_or_best)
  moreover have "(l_prev_level l = None) = (A = [])" by (auto simp: nb lastp_def levels_of_def)
  ultimately have eval: "remove_level_from_list b ar s lv =
      Some (if A = [] then set_best s ?c b else b, ?ar3)" by (simp only: nb(2))
  have "side_mem ?ar3 s (A @ B)"
  proof (rule side_memI)
    show "distinct (levels_of (A @ B))" "sorted_wrt (better s) (prices_of (A @ B))"
      using D(1,3) by (simp_all add: sorted_wrt_append)
    from level_node.links_unlink [OF links dis] dis
    show "dlinks l_next_level l_prev_level (lev ?ar3) None (levels_of (A @ B)) None"
      by (simp add: ar1(2) ar2(2))
    fix lv' px' os' assume "(lv', px', os') \<in> set (A @ B)"
    then have "level_rep ar s lv' px' os'" by (intro D(5)) auto
    then show "level_rep ?ar3 s lv' px' os'" using rel by (rule level_rep_relinked)
  qed
  moreover have "arena_frame {} (set (levels_of (A @ (lv, px, os) # B))) ar ar1"
    by (rule arena_frame_mono [OF ar1(4)]) (use sub(1) in auto)
  then have "arena_frame {} (set (levels_of (A @ (lv, px, os) # B))) ar ar2"
    by (rule arena_frame_trans) (rule arena_frame_mono [OF ar2(4)], use sub(2) in auto)
  then have "arena_frame {} (set (levels_of (A @ (lv, px, os) # B))) ar ?ar3"
    by (rule arena_frame_trans) (rule arena_frame_put_level, simp)
  ultimately show ?thesis using eval rel by blast
qed

end
