(* ===== verification/Book_Ops.thy ===== *)
theory Book_Ops
  imports Book_Rep
begin

text \<open>
  The effect of \<open>add_order\<close>, \<open>execute_order\<close>, \<open>remove_order\<close>, \<open>for_each_order\<close> and
  \<open>clear_levels\<close> on a book: each runs without undefined behaviour, returns the code that
  the levels call for, keeps \<open>book_rep\<close> for the updated levels, keeps the level pool's
  ownership exact and writes no memory outside the book.
\<close>

section \<open>The index of a side\<close>

text \<open>Updates that concern side \<open>s\<close> only.\<close>

definition side_only :: "Side \<Rightarrow> OrderBook \<Rightarrow> OrderBook \<Rightarrow> bool" where
  "side_only s b b' \<longleftrightarrow> ob_live_order_count b' = ob_live_order_count b \<and>
     (\<forall>t. t \<noteq> s \<longrightarrow> best t b' = best t b \<and> book_map t b' = book_map t b \<and> book_count t b' = book_count t b)"

lemma find_level_map: "find_level b s = fhm_find kPriceLevelMapCapacity kEmptyPrice (book_map s b)"
  by (simp add: find_level_def book_map_def fun_eq_iff)

lemma side_only_refl [simp]: "side_only s b b"
  by (simp add: side_only_def)

lemma side_only_trans: "side_only s b b' \<Longrightarrow> side_only s b' b'' \<Longrightarrow> side_only s b b''"
  by (simp add: side_only_def)

lemma side_index_other: "side_only s b b' \<Longrightarrow> t \<noteq> s \<Longrightarrow> side_index t b' L = side_index t b L"
  by (simp add: side_only_def side_index_def find_level_map)

lemma side_only_set_best [simp]: "side_only s b (set_best s q b)"
  by (cases s) (auto simp: side_only_def set_best_def best_def book_map_def book_count_def)

lemma set_best_sel [simp]:
  "book_map t (set_best s q b) = book_map t b" "book_count t (set_best s q b) = book_count t b"
  by (simp_all add: set_best_def book_map_def book_count_def)

lemma live_count_sel [simp]:
  "best s (b\<lparr>ob_live_order_count := n\<rparr>) = best s b"
  "book_map s (b\<lparr>ob_live_order_count := n\<rparr>) = book_map s b"
  "book_count s (b\<lparr>ob_live_order_count := n\<rparr>) = book_count s b"
  by (simp_all add: best_def book_map_def book_count_def)

lemma book_sides_live [simp]: "book_sides ar (b\<lparr>ob_live_order_count := n\<rparr>) G = book_sides ar b G"
  by (simp add: book_sides_def side_index_def find_level_map)

lemma pow2_level_map [simp]: "pow2_size kPriceLevelMapCapacity"
  unfolding pow2_size_def kPriceLevelMapCapacity_def by (intro exI [of _ 13]) simp

interpretation level_probing: probing "unat kPriceLevelMapCapacity" "fhm_home kPriceLevelMapCapacity" kEmptyPrice
  by (rule fhm_probing [OF pow2_level_map])

lemma unat_level_map [simp]: "unat kPriceLevelMapCapacity = 8192"
  by (simp add: kPriceLevelMapCapacity_def)

lemma room_levels:
  assumes "fhm_ok kPriceLevelMapCapacity kEmptyPrice m" "distinct (prices_of L)" "length L < 8192"
    and "fhm_find kPriceLevelMapCapacity kEmptyPrice m = level_map L"
  shows "fhm_room kPriceLevelMapCapacity kEmptyPrice m"
  using card_dom_find [OF assms(1)] card_level_map [OF assms(2)] assms(3,4) by (simp add: fhm_room_def)

lemma insert_level_into_map_ok:
  assumes ok: "fhm_ok kPriceLevelMapCapacity kEmptyPrice (book_map s b)"
    and find: "find_level b s = level_map (A @ B)" and count: "book_count s b = of_nat (length (A @ B))"
    and dis: "distinct (prices_of (A @ (lv, px, os) # B))" and px: "px \<noteq> kEmptyPrice"
    and room: "length (A @ B) < 8192" and l: "level_at ar lv l" "l_price_cents l = px"
  shows "\<exists>b'. insert_level_into_map b ar s lv = Some b' \<and> side_only s b b' \<and> best s b' = best s b \<and>
     fhm_ok kPriceLevelMapCapacity kEmptyPrice (book_map s b') \<and>
     find_level b' s = level_map (A @ (lv, px, os) # B) \<and>
     book_count s b' = of_nat (length (A @ (lv, px, os) # B))"
proof -
  have dis': "distinct (prices_of (A @ B))" and absent: "level_map (A @ B) px = None"
    using dis by (simp_all add: level_map_None)
  have find': "fhm_find kPriceLevelMapCapacity kEmptyPrice (book_map s b) = level_map (A @ B)"
    using find by (simp add: find_level_map)
  from fhm.ins_fresh [OF ok px, of lv] absent room_levels [OF ok dis' room find'] obtain m where m:
    "fhm_insert kPriceLevelMapCapacity kEmptyPrice (book_map s b) px (Some lv) = (True, m)"
    "fhm_ok kPriceLevelMapCapacity kEmptyPrice m"
    "fhm_find kPriceLevelMapCapacity kEmptyPrice m = (level_map (A @ B))(px \<mapsto> lv)"
    by (auto simp: find')
  show ?thesis
  proof (cases s)
    case Buy
    with m l count show ?thesis
      by (simp add: insert_level_into_map_def exec_simps book_map_def book_count_def best_def
        side_only_def find_level_map level_map_split(1) [OF dis] add.commute del: level_map_simps)
  next
    case Sell
    with m l count show ?thesis
      by (simp add: insert_level_into_map_def exec_simps book_map_def book_count_def best_def
        side_only_def find_level_map level_map_split(1) [OF dis] add.commute del: level_map_simps)
  qed
qed

lemma erase_level_from_map_ok:
  assumes ok: "fhm_ok kPriceLevelMapCapacity kEmptyPrice (book_map s b)"
    and find: "find_level b s = level_map (A @ (lv, px, os) # B)"
    and count: "book_count s b = of_nat (length (A @ (lv, px, os) # B))"
    and dis: "distinct (prices_of (A @ (lv, px, os) # B))" and l: "level_at ar lv l" "l_price_cents l = px"
  shows "\<exists>b'. erase_level_from_map b ar s lv = Some b' \<and> side_only s b b' \<and> best s b' = best s b \<and>
     fhm_ok kPriceLevelMapCapacity kEmptyPrice (book_map s b') \<and>
     find_level b' s = level_map (A @ B) \<and> book_count s b' = of_nat (length (A @ B))"
proof -
  have find': "fhm_find kPriceLevelMapCapacity kEmptyPrice (book_map s b)
      = level_map (A @ (lv, px, os) # B)" using find by (simp add: find_level_map)
  from fhm.del_key [OF ok, of px] obtain m where m:
    "fhm_erase kPriceLevelMapCapacity kEmptyPrice (book_map s b) px = Some m"
    "fhm_ok kPriceLevelMapCapacity kEmptyPrice m"
    "fhm_find kPriceLevelMapCapacity kEmptyPrice m = level_map (A @ B)"
    by (metis find' level_map_split(2) [OF dis])
  show ?thesis
  proof (cases s)
    case Buy
    with m l count show ?thesis
      by (simp add: erase_level_from_map_def exec_simps book_map_def book_count_def best_def
        side_only_def find_level_map del: level_map_simps)
  next
    case Sell
    with m l count show ?thesis
      by (simp add: erase_level_from_map_def exec_simps book_map_def book_count_def best_def
        side_only_def find_level_map del: level_map_simps)
  qed
qed

section \<open>Putting a side back into its book\<close>

lemma book_sidesD:
  "book_sides ar b G \<Longrightarrow> side_mem ar s (G s)" "book_sides ar b G \<Longrightarrow> side_index s b (G s)"
  by (simp_all add: book_sides_def)

lemma side_subset:
  "set (orders_of (G s)) \<subseteq> book_orders G" "set (levels_of (G s)) \<subseteq> book_levels G"
  by (cases s; auto simp: book_orders_def book_levels_def)+

text \<open>Only side \<open>s\<close> changed, in the index and in memory.\<close>

lemma book_sides_side:
  assumes sides: "book_sides ar b G" and only: "side_only s b b'"
    and frame: "arena_frame Os Ls ar ar'"
    and apart: "Os \<inter> set (orders_of (G t)) = {}" "Ls \<inter> set (levels_of (G t)) = {}" "t \<noteq> s"
    and s: "side_mem ar' s L" "side_index s b' L"
  shows "book_sides ar' b' (G(s := L))"
proof -
  have "side_mem ar' t (G t)"
    using book_sidesD(1) [OF sides] same_on_frame [OF frame apart(1,2)] by (rule side_mem_same)
  moreover have "side_index t b' (G t)"
    using book_sidesD(2) [OF sides] side_index_other [OF only apart(3)] by simp
  ultimately have "side_mem ar' u ((G(s := L)) u) \<and> side_index u b' ((G(s := L)) u)" for u
  proof (cases "u = s")
    case False
    then have "u = t" using apart(3) by (cases u; cases s; cases t) auto
    then show ?thesis using apart(3) \<open>side_mem ar' t (G t)\<close> \<open>side_index t b' (G t)\<close> by simp
  qed (use s in simp)
  then show ?thesis by (simp add: book_sides_def)
qed

lemma other_side: "\<exists>t. t \<noteq> (s :: Side)"
  by (cases s) auto

definition keep_level :: "nat \<Rightarrow> Price \<Rightarrow> nat list \<Rightarrow> levels" where
  "keep_level lv px os = (if os = [] then [] else [(lv, px, os)])"

lemma keep_level_simps [simp]:
  "keep_level lv px [] = []" "os \<noteq> [] \<Longrightarrow> keep_level lv px os = [(lv, px, os)]"
  by (simp_all add: keep_level_def)

lemma orders_of_keep [simp]: "orders_of (keep_level lv px os) = os"
  by (cases "os = []") simp_all

lemma no_empty_keep [simp]: "no_empty (keep_level lv px os)"
  by (cases "os = []") simp_all

lemma level_count_zero:
  "length os < 2 ^ 32 \<Longrightarrow> (of_nat (length os) :: u32) = 0 \<longleftrightarrow> os = []"
  by (auto simp: word_of_nat_eq_0_iff dest: dvd_imp_le)

section \<open>Dropping an empty level\<close>

lemma release_level_ok:
  assumes "owned (ar_levels ar) U" "lv \<in> U"
  shows "\<exists>ar'. release_level ar lv = Some ar' \<and> owned (ar_levels ar') (U - {lv}) \<and>
    arena_frame {} {lv} ar ar'"
proof -
  from pool.rel_slot [OF assms] obtain p where "release (ar_levels ar) (Some lv) = Some p"
    "owned p (U - {lv})" "mp_capacity p = mp_capacity (ar_levels ar)"
    "\<forall>m. m \<noteq> lv \<longrightarrow> mp_storage p m = lev ar m" by blast
  then show ?thesis by (simp add: release_level_def arena_frame_def)
qed

lemma drop_empty_level:
  assumes sides: "book_sides ar b G" and G: "G s = A @ (lv, px, []) # B"
    and own: "owned (ar_levels ar) U" "book_levels G \<subseteq> U" and l: "level_at ar lv l" "l_price_cents l = px"
  shows "\<exists>b1 ar1 b' ar'. remove_level_from_list b ar s lv = Some (b1, ar1) \<and>
    erase_level_from_map b1 ar1 s lv = Some b' \<and> release_level ar1 lv = Some ar' \<and>
    book_sides ar' b' (G(s := A @ B)) \<and> ob_live_order_count b' = ob_live_order_count b \<and>
    owned (ar_levels ar') (U - {lv}) \<and> arena_frame {} (book_levels G) ar ar'"
proof -
  have mem: "side_mem ar s (A @ (lv, px, []) # B)" and idx: "side_index s b (A @ (lv, px, []) # B)"
    using book_sidesD [OF sides, of s] by (simp_all add: G)
  note D = side_memD [OF mem]
  have sub: "set (levels_of (A @ (lv, px, []) # B)) \<subseteq> book_levels G" using side_subset(2) [of G s] G by simp
  let ?b1 = "if A = [] then set_best s (firstp (levels_of B) None) b else b"
  from remove_level_from_list_ok [OF mem] obtain ar1 where ar1:
    "remove_level_from_list b ar s lv = Some (?b1, ar1)" "side_mem ar1 s (A @ B)" "relinked ar ar1"
    "arena_frame {} (set (levels_of (A @ (lv, px, []) # B))) ar ar1" by blast
  have best: "best s ?b1 = firstp (levels_of (A @ B)) None"
    using idx by (cases A) (auto simp: side_index_def)
  have only1: "side_only s b ?b1" by simp
  obtain l1 where l1: "level_at ar1 lv l1" "l_price_cents l1 = px"
    using ar1(3) l unfolding relinked_def by fastforce
  have "fhm_ok kPriceLevelMapCapacity kEmptyPrice (book_map s ?b1)"
    "find_level ?b1 s = level_map (A @ (lv, px, []) # B)"
    "book_count s ?b1 = of_nat (length (A @ (lv, px, []) # B))"
    using idx by (simp_all add: side_index_def find_level_map)
  from erase_level_from_map_ok [OF this D(4) l1] obtain b' where b':
    "erase_level_from_map ?b1 ar1 s lv = Some b'" "side_only s ?b1 b'" "best s b' = best s ?b1"
    "fhm_ok kPriceLevelMapCapacity kEmptyPrice (book_map s b')" "find_level b' s = level_map (A @ B)"
    "book_count s b' = of_nat (length (A @ B))" by blast
  have own1: "owned (ar_levels ar1) U"
    using ar1(3) sub own by (intro owned_levels_frame [OF own(1) ar1(4)]) (auto simp: relinked_def)
  have "lv \<in> U" using sub own(2) by auto
  from release_level_ok [OF own1 this] obtain ar' where ar': "release_level ar1 lv = Some ar'"
    "owned (ar_levels ar') (U - {lv})" "arena_frame {} {lv} ar1 ar'" by blast
  have frame: "arena_frame {} (set (levels_of (A @ (lv, px, []) # B))) ar ar'"
    using ar1(4) by (rule arena_frame_trans) (rule arena_frame_mono [OF ar'(3)], auto)
  have "side_mem ar' s (A @ B)"
    using ar1(2) by (rule side_mem_same) (rule same_on_frame [OF ar'(3)], use D(1) in auto)
  moreover have "side_index s b' (A @ B)" using b' best by (simp add: side_index_def)
  moreover have only: "side_only s b b'" using only1 b'(2) by (rule side_only_trans)
  moreover obtain t where t: "t \<noteq> s" using other_side by blast
  moreover have "set (levels_of (A @ (lv, px, []) # B)) \<inter> set (levels_of (G t)) = {}"
    using sides_disjoint(2) [OF mem book_sidesD(1) [OF sides, of t]] t by auto
  ultimately have "book_sides ar' b' (G(s := A @ B))"
    using book_sides_side [OF sides only frame] by blast
  moreover have "arena_frame {} (book_levels G) ar ar'" by (rule arena_frame_mono [OF frame _ sub]) simp
  moreover have "ob_live_order_count b' = ob_live_order_count b" using only by (simp add: side_only_def)
  ultimately show ?thesis using ar1(1) b'(1) ar'(1,2) by blast
qed

lemma drop_if_empty_ok:
  assumes sides: "book_sides ar b G" and G: "G s = A @ (lv, px, os) # B"
    and own: "owned (ar_levels ar) U" "book_levels G \<subseteq> U" and len: "length os < 2 ^ 32"
  shows "\<exists>b' ar'. drop_if_empty b ar s lv = Some (if os = [] then 2 else 1, b', ar') \<and>
    book_sides ar' b' (G(s := A @ keep_level lv px os @ B)) \<and>
    ob_live_order_count b' = ob_live_order_count b \<and>
    owned (ar_levels ar') (if os = [] then U - {lv} else U) \<and> arena_frame {} (book_levels G) ar ar'"
proof -
  have "level_rep ar s lv px os" using book_sidesD(1) [OF sides, of s] G by (intro side_memD(5)) auto
  then obtain l where l: "level_at ar lv l" "l_price_cents l = px" "l_order_count l = of_nat (length os)"
    unfolding level_rep_def level_list_def by blast
  have empty: "level_empty l \<longleftrightarrow> os = []" using l(3) level_count_zero [OF len] by (simp add: level_empty_def)
  show ?thesis
  proof (cases "os = []")
    case True
    with drop_empty_level [OF sides _ own l(1,2), of s A B] G l(1) empty show ?thesis
      by (auto simp: drop_if_empty_def exec_simps)
  next
    case False
    with sides G own(1) l(1) empty show ?thesis
      by (simp add: drop_if_empty_def exec_simps fun_upd_idem)
  qed
qed

section \<open>A step inside one level of the book\<close>

lemma find_level_present:
  assumes "book_sides ar b G" "G s = A @ (lv, px, os) # B"
  shows "find_level b s px = Some lv"
  using level_map_in [OF side_memD(4) [OF book_sidesD(1) [OF assms(1)]], of lv px os s] assms
    book_sidesD(2) [OF assms(1), of s] by (simp add: side_index_def)

lemma find_level_absent:
  assumes "book_sides ar b G" "px \<notin> set (prices_of (G s))"
  shows "find_level b s px = None"
  using book_sidesD(2) [OF assms(1), of s] assms(2) by (simp add: side_index_def level_map_None)

lemma book_sides_level:
  assumes sides: "book_sides ar b G" and G: "G s = A @ (lv, px, os) # B"
    and frame: "arena_frame Os {lv} ar ar'" and Os: "Os \<subseteq> insert i (set os)"
    and i: "i \<in> set os \<or> i \<notin> book_orders G"
    and place: "place_kept lv ar ar'" and rep: "level_rep ar' s lv px os'"
  shows "book_sides ar' b (G(s := A @ (lv, px, os') # B))"
proof -
  have mem: "side_mem ar s (A @ (lv, px, os) # B)" and idx: "side_index s b (A @ (lv, px, os) # B)"
    using book_sidesD [OF sides, of s] by (simp_all add: G)
  have "set os \<inter> set (orders_of A @ orders_of B) = {}" using side_order_unique [OF mem] by auto
  moreover have "set (orders_of A @ orders_of B) \<subseteq> book_orders G" using side_subset(1) [of G s] G by auto
  ultimately have "Os \<inter> set (orders_of A @ orders_of B) = {}" using Os i by blast
  from side_mem_level [OF mem frame this place rep]
  have new: "side_mem ar' s (A @ (lv, px, os') # B)" .
  obtain t where t: "t \<noteq> s" using other_side by blast
  note dis = sides_disjoint [OF mem book_sidesD(1) [OF sides, of t] t [symmetric]]
  have "Os \<inter> set (orders_of (G t)) = {}" using dis(1) Os i side_subset(1) [of G t] by auto
  moreover have "{lv} \<inter> set (levels_of (G t)) = {}" using dis(2) by auto
  moreover have "side_index s b (A @ (lv, px, os') # B)" using idx by (simp add: side_index_def)
  ultimately show ?thesis by (rule book_sides_side [OF sides side_only_refl frame _ _ t new])
qed

definition book_size :: "(Side \<Rightarrow> levels) \<Rightarrow> nat" where
  "book_size G = length (orders_of (G Buy)) + length (orders_of (G Sell))"

lemma book_size_upd:
  "book_size (G(s := L)) + length (orders_of (G s)) = book_size G + length (orders_of L)"
  by (cases s) (simp_all add: book_size_def)

lemma book_rep_iff:
  "book_rep ar b G \<longleftrightarrow> book_sides ar b G \<and> (\<forall>s. no_empty (G s)) \<and>
     ob_live_order_count b = of_nat (book_size G)"
  by (simp add: book_rep_def book_size_def)

lemma book_rep_side: "book_rep ar b G \<Longrightarrow> side_mem ar s (G s)"
  using book_sidesD(1) [of ar b G s] by (simp add: book_rep_iff)

lemma no_empty_upd: "\<forall>t. no_empty (G t) \<Longrightarrow> no_empty L \<Longrightarrow> \<forall>t. no_empty ((G(s := L)) t)"
  by simp

lemma book_level_in: "G s = A @ (lv, px, os) # B \<Longrightarrow> lv \<in> book_levels G \<and> set os \<subseteq> book_orders G"
  using side_subset [of G s] by auto

section \<open>Adding an order\<close>

lemma append_order:
  assumes sides: "book_sides ar b G" and G: "G s = A @ (lv, px, os) # B"
    and i: "order_at ar i x" "i \<notin> book_orders G" and x: "o_price_cents x = px" "o_side x = s"
  shows "\<exists>ar'. push_back ar lv i = Some ar' \<and> book_sides ar' b (G(s := A @ (lv, px, os @ [i]) # B)) \<and>
    mp_head (ar_levels ar') = mp_head (ar_levels ar) \<and>
    arena_frame (insert i (book_orders G)) (book_levels G) ar ar' \<and> data_kept ar ar'"
proof -
  have rep: "level_rep ar s lv px os" using book_sidesD(1) [OF sides, of s] G by (intro side_memD(5)) auto
  have "i \<notin> set os" using i(2) book_level_in [of G s A lv px os B, OF G] by blast
  from push_back_ok [OF rep i(1) this x] obtain ar' where ar': "push_back ar lv i = Some ar'"
    "level_rep ar' s lv px (os @ [i])" "arena_frame (insert i (set os)) {lv} ar ar'"
    "data_kept ar ar'" "place_kept lv ar ar'" by blast
  from book_sides_level [OF sides G ar'(3) subset_refl _ ar'(5,2)] i(2)
  have "book_sides ar' b (G(s := A @ (lv, px, os @ [i]) # B))" by blast
  moreover have "arena_frame (insert i (book_orders G)) (book_levels G) ar ar'"
    using book_level_in [of G s A lv px os B, OF G] by (intro arena_frame_mono [OF ar'(3)]) auto
  ultimately show ?thesis using ar' by (auto simp: place_kept_def)
qed

lemma add_order_existing:
  assumes rep: "book_rep ar b G" and G: "G s = A @ (lv, px, os) # B"
    and i: "order_at ar i x" "i \<notin> book_orders G" and x: "o_price_cents x = px" "o_side x = s"
    and own: "owned (ar_levels ar) U" "book_levels G \<subseteq> U"
  shows "\<exists>b' ar'. add_order b ar i = Some (1, b', ar') \<and>
    book_rep ar' b' (G(s := A @ (lv, px, os @ [i]) # B)) \<and> owned (ar_levels ar') U \<and>
    arena_frame (insert i (book_orders G)) (book_levels G) ar ar' \<and> data_kept ar ar'"
proof -
  let ?b = "b\<lparr>ob_live_order_count := ob_live_order_count b + 1\<rparr>"
  have sides: "book_sides ar b G" and ne: "\<forall>s. no_empty (G s)"
    and live: "ob_live_order_count b = of_nat (book_size G)" using rep by (simp_all add: book_rep_iff)
  from append_order [OF sides G i x] obtain ar' where ar': "push_back ar lv i = Some ar'"
    "book_sides ar' b (G(s := A @ (lv, px, os @ [i]) # B))"
    "mp_head (ar_levels ar') = mp_head (ar_levels ar)"
    "arena_frame (insert i (book_orders G)) (book_levels G) ar ar'" "data_kept ar ar'" by blast
  have "book_size (G(s := A @ (lv, px, os @ [i]) # B)) = Suc (book_size G)"
    using book_size_upd [of G s "A @ (lv, px, os @ [i]) # B"] G by simp
  moreover have "no_empty (A @ (lv, px, os @ [i]) # B)" using ne [rule_format, of s] G by simp
  ultimately have "book_rep ar' ?b (G(s := A @ (lv, px, os @ [i]) # B))"
    using ar'(2) no_empty_upd [OF ne] live by (simp add: book_rep_iff add.commute)
  moreover have "owned (ar_levels ar') U" by (rule owned_levels_frame [OF own(1) ar'(4) own(2) ar'(3)])
  moreover have "add_order b ar i = Some (1, ?b, ar')"
    using i(1) x find_level_present [OF sides G] ar'(1) by (simp add: add_order_def exec_simps)
  ultimately show ?thesis using ar'(4,5) by blast
qed

lemma add_order_exhausted:
  assumes sides: "book_sides ar b G" and i: "order_at ar i x"
    and px: "o_price_cents x \<notin> set (prices_of (G (o_side x)))"
    and own: "owned (ar_levels ar) U" "card U = mp_capacity (ar_levels ar)"
  shows "add_order b ar i = Some (0, b, ar)"
  using i find_level_absent [OF sides px] pool.acq_full [OF own]
  by (simp add: add_order_def exec_simps acquire_level_def)

text \<open>A level slot that was just acquired and initialised.\<close>

lemma fresh_level:
  assumes own: "owned (ar_levels ar) U" "card U < mp_capacity (ar_levels ar)"
  shows "\<exists>lv ar1 ar2 ar3 l. acquire_level ar = Some (Some lv, ar1) \<and>
    construct_level ar1 lv PriceLevel_init = Some ar2 \<and> upd_level ar2 lv (reset px s) = Some ar3 \<and>
    lv \<notin> U \<and> owned (ar_levels ar3) (insert lv U) \<and> arena_frame {} {lv} ar ar3 \<and>
    level_at ar3 lv l \<and> level_rep ar3 s lv px []"
proof -
  from pool.acq_slot [OF own] obtain lv p where p: "acquire (ar_levels ar) = Some (Some lv, p)"
    "owned p (insert lv U)" "lv \<notin> U" "mp_capacity p = mp_capacity (ar_levels ar)"
    "mp_storage p = lev ar" by blast
  let ?ar1 = "ar\<lparr>ar_levels := p\<rparr>" let ?ar2 = "put_level lv PriceLevel_init ?ar1"
  let ?l = "reset px s PriceLevel_init" let ?ar3 = "put_level lv ?l ?ar2"
  have less: "lv < mp_capacity p" using p(2) by (rule owned_less) simp
  have "construct_level ?ar1 lv PriceLevel_init = Some ?ar2"
    using less by (simp add: construct_level_def exec_simps put_level_def)
  moreover have "upd_level ?ar2 lv (reset px s) = Some ?ar3"
    using less by (intro arena_eval) (simp add: level_at_def)
  moreover have frame: "arena_frame {} {lv} ?ar1 ?ar3" by (simp add: arena_frame_def)
  then have "owned (ar_levels ?ar3) (insert lv U)" using p(2) by (intro owned_levels_frame [OF _ frame]) simp_all
  moreover have "arena_frame {} {lv} ar ?ar3" using p(4,5) by (simp add: arena_frame_def)
  moreover have l: "level_at ?ar3 lv ?l" using less by (simp add: level_at_def)
  moreover have "level_list ?ar3 s lv px []"
    by (rule level_listI [OF l]) (simp_all add: reset_def)
  then have "level_rep ?ar3 s lv px []" by (intro level_repI [OF l]) (simp_all add: reset_def)
  moreover have "acquire_level ar = Some (Some lv, ?ar1)" by (simp add: acquire_level_def p(1))
  ultimately show ?thesis using p(3) by blast
qed

lemma book_sides_same:
  assumes sides: "book_sides ar b G" and same: "same_on (book_orders G) (book_levels G) ar ar'"
  shows "book_sides ar' b G"
proof -
  have "side_mem ar' s (G s)" for s
    using book_sidesD(1) [OF sides] same_on_mono [OF same side_subset] by (rule side_mem_same)
  then show ?thesis using sides by (simp add: book_sides_def)
qed

lemma add_order_new:
  assumes rep: "book_rep ar b G" and i: "order_at ar i x" "i \<notin> book_orders G"
    and x: "o_price_cents x = px" "o_side x = s"
    and px: "px \<notin> set (prices_of (G s))" "px \<noteq> kEmptyPrice" and room: "length (G s) < 8192"
    and own: "owned (ar_levels ar) U" "book_levels G \<subseteq> U" "card U < mp_capacity (ar_levels ar)"
  shows "\<exists>lv b' ar'. add_order b ar i = Some (2, b', ar') \<and> lv \<notin> U \<and>
    book_rep ar' b' (G(s := ahead s px (G s) @ (lv, px, [i]) # behind s px (G s))) \<and>
    owned (ar_levels ar') (insert lv U) \<and>
    arena_frame (insert i (book_orders G)) (insert lv (book_levels G)) ar ar' \<and> data_kept ar ar'"
proof -
  have sides: "book_sides ar b G" and ne: "\<forall>s. no_empty (G s)"
    and live: "ob_live_order_count b = of_nat (book_size G)" using rep by (simp_all add: book_rep_iff)
  let ?A = "ahead s px (G s)" and ?B = "behind s px (G s)"
  from fresh_level [OF own(1,3)] obtain lv ar1 ar2 ar3 l where fresh:
    "acquire_level ar = Some (Some lv, ar1)" "construct_level ar1 lv PriceLevel_init = Some ar2"
    "upd_level ar2 lv (reset px s) = Some ar3" "lv \<notin> U" "owned (ar_levels ar3) (insert lv U)"
    "arena_frame {} {lv} ar ar3" "level_at ar3 lv l" "level_rep ar3 s lv px []" by blast
  have lv: "lv \<notin> book_levels G" using fresh(4) own(2) by blast
  have sides3: "book_sides ar3 b G"
    using sides by (rule book_sides_same) (rule same_on_frame [OF fresh(6)], use lv in auto)
  have mem3: "side_mem ar3 s (G s)" and idx: "side_index s b (G s)" using book_sidesD [OF sides3] by auto
  have best: "best s b = firstp (levels_of (G s)) None" using idx by (simp add: side_index_def)
  have lv_s: "lv \<notin> set (levels_of (G s))" using lv side_subset(2) by blast
  let ?b1 = "if ?A = [] then set_best s (Some lv) b else b"
  from insert_level_sorted_ok [OF mem3 best fresh(7) lv_s fresh(8) px(1)] obtain ar4 where ar4:
    "insert_level_sorted b ar3 s lv = Some (?b1, ar4)" "side_mem ar4 s (?A @ (lv, px, []) # ?B)"
    "relinked ar3 ar4" "arena_frame {} (insert lv (set (levels_of (G s)))) ar3 ar4" by blast
  have "level_rep ar4 s lv px []" by (rule side_memD(5) [OF ar4(2)]) simp
  then obtain l4 where l4: "level_at ar4 lv l4" "l_price_cents l4 = px"
    using level_rep_level by blast
  have "fhm_ok kPriceLevelMapCapacity kEmptyPrice (book_map s ?b1)"
    "find_level ?b1 s = level_map (?A @ ?B)" "book_count s ?b1 = of_nat (length (?A @ ?B))"
    using idx by (simp_all add: side_index_def find_level_map del: level_map_simps length_append)
  from insert_level_into_map_ok [OF this side_memD(4) [OF ar4(2)] px(2) _ l4] room obtain b2 where b2:
    "insert_level_into_map ?b1 ar4 s lv = Some b2" "side_only s ?b1 b2" "best s b2 = best s ?b1"
    "fhm_ok kPriceLevelMapCapacity kEmptyPrice (book_map s b2)"
    "find_level b2 s = level_map (?A @ (lv, px, []) # ?B)"
    "book_count s b2 = of_nat (length (?A @ (lv, px, []) # ?B))"
    by (simp only: ahead_behind) blast
  have best2: "best s b2 = firstp (levels_of (?A @ (lv, px, []) # ?B)) None"
  proof (cases "?A = []")
    case False
    then have "firstp (levels_of (?A @ C)) None = firstp (levels_of ?A) None" for C by (cases ?A) simp_all
    then have "firstp (levels_of (?A @ (lv, px, []) # ?B)) None = firstp (levels_of (?A @ ?B)) None" by metis
    with False show ?thesis using b2(3) best by (simp only: ahead_behind if_False)
  qed (simp add: b2(3))
  obtain t where t: "t \<noteq> s" using other_side by blast
  have only: "side_only s b b2" using side_only_trans [OF _ b2(2)] by simp
  have "insert lv (set (levels_of (G s))) \<inter> set (levels_of (G t)) = {}"
    using sides_disjoint(2) [OF mem3 book_sidesD(1) [OF sides3, of t] t [symmetric]] lv side_subset(2) [of G t]
    by auto
  then have sides4: "book_sides ar4 b2 (G(s := ?A @ (lv, px, []) # ?B))"
    using b2 best2 by (intro book_sides_side [OF sides3 only ar4(4) _ _ t ar4(2)]) (simp_all add: side_index_def)
  have frame4: "arena_frame {} (insert lv (book_levels G)) ar ar4"
    by (rule arena_frame_trans [OF arena_frame_mono [OF fresh(6)] arena_frame_mono [OF ar4(4)]])
      (use side_subset(2) [of G s] in auto)
  have i4: "order_at ar4 i x" using i(1) order_at_frame [OF frame4] by simp
  have ords: "book_orders (G(s := ?A @ (lv, px, []) # ?B)) = book_orders G"
  proof -
    have "orders_of (?A @ (lv, px, []) # ?B) = orders_of (G s)" by (simp add: ahead_behind_of)
    then show ?thesis by (cases s) (simp_all add: book_orders_def del: orders_of_simps)
  qed
  let ?G1 = "G(s := ?A @ (lv, px, []) # ?B)" let ?G2 = "G(s := ?A @ (lv, px, [i]) # ?B)"
  have "i \<notin> book_orders ?G1" using ords i(2) by simp
  from append_order [OF sides4 _ i4 this x, of ?A lv "[]" ?B] obtain ar' where ar':
    "push_back ar4 lv i = Some ar'" "book_sides ar' b2 (?G1(s := ?A @ (lv, px, [i]) # ?B))"
    "mp_head (ar_levels ar') = mp_head (ar_levels ar4)"
    "arena_frame (insert i (book_orders ?G1)) (book_levels ?G1) ar4 ar'" "data_kept ar4 ar'" by auto
  let ?b = "b2\<lparr>ob_live_order_count := ob_live_order_count b2 + 1\<rparr>"
  have lvls: "book_levels ?G1 = insert lv (book_levels G)"
  proof -
    have "set (levels_of (?A @ (lv, px, []) # ?B)) = insert lv (set (levels_of ?A @ levels_of ?B))" by auto
    then have "set (levels_of (?A @ (lv, px, []) # ?B)) = insert lv (set (levels_of (G s)))"
      by (simp only: ahead_behind_of)
    then show ?thesis by (cases s) (simp_all add: book_levels_def del: levels_of_simps)
  qed
  have frame: "arena_frame (insert i (book_orders G)) (insert lv (book_levels G)) ar ar'"
    using arena_frame_trans [OF arena_frame_mono [OF frame4] ar'(4) [unfolded ords lvls]] by simp
  have "orders_of (?A @ (lv, px, [i]) # ?B) = orders_of ?A @ i # orders_of ?B" by simp
  moreover have "length (orders_of ?A) + length (orders_of ?B) = length (orders_of (G s))"
    by (simp flip: length_append add: ahead_behind_of)
  ultimately have "book_size ?G2 = Suc (book_size G)"
    using book_size_upd [of G s "?A @ (lv, px, [i]) # ?B"] by simp
  moreover have "no_empty (?A @ (lv, px, [i]) # ?B)"
  proof -
    have "no_empty ?A" "no_empty ?B" using ne by (metis ahead_behind no_empty_simps(3))+
    then show ?thesis by simp
  qed
  moreover have "ob_live_order_count b2 = ob_live_order_count b" using only by (simp add: side_only_def)
  ultimately have rep': "book_rep ar' ?b ?G2"
    using ar'(2) no_empty_upd [OF ne] live by (simp add: book_rep_iff add.commute)
  have "mp_head (ar_levels ar') = mp_head (ar_levels ar3)"
    using ar'(3) ar4(3) by (simp add: relinked_def)
  moreover have "arena_frame (insert i (book_orders G)) (insert lv (book_levels G)) ar3 ar'"
    using side_subset(2) [of G s]
    by (intro arena_frame_trans [OF arena_frame_mono [OF ar4(4)] ar'(4) [unfolded ords lvls]]) auto
  ultimately have "owned (ar_levels ar') (insert lv U)"
    using own(2) by (intro owned_levels_frame [OF fresh(5)]) auto
  moreover have "data_kept ar ar'"
  proof -
    have "data_kept ar ar4" using order_at_frame [OF frame4] by (auto simp: data_kept_def)
    then show ?thesis using ar'(5) by (rule data_kept_trans)
  qed
  moreover have "add_order b ar i = Some (2, ?b, ar')"
    using i(1) x find_level_absent [OF sides px(1)] fresh(1-3) ar4(1) b2(1) ar'(1)
    by (simp add: add_order_def exec_simps)
  ultimately show ?thesis using frame fresh(4) rep' by blast
qed

section \<open>Removing and filling an order\<close>

text \<open>The list of an order with its neighbours, and the length of a level's list.\<close>

lemma level_length:
  assumes "level_rep ar s lv px os" "mp_capacity (ar_orders ar) < 2 ^ 32"
  shows "length os < 2 ^ 32"
proof -
  have "set os \<subseteq> {..<mp_capacity (ar_orders ar)}"
    using level_rep_order [OF assms(1)] order_at_less by blast
  then have "card (set os) \<le> mp_capacity (ar_orders ar)" using card_mono [of "{..<mp_capacity (ar_orders ar)}"] by simp
  then show ?thesis using distinct_card [OF level_rep_distinct [OF assms(1)]] assms(2) by simp
qed

text \<open>After the order left the level's list, the rest of both operations is the same.\<close>

lemma after_unlink:
  assumes rep: "book_rep ar0 b G" and G: "G s = A @ (lv, px, xs @ i # ys) # B"
    and sides: "book_sides ar b (G(s := A @ (lv, px, xs @ ys) # B))"
    and own: "owned (ar_levels ar) U" "book_levels G \<subseteq> U" and cap: "mp_capacity (ar_orders ar) < 2 ^ 32"
  shows "\<exists>b' ar'. drop_if_empty (b\<lparr>ob_live_order_count := ob_live_order_count b - 1\<rparr>) ar s lv =
      Some (if xs @ ys = [] then 2 else 1, b', ar') \<and>
    book_rep ar' b' (G(s := A @ keep_level lv px (xs @ ys) @ B)) \<and>
    owned (ar_levels ar') (if xs @ ys = [] then U - {lv} else U) \<and>
    arena_frame {} (book_levels G) ar ar'"
proof -
  let ?b = "b\<lparr>ob_live_order_count := ob_live_order_count b - 1\<rparr>"
  let ?G1 = "G(s := A @ (lv, px, xs @ ys) # B)"
  have G1: "?G1 s = A @ (lv, px, xs @ ys) # B" by simp
  have ne: "\<forall>s. no_empty (G s)" and live: "ob_live_order_count b = of_nat (book_size G)"
    using rep by (simp_all add: book_rep_iff)
  have lvls: "book_levels ?G1 = book_levels G" by (cases s) (use G in \<open>simp_all add: book_levels_def\<close>)
  have "level_rep ar s lv px (xs @ ys)"
    using book_sidesD(1) [OF sides, of s] by (intro side_memD(5)) auto
  from level_length [OF this cap] have len: "length (xs @ ys) < 2 ^ 32" .
  have "book_sides ar ?b ?G1" using sides by simp
  from drop_if_empty_ok [OF this G1 own(1) _ len] own(2) obtain b' ar' where d:
    "drop_if_empty ?b ar s lv = Some (if xs @ ys = [] then 2 else 1, b', ar')"
    "book_sides ar' b' (G(s := A @ keep_level lv px (xs @ ys) @ B))"
    "ob_live_order_count b' = ob_live_order_count ?b"
    "owned (ar_levels ar') (if xs @ ys = [] then U - {lv} else U)" "arena_frame {} (book_levels G) ar ar'"
    unfolding lvls fun_upd_upd by blast
  have "Suc (book_size (G(s := A @ keep_level lv px (xs @ ys) @ B))) = book_size G"
    using book_size_upd [of G s "A @ keep_level lv px (xs @ ys) @ B"] G by simp
  then have "ob_live_order_count b' = of_nat (book_size (G(s := A @ keep_level lv px (xs @ ys) @ B)))"
    using d(3) live by (simp flip: \<open>Suc _ = book_size G\<close>)
  moreover have "no_empty (A @ keep_level lv px (xs @ ys) @ B)" using ne [rule_format, of s] G by simp
  ultimately have "book_rep ar' b' (G(s := A @ keep_level lv px (xs @ ys) @ B))"
    using d(2) no_empty_upd [OF ne] by (simp add: book_rep_iff)
  with d show ?thesis by blast
qed

lemma remove_order_ok:
  assumes rep: "book_rep ar b G" and G: "G s = A @ (lv, px, xs @ i # ys) # B"
    and own: "owned (ar_levels ar) U" "book_levels G \<subseteq> U" and cap: "mp_capacity (ar_orders ar) < 2 ^ 32"
  shows "\<exists>b' ar'. remove_order b ar i = Some (if xs @ ys = [] then 2 else 1, b', ar') \<and>
    book_rep ar' b' (G(s := A @ keep_level lv px (xs @ ys) @ B)) \<and>
    owned (ar_levels ar') (if xs @ ys = [] then U - {lv} else U) \<and>
    arena_frame (book_orders G) (book_levels G) ar ar' \<and> data_kept ar ar'"
proof -
  have sides: "book_sides ar b G" using rep by (simp add: book_rep_iff)
  have lrep: "level_rep ar s lv px (xs @ i # ys)"
    using book_sidesD(1) [OF sides, of s] G by (intro side_memD(5)) auto
  from level_rep_order [OF lrep, of i] obtain x where x: "order_at ar i x" "o_price_cents x = px" "o_side x = s"
    by auto
  note sub = book_level_in [of G s A lv px "xs @ i # ys" B, OF G]
  from unlink_and_deduct_ok [OF lrep] obtain ar1 where ar1: "unlink_and_deduct ar lv i = Some ar1"
    "level_rep ar1 s lv px (xs @ ys)" "arena_frame (set (xs @ i # ys)) {lv} ar ar1" "data_kept ar ar1"
    "place_kept lv ar ar1" by blast
  let ?G1 = "G(s := A @ (lv, px, xs @ ys) # B)"
  have sides1: "book_sides ar1 b ?G1"
    by (rule book_sides_level [OF sides G ar1(3) _ _ ar1(5,2), where i = i]) auto
  have own1: "owned (ar_levels ar1) U"
    using own sub ar1(5) by (intro owned_levels_frame [OF own(1) ar1(3)]) (auto simp: place_kept_def)
  have cap1: "mp_capacity (ar_orders ar1) < 2 ^ 32" using cap ar1(3) by (simp add: arena_frame_def)
  from after_unlink [OF rep G sides1 own1 own(2) cap1] obtain b' ar' where d:
    "drop_if_empty (b\<lparr>ob_live_order_count := ob_live_order_count b - 1\<rparr>) ar1 s lv =
       Some (if xs @ ys = [] then 2 else 1, b', ar')"
    "book_rep ar' b' (G(s := A @ keep_level lv px (xs @ ys) @ B))"
    "owned (ar_levels ar') (if xs @ ys = [] then U - {lv} else U)" "arena_frame {} (book_levels G) ar1 ar'"
    by blast
  have "arena_frame (book_orders G) (book_levels G) ar ar'"
    using sub by (intro arena_frame_trans [OF arena_frame_mono [OF ar1(3)] arena_frame_mono [OF d(4)]]) auto
  moreover have "data_kept ar ar'"
    using ar1(4) by (rule data_kept_trans) (use order_at_frame [OF d(4)] in \<open>auto simp: data_kept_def\<close>)
  moreover have "remove_order b ar i = Some (if xs @ ys = [] then 2 else 1, b', ar')"
    using x find_level_present [OF sides G] ar1(1) d(1) by (simp add: remove_order_def exec_simps)
  ultimately show ?thesis using d(2,3) by blast
qed

text \<open>Taking \<open>f\<close> shares from an order in place.\<close>

lemma fill_in_book:
  assumes sides: "book_sides ar b G" and G: "G s = A @ (lv, px, xs @ i # ys) # B"
    and x: "order_at ar i x" and f: "f \<le> o_shares_remaining x"
  shows "\<exists>l. level_at ar lv l \<and>
    book_sides (put_order i (x\<lparr>o_shares_remaining := o_shares_remaining x - f\<rparr>)
      (put_level lv (l\<lparr>l_total_shares := l_total_shares l - ucast f\<rparr>) ar)) b G \<and>
    level_rep (put_order i (x\<lparr>o_shares_remaining := o_shares_remaining x - f\<rparr>)
      (put_level lv (l\<lparr>l_total_shares := l_total_shares l - ucast f\<rparr>) ar)) s lv px (xs @ i # ys)"
proof -
  have lrep: "level_rep ar s lv px (xs @ i # ys)"
    using book_sidesD(1) [OF sides, of s] G by (intro side_memD(5)) auto
  from level_rep_level [OF this] obtain l where l: "level_at ar lv l" by blast
  let ?ar1 = "put_level lv (l\<lparr>l_total_shares := l_total_shares l - ucast f\<rparr>) ar"
  let ?ar' = "put_order i (x\<lparr>o_shares_remaining := o_shares_remaining x - f\<rparr>) ?ar1"
  have rep': "level_rep ?ar' s lv px (xs @ i # ys)" by (rule fill_ok [OF lrep x l f])
  have frame: "arena_frame {i} {lv} ar ?ar'" by (simp add: arena_frame_def)
  have place: "place_kept lv ar ?ar'"
    using l level_at_less [OF l] by (auto simp: place_kept_def dest: level_at_unique [OF l])
  have "book_sides ?ar' b (G(s := A @ (lv, px, xs @ i # ys) # B))"
    by (rule book_sides_level [OF sides G frame _ _ place rep', where i = i]) auto
  moreover have "G(s := A @ (lv, px, xs @ i # ys) # B) = G" using G by auto
  ultimately show ?thesis using l rep' by auto
qed

lemma execute_order_partial:
  assumes rep: "book_rep ar b G" and G: "G s = A @ (lv, px, xs @ i # ys) # B"
    and x: "order_at ar i x" and qty: "\<not> qty \<ge> o_shares_remaining x"
    and own: "owned (ar_levels ar) U" "book_levels G \<subseteq> U"
  shows "\<exists>ar'. execute_order b ar i qty = Some (0, b, ar') \<and> book_rep ar' b G \<and>
    owned (ar_levels ar') U \<and> arena_frame {i} (book_levels G) ar ar' \<and>
    order_at ar' i (x\<lparr>o_shares_remaining := o_shares_remaining x - qty\<rparr>)"
proof -
  have sides: "book_sides ar b G" using rep by (simp add: book_rep_iff)
  have lrep: "level_rep ar s lv px (xs @ i # ys)"
    using book_sidesD(1) [OF sides, of s] G by (intro side_memD(5)) auto
  have keys: "o_price_cents x = px" "o_side x = s"
    using level_rep_order [OF lrep, of i] order_at_unique [OF x] by auto
  have "qty \<le> o_shares_remaining x" using qty by simp
  from fill_in_book [OF sides G x this] obtain l where l: "level_at ar lv l" and
    "book_sides (put_order i (x\<lparr>o_shares_remaining := o_shares_remaining x - qty\<rparr>)
      (put_level lv (l\<lparr>l_total_shares := l_total_shares l - ucast qty\<rparr>) ar)) b G" by blast
  moreover let ?ar' = "put_order i (x\<lparr>o_shares_remaining := o_shares_remaining x - qty\<rparr>)
      (put_level lv (l\<lparr>l_total_shares := l_total_shares l - ucast qty\<rparr>) ar)"
  have frame: "arena_frame {i} (book_levels G) ar ?ar'"
    using book_level_in [of G s A lv px "xs @ i # ys" B, OF G] by (auto simp: arena_frame_def)
  have "owned (ar_levels ?ar') U" by (rule owned_levels_frame [OF own(1) frame own(2)]) simp
  moreover have "order_at ?ar' i (x\<lparr>o_shares_remaining := o_shares_remaining x - qty\<rparr>)"
    using order_at_less [OF x] by simp
  moreover have "execute_order b ar i qty = Some (0, b, ?ar')"
    using x l keys qty find_level_present [OF sides G]
    by (simp add: execute_order_def exec_simps reduce_def)
  moreover have "book_rep ?ar' b G" using rep calculation(2) by (simp add: book_rep_iff)
  ultimately show ?thesis using frame by blast
qed

lemma execute_order_full:
  assumes rep: "book_rep ar b G" and G: "G s = A @ (lv, px, xs @ i # ys) # B"
    and x: "order_at ar i x" and qty: "qty \<ge> o_shares_remaining x"
    and own: "owned (ar_levels ar) U" "book_levels G \<subseteq> U" and cap: "mp_capacity (ar_orders ar) < 2 ^ 32"
  shows "\<exists>b' ar'. execute_order b ar i qty = Some (if xs @ ys = [] then 2 else 1, b', ar') \<and>
    book_rep ar' b' (G(s := A @ keep_level lv px (xs @ ys) @ B)) \<and>
    owned (ar_levels ar') (if xs @ ys = [] then U - {lv} else U) \<and>
    arena_frame (book_orders G) (book_levels G) ar ar' \<and>
    data_kept (put_order i (x\<lparr>o_shares_remaining := 0\<rparr>) ar) ar'"
proof -
  have sides: "book_sides ar b G" using rep by (simp add: book_rep_iff)
  have lrep: "level_rep ar s lv px (xs @ i # ys)"
    using book_sidesD(1) [OF sides, of s] G by (intro side_memD(5)) auto
  have keys: "o_price_cents x = px" "o_side x = s"
    using level_rep_order [OF lrep, of i] order_at_unique [OF x] by auto
  note sub = book_level_in [of G s A lv px "xs @ i # ys" B, OF G]
  let ?x = "x\<lparr>o_shares_remaining := 0\<rparr>"
  from fill_in_book [OF sides G x order_refl] obtain l where l: "level_at ar lv l" and
    fill: "book_sides (put_order i ?x (put_level lv (l\<lparr>l_total_shares := l_total_shares l
        - ucast (o_shares_remaining x)\<rparr>) ar)) b G"
      "level_rep (put_order i ?x (put_level lv (l\<lparr>l_total_shares := l_total_shares l
        - ucast (o_shares_remaining x)\<rparr>) ar)) s lv px (xs @ i # ys)" by auto
  let ?l = "l\<lparr>l_total_shares := l_total_shares l - ucast (o_shares_remaining x)\<rparr>"
  let ?ar1 = "put_order i ?x (put_level lv ?l ar)"
  have list1: "level_list ?ar1 s lv px (xs @ i # ys)" using fill(2) by (simp add: level_rep_def)
  from unlink_ok [OF this] obtain ar2 where ar2: "unlink ?ar1 lv i = Some ar2"
    "level_list ar2 s lv px (xs @ ys)" "arena_frame (set (xs @ i # ys)) {lv} ?ar1 ar2"
    "data_kept ?ar1 ar2" "place_kept lv ?ar1 ar2"
    "\<forall>l. level_at ?ar1 lv l \<longrightarrow> (\<exists>l'. level_at ar2 lv l' \<and> l_total_shares l' = l_total_shares l)" by blast
  have x1: "order_at ?ar1 i ?x" using order_at_less [OF x] by simp
  have rep2: "level_rep ar2 s lv px (xs @ ys)"
  proof -
    from fill(2) obtain l1 where l1: "level_at ?ar1 lv l1"
      "l_total_shares l1 = shares_sum ?ar1 (xs @ i # ys)" unfolding level_rep_def by blast
    from ar2(6) l1 obtain l2 where l2: "level_at ar2 lv l2" "l_total_shares l2 = l_total_shares l1" by blast
    have "shares_sum ?ar1 (xs @ i # ys) = shares_sum ?ar1 (xs @ ys)" using shares_at_order [OF x1] by simp
    also have "\<dots> = shares_sum ar2 (xs @ ys)"
    proof (intro shares_sum_kept [OF ar2(4), symmetric] ballI)
      fix j assume "j \<in> set (xs @ ys)"
      then have "j \<in> set (xs @ i # ys)" by auto
      from level_list_order [OF list1 this] show "\<exists>x. order_at ?ar1 j x" by blast
    qed
    finally show ?thesis using l1(2) l2 ar2(2) by (intro level_repI [OF l2(1)]) simp_all
  qed
  have sides2: "book_sides ar2 b (G(s := A @ (lv, px, xs @ ys) # B))"
    by (rule book_sides_level [OF fill(1) G ar2(3) _ _ ar2(5) rep2, where i = i]) auto
  have frame2: "arena_frame (book_orders G) (book_levels G) ar ar2"
  proof (rule arena_frame_trans)
    show "arena_frame (book_orders G) (book_levels G) ar ?ar1" using sub by (auto simp: arena_frame_def)
    show "arena_frame (book_orders G) (book_levels G) ?ar1 ar2" using sub by (intro arena_frame_mono [OF ar2(3)]) auto
  qed
  have own2: "owned (ar_levels ar2) U"
    using ar2(5) by (intro owned_levels_frame [OF own(1) frame2 own(2)]) (simp add: place_kept_def)
  have cap2: "mp_capacity (ar_orders ar2) < 2 ^ 32" using cap frame2 by (simp add: arena_frame_def)
  from after_unlink [OF rep G sides2 own2 own(2) cap2] obtain b' ar' where d:
    "drop_if_empty (b\<lparr>ob_live_order_count := ob_live_order_count b - 1\<rparr>) ar2 s lv =
       Some (if xs @ ys = [] then 2 else 1, b', ar')"
    "book_rep ar' b' (G(s := A @ keep_level lv px (xs @ ys) @ B))"
    "owned (ar_levels ar') (if xs @ ys = [] then U - {lv} else U)" "arena_frame {} (book_levels G) ar2 ar'"
    by blast
  have frame: "arena_frame (book_orders G) (book_levels G) ar ar'"
    using frame2 by (rule arena_frame_trans) (rule arena_frame_mono [OF d(4)], auto)
  have "data_kept (put_order i ?x ar) ar'"
  proof -
    have "data_kept (put_order i ?x ar) ?ar1" by (auto simp: data_kept_def)
    moreover have "data_kept ar2 ar'" using order_at_frame [OF d(4)] by (auto simp: data_kept_def)
    ultimately show ?thesis using ar2(4) data_kept_trans by blast
  qed
  moreover have "execute_order b ar i qty = Some (if xs @ ys = [] then 2 else 1, b', ar')"
    using x l keys qty find_level_present [OF sides G] ar2(1) d(1)
    by (simp add: execute_order_def exec_simps reduce_def)
  ultimately show ?thesis using d(2,3) frame by blast
qed

section \<open>Walking the book\<close>

lemma walk_orders_list:
  "dlinks o_next o_prev (ord ar) p os None \<Longrightarrow> \<forall>i\<in>set os. \<exists>x. order_at ar i x \<Longrightarrow>
   walk_orders ar (firstp os None) = Some os"
proof (induction os arbitrary: p)
  case Nil
  then show ?case by (simp add: walk_orders.simps)
next
  case (Cons i os)
  then obtain x where x: "order_at ar i x" by auto
  with Cons show ?case by (subst walk_orders.simps) (auto simp: exec_simps order_at_def split: cell.splits)
qed

lemma walk_levels_list:
  "dlinks l_next_level l_prev_level (lev ar) p (levels_of L) None \<Longrightarrow>
   (\<And>lv px os. (lv, px, os) \<in> set L \<Longrightarrow> level_rep ar s lv px os) \<Longrightarrow>
   walk_levels ar (firstp (levels_of L) None) = Some (orders_of L)"
proof (induction L arbitrary: p)
  case Nil
  then show ?case by (simp add: walk_levels.simps)
next
  case (Cons y L)
  obtain lv px os where y: "y = (lv, px, os)" by (cases y)
  have rep: "level_rep ar s lv px os" using Cons.prems(2) y by simp
  then obtain l where l: "level_at ar lv l" "l_head_order l = firstp os None"
    and os: "dlinks o_next o_prev (ord ar) None os None"
    unfolding level_rep_def level_list_def by blast
  have "walk_orders ar (firstp os None) = Some os"
    using os level_rep_order [OF rep] by (intro walk_orders_list) auto
  moreover have "l_next_level l = firstp (levels_of L) None"
    "dlinks l_next_level l_prev_level (lev ar) (Some lv) (levels_of L) None"
    using Cons.prems(1) l(1) y by (simp_all add: level_at_def)
  ultimately show ?case
    using Cons.IH Cons.prems(2) l y by (subst walk_levels.simps) (simp add: exec_simps)
qed

lemma best_sides: "best Buy b = ob_best_bid b" "best Sell b = ob_best_ask b"
  by (simp_all add: best_def)

lemma side_best: "book_sides ar b G \<Longrightarrow> best s b = firstp (levels_of (G s)) None"
  using book_sidesD(2) by (simp add: side_index_def)

lemma for_each_order_ok:
  assumes "book_rep ar b G"
  shows "for_each_order b ar = Some (orders_of (G Buy) @ orders_of (G Sell))"
proof -
  have sides: "book_sides ar b G" using assms by (simp add: book_rep_def)
  have "walk_levels ar (best s b) = Some (orders_of (G s))" for s
    using walk_levels_list [OF side_memD(2,5) [OF book_sidesD(1) [OF sides]]] side_best [OF sides] by simp
  from this [of Buy] this [of Sell] show ?thesis by (simp add: for_each_order_def best_sides)
qed

section \<open>Clearing the book\<close>

lemma release_levels_list:
  "dlinks l_next_level l_prev_level (lev ar) p ls None \<Longrightarrow> distinct ls \<Longrightarrow>
   owned (ar_levels ar) U \<Longrightarrow> set ls \<subseteq> U \<Longrightarrow>
   \<exists>ar'. release_levels ar (firstp ls None) = Some ar' \<and> owned (ar_levels ar') (U - set ls) \<and>
     arena_frame {} (set ls) ar ar'"
proof (induction ls arbitrary: ar p U)
  case Nil
  then show ?case by (simp add: release_levels.simps)
next
  case (Cons lv ls)
  then obtain l where "lev ar lv = Obj l" and nxt: "l_next_level l = firstp ls None"
    and links: "dlinks l_next_level l_prev_level (lev ar) (Some lv) ls None"
    by (auto split: cell.splits)
  moreover have U: "lv \<in> U" using Cons.prems(4) by simp
  ultimately have l: "level_at ar lv l" using owned_less [OF Cons.prems(3)] by (simp add: level_at_def)
  from release_level_ok [OF Cons.prems(3) U] obtain ar1 where ar1: "release_level ar lv = Some ar1"
    "owned (ar_levels ar1) (U - {lv})" "arena_frame {} {lv} ar ar1" by blast
  have "dlinks l_next_level l_prev_level (lev ar1) (Some lv) ls None"
    using links Cons.prems(2) ar1(3) by (subst dlinks_cong [where st = "lev ar"]) (auto simp: arena_frame_def)
  from Cons.IH [OF this _ ar1(2)] Cons.prems(2,4) obtain ar' where ar':
    "release_levels ar1 (firstp ls None) = Some ar'" "owned (ar_levels ar') (U - {lv} - set ls)"
    "arena_frame {} (set ls) ar1 ar'" by auto
  have "arena_frame {} (set (lv # ls)) ar ar'"
    by (rule arena_frame_trans [OF arena_frame_mono [OF ar1(3)] arena_frame_mono [OF ar'(3)]]) auto
  moreover have "U - {lv} - set ls = U - set (lv # ls)" by auto
  moreover have "release_levels ar (firstp (lv # ls) None) = Some ar'"
    using l nxt ar1(1) ar'(1) by (subst release_levels.simps) (simp add: exec_simps)
  ultimately show ?case using ar'(2) by auto
qed

lemma empty_book_rep:
  assumes "ob_best_bid b = None" "ob_best_ask b = None" "ob_bid_map b = FlatHashMap_init kEmptyPrice"
    "ob_ask_map b = FlatHashMap_init kEmptyPrice" "ob_bid_level_count b = 0" "ob_ask_level_count b = 0"
    "ob_live_order_count b = 0"
  shows "book_rep ar b (\<lambda>_. [])"
proof -
  have "side_index s b []" for s
    using assms by (cases s) (simp_all add: side_index_def best_def find_level_map book_map_def
      book_count_def fhm_ok_init fhm_find_init)
  then show ?thesis using assms(7) by (simp add: book_rep_def book_sides_def side_mem_def)
qed

lemma OrderBook_init_rep: "book_rep ar OrderBook_init (\<lambda>_. [])"
  by (rule empty_book_rep) (simp_all add: OrderBook_init_def)

lemma clear_metadata_rep: "book_rep ar (clear_metadata b) (\<lambda>_. [])"
  by (rule empty_book_rep) (simp_all add: clear_metadata_def fhm_clear_init)

text \<open>Clearing reads only the levels: the orders may already be back in their pool.\<close>

lemma clear_levels_ok:
  assumes links: "\<And>s. dlinks l_next_level l_prev_level (lev ar) None (levels_of (G s)) None"
    and best: "\<And>s. best s b = firstp (levels_of (G s)) None"
    and dis: "distinct (levels_of (G Buy) @ levels_of (G Sell))"
    and own: "owned (ar_levels ar) U" "book_levels G \<subseteq> U"
  shows "\<exists>b' ar'. clear_levels b ar = Some (b', ar') \<and> book_rep ar' b' (\<lambda>_. []) \<and>
    owned (ar_levels ar') (U - book_levels G) \<and> arena_frame {} (book_levels G) ar ar'"
proof -
  from release_levels_list [OF links [of Buy] _ own(1)] dis own(2) best [of Buy] obtain ar1 where ar1:
    "release_levels ar (ob_best_bid b) = Some ar1" "owned (ar_levels ar1) (U - set (levels_of (G Buy)))"
    "arena_frame {} (set (levels_of (G Buy))) ar ar1" by (auto simp: book_levels_def best_sides)
  have "dlinks l_next_level l_prev_level (lev ar1) None (levels_of (G Sell)) None"
    using links [of Sell] dis ar1(3)
    by (subst dlinks_cong [where st = "lev ar"]) (auto simp: arena_frame_def)
  from release_levels_list [OF this _ ar1(2)] dis own(2) best [of Sell] obtain ar2 where ar2:
    "release_levels ar1 (ob_best_ask b) = Some ar2"
    "owned (ar_levels ar2) (U - set (levels_of (G Buy)) - set (levels_of (G Sell)))"
    "arena_frame {} (set (levels_of (G Sell))) ar1 ar2" by (auto simp: book_levels_def best_sides)
  have "U - set (levels_of (G Buy)) - set (levels_of (G Sell)) = U - book_levels G"
    by (auto simp: book_levels_def)
  moreover have "arena_frame {} (book_levels G) ar ar2"
    by (rule arena_frame_trans [OF arena_frame_mono [OF ar1(3)] arena_frame_mono [OF ar2(3)]])
      (auto simp: book_levels_def)
  moreover let ?b = "b\<lparr>ob_best_bid := None, ob_best_ask := None, ob_bid_level_count := 0,
    ob_ask_level_count := 0, ob_live_order_count := 0, ob_bid_map := fhm_clear kEmptyPrice (ob_bid_map b),
    ob_ask_map := fhm_clear kEmptyPrice (ob_ask_map b)\<rparr>"
  have "book_rep ar2 ?b (\<lambda>_. [])" by (rule empty_book_rep) (simp_all add: fhm_clear_init)
  ultimately show ?thesis using ar1(1) ar2(1,2) by (simp add: clear_levels_def)
qed

end
