(* ===== verification/Book_Spec.thy ===== *)
theory Book_Spec
  imports Book_Ops
begin

text \<open>
  The abstract order book: per side a queue of orders in price-time priority, with the
  operations a reader expects of it. \<open>book_view\<close> reads the queues off the memory of a
  concrete book, and the lemmas show that each operation of \<open>OrderBook\<close> acts on them as
  the abstract one does.
\<close>

section \<open>The specification\<close>

text \<open>A new order goes behind every order of a better or equal price.\<close>

definition q_add :: "Order \<Rightarrow> Order list \<Rightarrow> Order list" where
  "q_add x q = takeWhile (\<lambda>y. \<not> better (o_side x) (o_price_cents x) (o_price_cents y)) q @
     x # dropWhile (\<lambda>y. \<not> better (o_side x) (o_price_cents x) (o_price_cents y)) q"

definition q_remove :: "OrderReferenceNumber \<Rightarrow> Order list \<Rightarrow> Order list" where
  "q_remove oid q = filter (\<lambda>y. o_order_id y \<noteq> oid) q"

text \<open>A fill takes shares from the order in place; an order without shares leaves.\<close>

definition fill1 :: "Shares \<Rightarrow> Order \<Rightarrow> Order list" where
  "fill1 qty y = (if qty \<ge> o_shares_remaining y then []
     else [y\<lparr>o_shares_remaining := o_shares_remaining y - qty\<rparr>])"

definition q_fill :: "OrderReferenceNumber \<Rightarrow> Shares \<Rightarrow> Order list \<Rightarrow> Order list" where
  "q_fill oid qty q = concat (map (\<lambda>y. if o_order_id y = oid then fill1 qty y else [y]) q)"

definition price_sorted :: "Side \<Rightarrow> Order list \<Rightarrow> bool" where
  "price_sorted s q \<longleftrightarrow> sorted_wrt (\<lambda>x y. \<not> better s (o_price_cents y) (o_price_cents x)) q"

section \<open>The view of a book\<close>

definition data_at :: "arena \<Rightarrow> nat \<Rightarrow> Order" where
  "data_at ar i = (case ord ar i of Obj x \<Rightarrow> o_data x | FreeNode _ \<Rightarrow> Order_init 0 0 0 0 Buy 0 [])"

definition book_view :: "arena \<Rightarrow> (Side \<Rightarrow> levels) \<Rightarrow> Side \<Rightarrow> Order list" where
  "book_view ar G s = map (data_at ar) (orders_of (G s))"

lemma data_at_order: "order_at ar i x \<Longrightarrow> data_at ar i = o_data x"
  by (simp add: order_at_def data_at_def)

lemma o_data_keys [simp]:
  "o_order_id (o_data x) = o_order_id x" "o_price_cents (o_data x) = o_price_cents x"
  "o_side (o_data x) = o_side x" "o_shares_remaining (o_data x) = o_shares_remaining x"
  "o_locate (o_data x) = o_locate x" "o_data (o_data x) = o_data x"
  by (simp_all add: o_data_def)

lemma data_at_kept:
  assumes "data_kept ar ar'" "order_at ar i x" shows "data_at ar' i = data_at ar i"
  using assms data_at_order unfolding data_kept_def by metis

lemma side_data:
  assumes "side_mem ar s L" "(lv, px, os) \<in> set L" "i \<in> set os"
  shows "o_price_cents (data_at ar i) = px" "o_side (data_at ar i) = s"
proof -
  from level_rep_order [OF side_memD(5) [OF assms(1,2)] assms(3)] obtain x where
    "order_at ar i x" "o_price_cents x = px" "o_side x = s" by blast
  then show "o_price_cents (data_at ar i) = px" "o_side (data_at ar i) = s"
    by (simp_all add: data_at_order)
qed

lemma view_kept:
  assumes "data_kept ar ar'" "side_mem ar s L" "set is \<subseteq> set (orders_of L)"
  shows "map (data_at ar') is = map (data_at ar) is"
  using assms side_order [OF assms(2)] by (intro map_cong refl) (meson data_at_kept subsetD)

lemma ahead_prices:
  assumes mem: "side_mem ar s (A @ (lv, px, os) # B)"
  shows "y \<in> data_at ar ` set (orders_of A @ os) \<Longrightarrow> \<not> better s px (o_price_cents y)"
    and "z \<in> data_at ar ` set (orders_of B) \<Longrightarrow> better s px (o_price_cents z)"
proof -
  have sorted: "sorted_wrt (better s) (prices_of A @ px # prices_of B)" using side_memD(3) [OF mem] by simp
  show "\<not> better s px (o_price_cents y)" if y: "y \<in> data_at ar ` set (orders_of A @ os)"
  proof -
    from y obtain i where "i \<in> set (orders_of (A @ [(lv, px, os)]))" "y = data_at ar i" by auto
    then obtain lv' px' os' where "(lv', px', os') \<in> set (A @ [(lv, px, os)])"
      "i \<in> set os'" "y = data_at ar i" unfolding in_orders by blast
    then have i: "(lv', px', os') \<in> set A \<or> (lv', px', os') = (lv, px, os)"
      "i \<in> set os'" "y = data_at ar i" by auto
    then have "o_price_cents y = px'" by (auto intro: side_data(1) [OF mem])
    moreover have "px' = px \<or> better s px' px"
      using i(1) sorted in_prices [of lv' px' os' A] by (auto simp: sorted_wrt_append)
    ultimately show ?thesis using better_asym by auto
  qed
  show "better s px (o_price_cents z)" if z: "z \<in> data_at ar ` set (orders_of B)"
  proof -
    from z obtain lv' px' os' i where i: "(lv', px', os') \<in> set B" "i \<in> set os'" "z = data_at ar i"
      by (auto simp: in_orders)
    then have "o_price_cents z = px'" by (auto intro: side_data(1) [OF mem])
    then show ?thesis using i(1) sorted in_prices [of lv' px' os' B] by (auto simp: sorted_wrt_append)
  qed
qed

lemma q_add_at:
  assumes "\<And>y. y \<in> set ys \<Longrightarrow> \<not> better (o_side x) (o_price_cents x) (o_price_cents y)"
    and "\<And>z. z \<in> set zs \<Longrightarrow> better (o_side x) (o_price_cents x) (o_price_cents z)"
  shows "q_add x (ys @ zs) = ys @ x # zs"
  using assms by (cases zs) (simp_all add: q_add_def takeWhile_append dropWhile_append)

lemma view_sorted: "side_mem ar s L \<Longrightarrow> price_sorted s (map (data_at ar) (orders_of L))"
proof -
  assume mem: "side_mem ar s L"
  have "price_sorted s (map (data_at ar) (orders_of M))"
    if "set M \<subseteq> set L" "sorted_wrt (better s) (prices_of M)" for M
    using that
  proof (induction M)
    case Nil
    then show ?case by (simp add: price_sorted_def)
  next
    case (Cons m M)
    obtain lv px os where m: "m = (lv, px, os)" by (cases m)
    have px: "o_price_cents (data_at ar i) = px" if "i \<in> set os" for i
      using side_data(1) [OF mem _ that, of lv px] Cons.prems(1) m by simp
    have "better s px (o_price_cents (data_at ar j))" if "j \<in> set (orders_of M)" for j
    proof -
      from that obtain lv' px' os' where j: "(lv', px', os') \<in> set M" "j \<in> set os'" by (auto simp: in_orders)
      then have "o_price_cents (data_at ar j) = px'" using side_data(1) [OF mem _ j(2)] Cons.prems(1) by auto
      then show ?thesis using Cons.prems(2) in_prices [OF j(1)] m by auto
    qed
    then have "\<not> better s (o_price_cents (data_at ar j)) (o_price_cents (data_at ar i))"
      if "i \<in> set os" "j \<in> set (orders_of M)" for i j using that px better_asym by metis
    moreover have "sorted_wrt (\<lambda>x y. \<not> better s (o_price_cents y) (o_price_cents x)) (map (data_at ar) os)"
      using px by (simp add: sorted_wrt_iff_nth_less)
    ultimately show ?case
      using Cons m by (auto simp: price_sorted_def sorted_wrt_append)
  qed
  with side_memD(3) [OF mem] show ?thesis by blast
qed

section \<open>Updates of the levels, seen through the view\<close>

lemma book_view_upd:
  assumes "\<And>t. t \<noteq> s \<Longrightarrow> book_view ar' G t = book_view ar G t"
    and "map (data_at ar') (orders_of L) = q"
  shows "book_view ar' (G(s := L)) = (book_view ar G)(s := q)"
  using assms by (auto simp: book_view_def fun_eq_iff)

lemma book_view_kept:
  "data_kept ar ar' \<Longrightarrow> book_sides ar b G \<Longrightarrow> book_view ar' G s = book_view ar G s"
  unfolding book_view_def by (rule view_kept [OF _ book_sidesD(1) [of ar b G s] subset_refl])

lemma view_append:
  assumes sides: "book_sides ar b G" and kept: "data_kept ar ar'" and x: "order_at ar i x"
    and apart: "orders_of (G s) = xs @ ys"
    and before: "\<And>y. y \<in> data_at ar ` set xs \<Longrightarrow> \<not> better (o_side x) (o_price_cents x) (o_price_cents y)"
    and after: "\<And>z. z \<in> data_at ar ` set ys \<Longrightarrow> better (o_side x) (o_price_cents x) (o_price_cents z)"
    and L: "orders_of L = xs @ i # ys"
  shows "book_view ar' (G(s := L)) = (book_view ar G)(s := q_add (o_data x) (book_view ar G s))"
proof (rule book_view_upd)
  have "q_add (o_data x) (map (data_at ar) xs @ map (data_at ar) ys) =
      map (data_at ar) xs @ o_data x # map (data_at ar) ys"
    using before after by (intro q_add_at) auto
  moreover have "map (data_at ar') (xs @ ys) = map (data_at ar) (xs @ ys)"
    by (rule view_kept [OF kept book_sidesD(1) [OF sides, of s]]) (simp add: apart)
  moreover have "data_at ar' i = o_data x" using data_at_kept [OF kept x] data_at_order [OF x] by simp
  ultimately show "map (data_at ar') (orders_of L) = q_add (o_data x) (book_view ar G s)"
    by (simp add: book_view_def L apart)
qed (rule book_view_kept [OF kept sides])

lemma view_add:
  assumes sides: "book_sides ar b G" and kept: "data_kept ar ar'" and x: "order_at ar i x"
    "o_price_cents x = px" "o_side x = s" and G: "G s = A @ (lv, px, os) # B"
  shows "book_view ar' (G(s := A @ (lv, px, os @ [i]) # B))
       = (book_view ar G)(s := q_add (o_data x) (book_view ar G s))"
proof (rule view_append [OF sides kept x(1)])
  have "side_mem ar s (A @ (lv, px, os) # B)" using book_sidesD(1) [OF sides, of s] G by simp
  note prices = ahead_prices [OF this]
  show "\<not> better (o_side x) (o_price_cents x) (o_price_cents y)"
    if "y \<in> data_at ar ` set (orders_of A @ os)" for y using prices(1) [OF that] x(2,3) by simp
  show "better (o_side x) (o_price_cents x) (o_price_cents z)" if "z \<in> data_at ar ` set (orders_of B)" for z
    using prices(2) [OF that] x(2,3) by simp
qed (simp_all add: G)

lemma view_new:
  assumes sides: "book_sides ar b G" and kept: "data_kept ar ar'" and x: "order_at ar i x"
    "o_price_cents x = px" "o_side x = s" and px: "px \<notin> set (prices_of (G s))"
  shows "book_view ar' (G(s := ahead s px (G s) @ (lv, px, [i]) # behind s px (G s)))
       = (book_view ar G)(s := q_add (o_data x) (book_view ar G s))"
proof (rule view_append [OF sides kept x(1)])
  have mem: "side_mem ar s (G s)" using book_sidesD(1) [OF sides] .
  have part: "set (ahead s px (G s)) \<union> set (behind s px (G s)) = set (G s)" by (simp flip: set_append)
  show "\<not> better (o_side x) (o_price_cents x) (o_price_cents y)"
    if y: "y \<in> data_at ar ` set (orders_of (ahead s px (G s)))" for y
  proof -
    from y obtain lv' px' os' i where i: "(lv', px', os') \<in> set (ahead s px (G s))" "i \<in> set os'"
      "y = data_at ar i" by (auto simp: in_orders)
    then have "o_price_cents y = px'" using part by (auto intro: side_data(1) [OF mem])
    then show ?thesis using ahead_better [OF i(1)] better_asym x(2,3) by simp
  qed
  show "better (o_side x) (o_price_cents x) (o_price_cents z)"
    if z: "z \<in> data_at ar ` set (orders_of (behind s px (G s)))" for z
  proof -
    from z obtain lv' px' os' i where i: "(lv', px', os') \<in> set (behind s px (G s))" "i \<in> set os'"
      "z = data_at ar i" by (auto simp: in_orders)
    then have "o_price_cents z = px'" using part by (auto intro: side_data(1) [OF mem])
    then show ?thesis using behind_worse [OF side_memD(3) [OF mem] px i(1)] x(2,3) by simp
  qed
qed (simp_all add: ahead_behind_of)

text \<open>Orders of a side are identified by their reference numbers.\<close>

definition ids_once :: "arena \<Rightarrow> levels \<Rightarrow> bool" where
  "ids_once ar L \<longleftrightarrow> distinct (map (\<lambda>i. o_order_id (data_at ar i)) (orders_of L))"

lemma q_remove_absent: "oid \<notin> o_order_id ` set q \<Longrightarrow> q_remove oid q = q"
  by (auto simp: q_remove_def intro: filter_True)

lemma q_remove_append [simp]: "q_remove oid (q @ r) = q_remove oid q @ q_remove oid r"
  by (simp add: q_remove_def)

lemma q_fill_append [simp]: "q_fill oid n (q @ r) = q_fill oid n q @ q_fill oid n r"
  by (simp add: q_fill_def)

lemma q_fill_Cons: "q_fill oid n (y # q) = (if o_order_id y = oid then fill1 n y else [y]) @ q_fill oid n q"
  by (simp add: q_fill_def)

lemma q_fill_absent: "oid \<notin> o_order_id ` set q \<Longrightarrow> q_fill oid n q = q"
  by (induction q) (auto simp: q_fill_def)

lemma view_split:
  assumes "ids_once ar (G s)" "G s = A @ (lv, px, xs @ i # ys) # B"
  shows "book_view ar G s = map (data_at ar) (orders_of A @ xs) @ data_at ar i #
      map (data_at ar) (ys @ orders_of B)"
    and "o_order_id (data_at ar i) \<notin> o_order_id ` set (map (data_at ar) (orders_of A @ xs))"
    and "o_order_id (data_at ar i) \<notin> o_order_id ` set (map (data_at ar) (ys @ orders_of B))"
  using assms unfolding ids_once_def book_view_def by (auto simp: image_iff)

lemma view_remove:
  assumes sides: "book_sides ar b G" and kept: "data_kept ar ar'"
    and G: "G s = A @ (lv, px, xs @ i # ys) # B" and once: "ids_once ar (G s)"
  shows "book_view ar' (G(s := A @ keep_level lv px (xs @ ys) @ B))
       = (book_view ar G)(s := q_remove (o_order_id (data_at ar i)) (book_view ar G s))"
proof (rule book_view_upd)
  note split = view_split [of ar G s A lv px xs i ys B, OF once G]
  have "q_remove (o_order_id (data_at ar i)) (book_view ar G s) =
      map (data_at ar) ((orders_of A @ xs) @ (ys @ orders_of B))"
    unfolding split(1) q_remove_append q_remove_absent [OF split(2)]
    using q_remove_absent [OF split(3)] by (simp add: q_remove_def)
  also have "\<dots> = map (data_at ar') ((orders_of A @ xs) @ (ys @ orders_of B))"
    by (rule view_kept [OF kept book_sidesD(1) [OF sides, of s], symmetric]) (auto simp: G)
  finally show "map (data_at ar') (orders_of (A @ keep_level lv px (xs @ ys) @ B)) =
      q_remove (o_order_id (data_at ar i)) (book_view ar G s)" by simp
qed (rule book_view_kept [OF kept sides])

lemma view_same_others:
  assumes "\<And>j. j \<noteq> i \<Longrightarrow> j \<in> set is \<Longrightarrow> data_at ar' j = data_at ar j" "i \<notin> set is"
  shows "map (data_at ar') is = map (data_at ar) is"
  using assms by (intro map_cong refl) metis

lemma fill_view:
  assumes sides: "book_sides ar b G" and G: "G s = A @ (lv, px, xs @ i # ys) # B"
    and once: "ids_once ar (G s)"
    and others: "\<And>j. j \<noteq> i \<Longrightarrow> j \<in> book_orders G \<Longrightarrow> data_at ar' j = data_at ar j"
    and one: "fill1 n (data_at ar i) = map (data_at ar') js"
    and L: "orders_of L = orders_of A @ xs @ js @ ys @ orders_of B"
  shows "book_view ar' (G(s := L))
       = (book_view ar G)(s := q_fill (o_order_id (data_at ar i)) n (book_view ar G s))"
proof (rule book_view_upd)
  note split = view_split [of ar G s A lv px xs i ys B, OF once G]
  have mem: "side_mem ar s (A @ (lv, px, xs @ i # ys) # B)" using book_sidesD(1) [OF sides, of s] G by simp
  have dis: "i \<notin> set (orders_of A @ xs)" "i \<notin> set (ys @ orders_of B)"
    using side_orders_distinct [OF mem] by auto
  have sub: "set (orders_of A @ xs) \<subseteq> book_orders G" "set (ys @ orders_of B) \<subseteq> book_orders G"
    using side_subset(1) [of G s] G by auto
  have same: "map (data_at ar') is = map (data_at ar) is" if "i \<notin> set is" "set is \<subseteq> book_orders G" for "is"
    using others that by (intro map_cong refl) (metis subsetD)
  have "q_fill (o_order_id (data_at ar i)) n (book_view ar G s) =
      map (data_at ar) (orders_of A @ xs) @ fill1 n (data_at ar i) @ map (data_at ar) (ys @ orders_of B)"
    unfolding split(1) q_fill_append q_fill_absent [OF split(2)] q_fill_Cons q_fill_absent [OF split(3)]
    by simp
  also have "\<dots> = map (data_at ar') (orders_of L)"
    using same [OF dis(1) sub(1)] same [OF dis(2) sub(2)] by (simp add: L one)
  finally show "map (data_at ar') (orders_of L) = q_fill (o_order_id (data_at ar i)) n (book_view ar G s)" ..
  fix t assume t: "t \<noteq> s"
  have "i \<notin> set (orders_of (G t))"
    using sides_disjoint(1) [OF mem book_sidesD(1) [OF sides, of t] t [symmetric]] by auto
  with same side_subset(1) show "book_view ar' G t = book_view ar G t" by (auto simp: book_view_def)
qed

lemma view_fill_partial:
  assumes "book_sides ar b G" "G s = A @ (lv, px, xs @ i # ys) # B" "ids_once ar (G s)"
    and x: "order_at ar i x" and qty: "\<not> qty \<ge> o_shares_remaining x"
    and frame: "arena_frame {i} Ls ar ar'"
    and x': "order_at ar' i (x\<lparr>o_shares_remaining := o_shares_remaining x - qty\<rparr>)"
  shows "book_view ar' G = (book_view ar G)(s := q_fill (o_order_id x) qty (book_view ar G s))"
proof -
  have "fill1 qty (data_at ar i) = map (data_at ar') [i]"
    using qty by (simp add: data_at_order [OF x] data_at_order [OF x'] fill1_def o_data_def)
  moreover have "data_at ar' j = data_at ar j" if "j \<noteq> i" for j
    using frame that by (simp add: arena_frame_def data_at_def)
  moreover have "orders_of (G s) = orders_of A @ xs @ [i] @ ys @ orders_of B" by (simp add: assms(2))
  ultimately have "book_view ar' (G(s := G s)) = (book_view ar G)(s := q_fill (o_order_id (data_at ar i)) qty (book_view ar G s))"
    using fill_view [OF assms(1-3)] by blast
  then have "book_view ar' (G(s := G s)) = (book_view ar G)(s := q_fill (o_order_id x) qty (book_view ar G s))"
    by (simp add: data_at_order [OF x])
  then show ?thesis by simp
qed

lemma view_fill_full:
  assumes "book_sides ar b G" "G s = A @ (lv, px, xs @ i # ys) # B" "ids_once ar (G s)"
    and x: "order_at ar i x" and qty: "qty \<ge> o_shares_remaining x"
    and kept: "data_kept (put_order i (x\<lparr>o_shares_remaining := 0\<rparr>) ar) ar'"
  shows "book_view ar' (G(s := A @ keep_level lv px (xs @ ys) @ B))
       = (book_view ar G)(s := q_fill (o_order_id x) qty (book_view ar G s))"
proof -
  have "fill1 qty (data_at ar i) = map (data_at ar') []"
    using qty by (simp add: data_at_order [OF x] fill1_def)
  moreover have "data_at ar' j = data_at ar j" if j: "j \<noteq> i" "j \<in> book_orders G" for j
  proof -
    from j(2) obtain y where y: "order_at ar j y"
      using side_order [OF book_sidesD(1) [OF assms(1)]] by (auto simp: book_orders_def)
    then have "order_at (put_order i (x\<lparr>o_shares_remaining := 0\<rparr>) ar) j y" using j(1) by simp
    from data_at_kept [OF kept this] show ?thesis using j(1) by (simp add: data_at_def)
  qed
  ultimately show ?thesis
    using fill_view [OF assms(1-3), of ar' qty "[]" "A @ keep_level lv px (xs @ ys) @ B"]
    by (simp add: data_at_order [OF x])
qed

section \<open>Where an order of the book is\<close>

lemma book_order_split:
  assumes "i \<in> book_orders G"
  shows "\<exists>s A lv px xs ys B. G s = A @ (lv, px, xs @ i # ys) # B"
proof -
  from assms obtain s where "i \<in> set (orders_of (G s))" by (auto simp: book_orders_def)
  then obtain lv px os where L: "(lv, px, os) \<in> set (G s)" "i \<in> set os" by (auto simp: in_orders)
  from split_list [OF L(1)] split_list [OF L(2)] show ?thesis by metis
qed

lemma price_in_view:
  assumes "book_rep ar b G"
  shows "px \<in> set (prices_of (G s)) \<longleftrightarrow> (\<exists>y\<in>set (book_view ar G s). o_price_cents y = px)"
proof
  have mem: "side_mem ar s (G s)" using assms book_sidesD(1) by (auto simp: book_rep_iff)
  show "\<exists>y\<in>set (book_view ar G s). o_price_cents y = px" if px: "px \<in> set (prices_of (G s))"
  proof -
    from prices_levels [OF px] obtain lv os where L: "(lv, px, os) \<in> set (G s)" by blast
    moreover have "no_empty (G s)" using assms by (simp add: book_rep_iff)
    ultimately obtain i where i: "i \<in> set os" by (fastforce simp: no_empty_def)
    have "data_at ar i \<in> set (book_view ar G s)"
      using L i os_subset [OF L] by (auto simp: book_view_def)
    with side_data(1) [OF mem L i] show ?thesis by blast
  qed
  show "px \<in> set (prices_of (G s))" if "\<exists>y\<in>set (book_view ar G s). o_price_cents y = px"
    using that side_data(1) [OF mem] in_prices by (fastforce simp: book_view_def in_orders)
qed

section \<open>The slots of an updated book\<close>

lemma slots_append:
  assumes "G s = A @ (lv, px, os) # B"
  shows "book_orders (G(s := A @ (lv, px, os @ [i]) # B)) = insert i (book_orders G)"
    and "book_levels (G(s := A @ (lv, px, os @ [i]) # B)) = book_levels G"
  using assms by (cases s; auto simp: book_orders_def book_levels_def)+

lemma slots_new:
  "book_orders (G(s := ahead s px (G s) @ (lv, px, [i]) # behind s px (G s))) = insert i (book_orders G)"
  "book_levels (G(s := ahead s px (G s) @ (lv, px, [i]) # behind s px (G s))) = insert lv (book_levels G)"
proof -
  have o: "set (orders_of (ahead s px (G s))) \<union> set (orders_of (behind s px (G s))) = set (orders_of (G s))"
    and l: "set (levels_of (ahead s px (G s))) \<union> set (levels_of (behind s px (G s))) = set (levels_of (G s))"
    by (simp_all flip: set_append add: ahead_behind_of)
  show "book_orders (G(s := ahead s px (G s) @ (lv, px, [i]) # behind s px (G s))) = insert i (book_orders G)"
    using o by (cases s) (auto simp: book_orders_def)
  show "book_levels (G(s := ahead s px (G s) @ (lv, px, [i]) # behind s px (G s))) = insert lv (book_levels G)"
    using l by (cases s) (auto simp: book_levels_def)
qed

lemma slots_remove:
  assumes rep: "book_rep ar b G" and G: "G s = A @ (lv, px, xs @ i # ys) # B"
  shows "book_orders (G(s := A @ keep_level lv px (xs @ ys) @ B)) = book_orders G - {i}"
    and "book_levels (G(s := A @ keep_level lv px (xs @ ys) @ B)) =
      (if xs @ ys = [] then book_levels G - {lv} else book_levels G)"
    and "lv \<in> book_levels G"
proof -
  have mem: "side_mem ar s (A @ (lv, px, xs @ i # ys) # B)" using book_rep_side [OF rep, of s] G by simp
  obtain t where t: "t \<noteq> s" using other_side by blast
  note dis = sides_disjoint [OF mem book_rep_side [OF rep, of t] t [symmetric]]
  have i: "i \<notin> set (orders_of A)" "i \<notin> set (orders_of B)" "i \<notin> set xs" "i \<notin> set ys"
    "i \<notin> set (orders_of (G t))" using side_orders_distinct [OF mem] dis(1) by auto
  have lv: "lv \<notin> set (levels_of A)" "lv \<notin> set (levels_of B)" "lv \<notin> set (levels_of (G t))"
    using side_memD(1) [OF mem] dis(2) by auto
  show "book_orders (G(s := A @ keep_level lv px (xs @ ys) @ B)) = book_orders G - {i}"
    using i t G by (cases s; cases t) (auto simp: book_orders_def)
  show "book_levels (G(s := A @ keep_level lv px (xs @ ys) @ B)) =
      (if xs @ ys = [] then book_levels G - {lv} else book_levels G)"
    using lv t G by (cases s; cases t) (auto simp: book_levels_def keep_level_def)
  show "lv \<in> book_levels G" using book_level_in [of G s A lv px "xs @ i # ys" B, OF G] by simp
qed

section \<open>The contract of a book\<close>

text \<open>No operation of a book changes the reference number or the locate of an order.\<close>

definition keys_kept :: "arena \<Rightarrow> arena \<Rightarrow> bool" where
  "keys_kept ar ar' \<longleftrightarrow> (\<forall>i x. order_at ar i x \<longrightarrow>
     (\<exists>x'. order_at ar' i x' \<and> o_order_id x' = o_order_id x \<and> o_locate x' = o_locate x))"

lemma keys_kept_data: "data_kept ar ar' \<Longrightarrow> keys_kept ar ar'"
  unfolding data_kept_def keys_kept_def by (metis o_data_sel)

lemma keys_kept_put:
  assumes "order_at ar i x" "data_kept (put_order i (x\<lparr>o_shares_remaining := n\<rparr>) ar) ar'"
  shows "keys_kept ar ar'"
proof -
  have "\<exists>x'. order_at ar' j x' \<and> o_order_id x' = o_order_id y \<and> o_locate x' = o_locate y"
    if y: "order_at ar j y" for j y
  proof (cases "j = i")
    case True
    then have "y = x" using y assms(1) order_at_unique by blast
    moreover have "order_at (put_order i (x\<lparr>o_shares_remaining := n\<rparr>) ar) i (x\<lparr>o_shares_remaining := n\<rparr>)"
      using order_at_less [OF assms(1)] by simp
    ultimately show ?thesis using keys_kept_data [OF assms(2)] True unfolding keys_kept_def by fastforce
  next
    case False
    then have "order_at (put_order i (x\<lparr>o_shares_remaining := n\<rparr>) ar) j y" using y by simp
    then show ?thesis using keys_kept_data [OF assms(2)] unfolding keys_kept_def by blast
  qed
  then show ?thesis by (simp add: keys_kept_def)
qed

lemma add_order_book:
  assumes rep: "book_rep ar b G" and x: "order_at ar i x" "i \<notin> book_orders G"
    and px: "o_price_cents x \<noteq> kEmptyPrice" and room: "length (G (o_side x)) < 8192"
    and own: "owned (ar_levels ar) U" "book_levels G \<subseteq> U"
  shows "\<exists>rc b' ar' G' U'. add_order b ar i = Some (rc, b', ar') \<and> book_rep ar' b' G' \<and>
    owned (ar_levels ar') U' \<and> data_kept ar ar' \<and>
    rc = (if \<exists>y\<in>set (book_view ar G (o_side x)). o_price_cents y = o_price_cents x then 1
          else if card U = mp_capacity (ar_levels ar) then 0 else 2) \<and>
    (if rc = 0 then b' = b \<and> ar' = ar \<and> G' = G \<and> U' = U
     else book_orders G' = insert i (book_orders G) \<and>
       book_view ar' G' = (book_view ar G)(o_side x := q_add (o_data x) (book_view ar G (o_side x))) \<and>
       arena_frame (insert i (book_orders G)) (book_levels G') ar ar' \<and>
       (if rc = 1 then book_levels G' = book_levels G \<and> U' = U
        else \<exists>lv. lv \<notin> U \<and> book_levels G' = insert lv (book_levels G) \<and> U' = insert lv U))"
proof -
  let ?s = "o_side x" and ?px = "o_price_cents x"
  have sides: "book_sides ar b G" using rep by (simp add: book_rep_iff)
  consider (old) "?px \<in> set (prices_of (G ?s))"
    | (full) "?px \<notin> set (prices_of (G ?s))" "card U = mp_capacity (ar_levels ar)"
    | (new) "?px \<notin> set (prices_of (G ?s))" "card U < mp_capacity (ar_levels ar)"
    using pool.own_card [OF own(1)] by linarith
  then show ?thesis
  proof cases
    case old
    from prices_levels [OF this] obtain lv os where "(lv, ?px, os) \<in> set (G ?s)" by blast
    from split_list [OF this] obtain A B where G: "G ?s = A @ (lv, ?px, os) # B" by blast
    from add_order_existing [OF rep G x refl refl own] obtain b' ar' where add:
      "add_order b ar i = Some (1, b', ar')" "book_rep ar' b' (G(?s := A @ (lv, ?px, os @ [i]) # B))"
      "owned (ar_levels ar') U" "arena_frame (insert i (book_orders G)) (book_levels G) ar ar'"
      "data_kept ar ar'" by blast
    show ?thesis
      using add view_add [OF sides add(5) x(1) refl refl G] slots_append [of G ?s A lv ?px os B i, OF G] old
      unfolding price_in_view [OF rep] by (intro exI conjI) (assumption | simp)+
  next
    case full
    from add_order_exhausted [OF sides x(1) full(1) own(1) full(2)] rep own full show ?thesis
      unfolding price_in_view [OF rep] by (intro exI conjI) (assumption | simp)+
  next
    case new
    from add_order_new [OF rep x refl refl new(1) px room own new(2)] obtain lv b' ar' where add:
      "add_order b ar i = Some (2, b', ar')" "lv \<notin> U"
      "book_rep ar' b' (G(?s := ahead ?s ?px (G ?s) @ (lv, ?px, [i]) # behind ?s ?px (G ?s)))"
      "owned (ar_levels ar') (insert lv U)"
      "arena_frame (insert i (book_orders G)) (insert lv (book_levels G)) ar ar'" "data_kept ar ar'" by blast
    show ?thesis
      using add view_new [OF sides add(6) x(1) refl refl new(1)] new
      unfolding price_in_view [OF rep] by (intro exI conjI) (assumption | simp add: slots_new | blast)+
  qed
qed

lemma level_of_price:
  assumes "book_rep ar b G" "book_rep ar' b' (G(s := A @ keep_level lv px os @ B))"
    "G s = A @ (lv, px, os') # B"
  shows "(\<exists>y\<in>set (book_view ar' (G(s := A @ keep_level lv px os @ B)) s). o_price_cents y = px) \<longleftrightarrow> os \<noteq> []"
proof -
  have "side_mem ar s (A @ (lv, px, os') # B)" using assms(3) book_rep_side [OF assms(1), of s] by simp
  from side_memD(4) [OF this] have "px \<notin> set (prices_of A)" "px \<notin> set (prices_of B)" by auto
  then show ?thesis
    using price_in_view [OF assms(2), of px s] by (cases "os = []") simp_all
qed

text \<open>What both ways out of the book have in common.\<close>

definition left_book :: "nat \<Rightarrow> int \<Rightarrow> (Side \<Rightarrow> levels) \<Rightarrow> (Side \<Rightarrow> levels) \<Rightarrow> nat set \<Rightarrow> nat set \<Rightarrow> bool" where
  "left_book i rc G G' U U' \<longleftrightarrow> book_orders G' = book_orders G - {i} \<and>
     (if rc = 1 then book_levels G' = book_levels G \<and> U' = U
      else \<exists>lv\<in>book_levels G. book_levels G' = book_levels G - {lv} \<and> U' = U - {lv})"

lemma left_bookI:
  assumes "book_rep ar b G" "G s = A @ (lv, px, xs @ i # ys) # B"
  shows "left_book i (if xs @ ys = [] then 2 else 1) G (G(s := A @ keep_level lv px (xs @ ys) @ B)) U
    (if xs @ ys = [] then U - {lv} else U)"
  using slots_remove [OF assms] by (auto simp: left_book_def)

lemma remove_order_book:
  assumes rep: "book_rep ar b G" and i: "i \<in> book_orders G" "order_at ar i x"
    and once: "\<And>s. ids_once ar (G s)"
    and own: "owned (ar_levels ar) U" "book_levels G \<subseteq> U" and cap: "mp_capacity (ar_orders ar) < 2 ^ 32"
  shows "\<exists>rc b' ar' G' U'. remove_order b ar i = Some (rc, b', ar') \<and> book_rep ar' b' G' \<and>
    owned (ar_levels ar') U' \<and> keys_kept ar ar' \<and>
    arena_frame (book_orders G) (book_levels G) ar ar' \<and> left_book i rc G G' U U' \<and>
    book_view ar' G' = (book_view ar G)
      (o_side x := q_remove (o_order_id x) (book_view ar G (o_side x))) \<and>
    rc = (if \<exists>y\<in>set (book_view ar' G' (o_side x)). o_price_cents y = o_price_cents x then 1 else 2)"
proof -
  have sides: "book_sides ar b G" using rep by (simp add: book_rep_iff)
  from book_order_split [OF i(1)] obtain s A lv px xs ys B where G: "G s = A @ (lv, px, xs @ i # ys) # B"
    by blast
  have "level_rep ar s lv px (xs @ i # ys)"
    using book_rep_side [OF rep, of s] G by (intro side_memD(5)) auto
  from level_rep_order [OF this, of i] have x: "o_price_cents x = px" "o_side x = s"
    using order_at_unique [OF i(2)] by auto
  from remove_order_ok [OF rep G own cap] obtain b' ar' where rm:
    "remove_order b ar i = Some (if xs @ ys = [] then 2 else 1, b', ar')"
    "book_rep ar' b' (G(s := A @ keep_level lv px (xs @ ys) @ B))"
    "owned (ar_levels ar') (if xs @ ys = [] then U - {lv} else U)"
    "arena_frame (book_orders G) (book_levels G) ar ar'" "data_kept ar ar'" by blast
  have view: "book_view ar' (G(s := A @ keep_level lv px (xs @ ys) @ B)) = (book_view ar G)
      (o_side x := q_remove (o_order_id x) (book_view ar G (o_side x)))"
    using view_remove [of ar b G ar' s A lv px xs i ys B, OF sides rm(5) G once] x
    by (simp add: data_at_order [OF i(2)])
  have rc: "(if xs @ ys = [] then 2 else 1) = (if \<exists>y\<in>set (book_view ar' (G(s := A @ keep_level lv px (xs @ ys) @ B))
      (o_side x)). o_price_cents y = o_price_cents x then 1 else (2::int))"
    using level_of_price [of ar b G ar' b' s A lv px "xs @ ys" B, OF rep rm(2) G] x by simp
  from rm keys_kept_data [OF rm(5)] left_bookI [of ar b G s A lv px xs i ys B U, OF rep G] view rc
  show ?thesis by blast
qed

lemma execute_order_book:
  assumes rep: "book_rep ar b G" and i: "i \<in> book_orders G" "order_at ar i x"
    and once: "\<And>s. ids_once ar (G s)"
    and own: "owned (ar_levels ar) U" "book_levels G \<subseteq> U" and cap: "mp_capacity (ar_orders ar) < 2 ^ 32"
  shows "\<exists>rc b' ar' G' U'. execute_order b ar i qty = Some (rc, b', ar') \<and> book_rep ar' b' G' \<and>
    owned (ar_levels ar') U' \<and> keys_kept ar ar' \<and>
    arena_frame (book_orders G) (book_levels G) ar ar' \<and>
    (if rc = 0 then G' = G \<and> U' = U else left_book i rc G G' U U') \<and>
    book_view ar' G' = (book_view ar G)
      (o_side x := q_fill (o_order_id x) qty (book_view ar G (o_side x))) \<and>
    rc = (if qty < o_shares_remaining x then 0
      else if \<exists>y\<in>set (book_view ar' G' (o_side x)). o_price_cents y = o_price_cents x then 1 else 2)"
proof -
  have sides: "book_sides ar b G" using rep by (simp add: book_rep_iff)
  from book_order_split [OF i(1)] obtain s A lv px xs ys B where G: "G s = A @ (lv, px, xs @ i # ys) # B"
    by blast
  have "level_rep ar s lv px (xs @ i # ys)"
    using book_rep_side [OF rep, of s] G by (intro side_memD(5)) auto
  from level_rep_order [OF this, of i] have x: "o_price_cents x = px" "o_side x = s"
    using order_at_unique [OF i(2)] by auto
  show ?thesis
  proof (cases "qty < o_shares_remaining x")
    case True
    then have qty: "\<not> o_shares_remaining x \<le> qty" by simp
    from execute_order_partial [OF rep G i(2) qty own] obtain ar' where ex:
      "execute_order b ar i qty = Some (0, b, ar')" "book_rep ar' b G" "owned (ar_levels ar') U"
      "arena_frame {i} (book_levels G) ar ar'"
      "order_at ar' i (x\<lparr>o_shares_remaining := o_shares_remaining x - qty\<rparr>)" by blast
    have "keys_kept ar ar'"
      using ex(4,5) i(2) order_at_frame [OF ex(4)] unfolding keys_kept_def
      by (metis Order.select_convs(1,2) Order.surjective Order.update_convs(4) order_at_unique singletonD)
    moreover have "arena_frame (book_orders G) (book_levels G) ar ar'"
      using ex(4) by (rule arena_frame_mono) (use i(1) in auto)
    ultimately show ?thesis
      using view_fill_partial [of ar b G s A lv px xs i ys B, OF sides G once i(2) qty ex(4,5)] x ex(1-3) True
      by (intro exI [of _ 0] exI [of _ b] exI [of _ ar'] exI [of _ G] exI [of _ U]) simp
  next
    case False
    then have qty: "o_shares_remaining x \<le> qty" by simp
    let ?G' = "G(s := A @ keep_level lv px (xs @ ys) @ B)"
    from execute_order_full [OF rep G i(2) qty own cap] obtain b' ar' where ex:
      "execute_order b ar i qty = Some (if xs @ ys = [] then 2 else 1, b', ar')" "book_rep ar' b' ?G'"
      "owned (ar_levels ar') (if xs @ ys = [] then U - {lv} else U)"
      "arena_frame (book_orders G) (book_levels G) ar ar'"
      "data_kept (put_order i (x\<lparr>o_shares_remaining := 0\<rparr>) ar) ar'" by blast
    have view: "book_view ar' ?G' = (book_view ar G)
        (o_side x := q_fill (o_order_id x) qty (book_view ar G (o_side x)))"
      using view_fill_full [of ar b G s A lv px xs i ys B, OF sides G once i(2) qty ex(5)] x by simp
    have rc: "(if xs @ ys = [] then 2 else 1) = (if qty < o_shares_remaining x then 0
        else if \<exists>y\<in>set (book_view ar' ?G' (o_side x)). o_price_cents y = o_price_cents x then 1 else (2::int))"
      using level_of_price [of ar b G ar' b' s A lv px "xs @ ys" B, OF rep ex(2) G] x False by simp
    have "(if (if xs @ ys = [] then 2 else 1) = (0::int) then ?G' = G \<and> (if xs @ ys = [] then U - {lv} else U) = U
        else left_book i (if xs @ ys = [] then 2 else 1) G ?G' U (if xs @ ys = [] then U - {lv} else U))"
      using left_bookI [of ar b G s A lv px xs i ys B U, OF rep G] by simp
    with ex keys_kept_put [OF i(2) ex(5)] view rc show ?thesis by blast
  qed
qed

end
