(* ===== verification/Book_Properties.thy ===== *)
theory Book_Properties
  imports Book_Spec
begin

text \<open>
  The properties of \<open>OrderBook\<close>: adding, filling, removing and clearing refine the abstract
  price-time priority queues, the result codes say what happened to the level, the pool of
  levels is used exactly, and the queries read the best price and its exact share total.
  Each property has a witness on a small book.
\<close>

section \<open>A small book\<close>

definition demo_order :: "nat \<Rightarrow> Order" where
  "demo_order i = Order_init (of_nat i + 1) 7 100 10 Buy 0 []"

definition demo_arena :: arena where
  "demo_arena = \<lparr>ar_orders = \<lparr>mp_capacity = 2, mp_storage = (\<lambda>i. Obj (demo_order i)), mp_head = None\<rparr>,
     ar_levels = MemoryPool_init 2\<rparr>"

definition one_level :: "nat \<Rightarrow> nat list \<Rightarrow> Side \<Rightarrow> levels" where
  "one_level lv os = (\<lambda>_. [])(Buy := [(lv, 100, os)])"

lemma demo_order_sel [simp]:
  "o_price_cents (demo_order i) = 100" "o_side (demo_order i) = Buy"
  "o_order_id (demo_order i) = of_nat i + 1" "o_shares_remaining (demo_order i) = 10"
  "o_data (demo_order i) = demo_order i" "o_locate (demo_order i) = 7"
  by (simp_all add: demo_order_def Order_init_def o_data_def)

lemma demo_order_at: "i < 2 \<Longrightarrow> order_at demo_arena i (demo_order i)"
  by (simp add: order_at_def demo_arena_def)

lemma demo_caps [simp]:
  "mp_capacity (ar_orders demo_arena) = 2" "mp_capacity (ar_levels demo_arena) = 2"
  by (simp_all add: demo_arena_def)

lemma demo_owned: "owned (ar_levels demo_arena) {}"
  by (simp add: demo_arena_def owned_init)

lemma empty_levels [simp]: "book_orders (\<lambda>_. []) = {}" "book_levels (\<lambda>_. []) = {}"
  by (simp_all add: book_orders_def book_levels_def)

lemma book_view_empty [simp]: "book_view ar (\<lambda>_. []) = (\<lambda>_. [])"
  by (simp add: book_view_def fun_eq_iff)

lemma one_level_sel [simp]:
  "one_level lv os Buy = [(lv, 100, os)]" "one_level lv os Sell = []"
  "book_orders (one_level lv os) = set os" "book_levels (one_level lv os) = {lv}"
  by (simp_all add: one_level_def book_orders_def book_levels_def)

lemma demo_book:
  "\<exists>lv b ar. add_order OrderBook_init demo_arena 0 = Some (2, b, ar) \<and>
     book_rep ar b (one_level lv [0]) \<and> owned (ar_levels ar) {lv} \<and>
     order_at ar 0 (demo_order 0) \<and> mp_capacity (ar_orders ar) = 2 \<and> mp_capacity (ar_levels ar) = 2"
proof -
  let ?G = "(\<lambda>_. []) :: Side \<Rightarrow> levels"
  have px: "100 \<noteq> kEmptyPrice" by (simp add: kEmptyPrice_def)
  have ahead: "ahead Buy 100 [] = []" "behind Buy 100 [] = []" by (simp_all add: ahead_def behind_def)
  from add_order_new [OF OrderBook_init_rep demo_order_at [of 0], of 100 Buy "{}"] px demo_owned
  obtain lv b ar where add: "add_order OrderBook_init demo_arena 0 = Some (2, b, ar)"
    "book_rep ar b (one_level lv [0])" "owned (ar_levels ar) {lv}"
    "arena_frame {0} {lv} demo_arena ar" "data_kept demo_arena ar"
    by (auto simp: ahead one_level_def)
  from add(5) demo_order_at [of 0] obtain x where x: "order_at ar 0 x" "o_data x = demo_order 0"
    unfolding data_kept_def by fastforce
  have "walk_orders ar (Some 0) = Some [0] \<and> o_next x = None \<and> o_prev x = None"
  proof -
    have "level_rep ar Buy lv 100 [0]"
      using add(2) book_sidesD(1) [of ar b "one_level lv [0]" Buy] side_memD(5) by (fastforce simp: book_rep_iff)
    then have "dlinks o_next o_prev (ord ar) None [0] None" by (simp add: level_rep_def level_list_def)
    then show ?thesis using x(1) by (subst walk_orders.simps) (simp add: exec_simps order_at_def walk_orders.simps)
  qed
  then have "x = o_data x" by (simp add: o_data_def)
  then have "order_at ar 0 (demo_order 0)" using x by simp
  with add show ?thesis by (auto simp: arena_frame_def)
qed

section \<open>Adding\<close>

text \<open>
  C23. Adding an order to a book, at a price other than the sentinel \<open>0xFFFFFFFF\<close> and while its side has
  fewer than 8192 price levels, runs without undefined behaviour. If its price has a level, the result is 1; otherwise it is 2 when the level pool has a free slot and 0 when it has none.
  On 0 the book shows the same orders; otherwise the order stands in its side's queue behind all
  orders of a better or equal price, and in front of all others. The level pool hands out
  exactly one slot with result 2 and none otherwise.
\<close>

theorem add_order_refines:
  assumes rep: "book_rep ar b G" and x: "order_at ar i x" "i \<notin> book_orders G"
    and px: "o_price_cents x \<noteq> kEmptyPrice" and room: "length (G (o_side x)) < 8192"
    and own: "owned (ar_levels ar) U" "book_levels G \<subseteq> U"
  shows "\<exists>rc b' ar' G' U'. add_order b ar i = Some (rc, b', ar') \<and> book_rep ar' b' G' \<and>
    rc = (if \<exists>y\<in>set (book_view ar G (o_side x)). o_price_cents y = o_price_cents x then 1
          else if card U = mp_capacity (ar_levels ar) then 0 else 2) \<and>
    book_view ar' G' = (if rc = 0 then book_view ar G else
      (book_view ar G)(o_side x := q_add (o_data x) (book_view ar G (o_side x)))) \<and>
    owned (ar_levels ar') U' \<and> book_levels G' \<subseteq> U' \<and> U \<subseteq> U' \<and>
    card U' = (if rc = 2 then Suc (card U) else card U)"
proof -
  from add_order_book [OF rep x px room own] obtain rc b' ar' G' U' where add:
    "add_order b ar i = Some (rc, b', ar')" "book_rep ar' b' G'" "owned (ar_levels ar') U'"
    "rc = (if \<exists>y\<in>set (book_view ar G (o_side x)). o_price_cents y = o_price_cents x then 1
           else if card U = mp_capacity (ar_levels ar) then 0 else 2)"
    "if rc = 0 then b' = b \<and> ar' = ar \<and> G' = G \<and> U' = U
     else book_orders G' = insert i (book_orders G) \<and>
       book_view ar' G' = (book_view ar G)(o_side x := q_add (o_data x) (book_view ar G (o_side x))) \<and>
       arena_frame (insert i (book_orders G)) (book_levels G') ar ar' \<and>
       (if rc = 1 then book_levels G' = book_levels G \<and> U' = U
        else \<exists>lv. lv \<notin> U \<and> book_levels G' = insert lv (book_levels G) \<and> U' = insert lv U)" by blast
  have slots: "book_levels G' \<subseteq> U'" "U \<subseteq> U'" "card U' = (if rc = 2 then Suc (card U) else card U)"
    using add(4,5) own(2) owned_finite [OF own(1)] by (auto split: if_splits)
  have view: "book_view ar' G' = (if rc = 0 then book_view ar G else
      (book_view ar G)(o_side x := q_add (o_data x) (book_view ar G (o_side x))))" using add(5) by simp
  show ?thesis by (intro exI conjI) (rule add(1,2,4) view add(3) slots)+
qed

theorem add_order_refines_witness:
  "\<exists>rc b ar G. add_order OrderBook_init demo_arena 0 = Some (rc, b, ar) \<and> rc = 2 \<and>
     book_view ar G Buy = [demo_order 0]"
  using add_order_refines [OF OrderBook_init_rep demo_order_at [of 0], of "{}"] demo_owned
  by (auto simp: kEmptyPrice_def q_add_def) (metis fun_upd_same)

section \<open>Removing and filling\<close>

lemma left_book_levels:
  assumes "left_book i rc G G' U U'" "book_levels G \<subseteq> U" "finite U" "rc = 1 \<or> rc = 2"
  shows "book_levels G' \<subseteq> U' \<and> U' \<subseteq> U \<and> card U = (if rc = 2 then Suc (card U') else card U')"
proof (cases "rc = 2")
  case True
  with assms(1) obtain lv where lv: "lv \<in> book_levels G" "book_levels G' = book_levels G - {lv}" "U' = U - {lv}"
    by (auto simp: left_book_def)
  then have "lv \<in> U" using assms(2) by blast
  from card_Suc_Diff1 [OF assms(3) this] lv(3) have "Suc (card U') = card U" by simp
  with lv True assms(2) show ?thesis by auto
next
  case False
  with assms show ?thesis by (simp add: left_book_def)
qed

text \<open>
  C24. Removing an order of the book runs without undefined behaviour and takes exactly that order
  out of its side's queue. The result is 1 when other orders of its price remain and 2 when it
  was the last one; in that case, and only then, one level slot goes back to its pool.
\<close>

theorem remove_order_refines:
  assumes rep: "book_rep ar b G" and i: "i \<in> book_orders G" and once: "ids_once ar (G Buy)" "ids_once ar (G Sell)"
    and own: "owned (ar_levels ar) U" "book_levels G \<subseteq> U" and cap: "mp_capacity (ar_orders ar) < 2 ^ 32"
  shows "\<exists>x rc b' ar' G' U'. order_at ar i x \<and> remove_order b ar i = Some (rc, b', ar') \<and>
    book_rep ar' b' G' \<and>
    book_view ar' G' = (book_view ar G)
      (o_side x := q_remove (o_order_id x) (book_view ar G (o_side x))) \<and>
    rc = (if \<exists>y\<in>set (book_view ar' G' (o_side x)). o_price_cents y = o_price_cents x then 1 else 2) \<and>
    owned (ar_levels ar') U' \<and> book_levels G' \<subseteq> U' \<and> U' \<subseteq> U \<and>
    card U = (if rc = 2 then Suc (card U') else card U')"
proof -
  obtain x where x: "order_at ar i x"
    using i side_order [OF book_rep_side [OF rep]] by (auto simp: book_orders_def)
  have once': "ids_once ar (G s)" for s using once by (cases s) simp_all
  from remove_order_book [OF rep i x once' own cap] obtain rc b' ar' G' U' where rm:
    "remove_order b ar i = Some (rc, b', ar')" "book_rep ar' b' G'" "owned (ar_levels ar') U'"
    "left_book i rc G G' U U'"
    "book_view ar' G' = (book_view ar G)(o_side x := q_remove (o_order_id x) (book_view ar G (o_side x)))"
    "rc = (if \<exists>y\<in>set (book_view ar' G' (o_side x)). o_price_cents y = o_price_cents x then 1 else 2)" by blast
  have "rc = 1 \<or> rc = 2" using rm(6) by (simp split: if_splits)
  from left_book_levels [OF rm(4) own(2) owned_finite [OF own(1)] this] x rm show ?thesis by blast
qed

theorem remove_order_refines_witness:
  "\<exists>b ar rc b' ar' G'. add_order OrderBook_init demo_arena 0 = Some (2, b, ar) \<and>
     remove_order b ar 0 = Some (rc, b', ar') \<and> rc = 2 \<and> book_rep ar' b' G' \<and> book_view ar' G' Buy = []"
proof -
  from demo_book obtain lv b ar where demo: "add_order OrderBook_init demo_arena 0 = Some (2, b, ar)"
    "book_rep ar b (one_level lv [0])" "owned (ar_levels ar) {lv}" "order_at ar 0 (demo_order 0)"
    "mp_capacity (ar_orders ar) = 2" by blast
  have "ids_once ar (one_level lv [0] Buy)" "ids_once ar (one_level lv [0] Sell)" by (simp_all add: ids_once_def)
  from remove_order_refines [OF demo(2) _ this demo(3), of 0] demo obtain x rc b' ar' G' where
    r: "order_at ar 0 x" "remove_order b ar 0 = Some (rc, b', ar')" "book_rep ar' b' G'"
    "book_view ar' G' = (book_view ar (one_level lv [0]))
      (o_side x := q_remove (o_order_id x) (book_view ar (one_level lv [0]) (o_side x)))"
    "rc = (if \<exists>y\<in>set (book_view ar' G' (o_side x)). o_price_cents y = o_price_cents x then 1 else 2)"
    by auto
  have x: "x = demo_order 0" using r(1) demo(4) order_at_unique by blast
  have "book_view ar (one_level lv [0]) Buy = [demo_order 0]"
    by (simp add: book_view_def data_at_order [OF demo(4)])
  then have "book_view ar' G' Buy = []" using r(4) x by (simp add: q_remove_def)
  moreover have "rc = 2" using r(5) x calculation by simp
  ultimately show ?thesis using demo(1) r(2,3) by blast
qed

text \<open>
  C25. Executing or cancelling \<open>qty\<close> shares of an order of the book runs without undefined
  behaviour and lets it lose that many shares in place, keeping its time priority, or leave the
  queue when it has no more than \<open>qty\<close> shares. The result is 0 when the order stays, 1 when it
  left and others of its price remain, and 2 when its level was dropped and one level slot went
  back to its pool.
\<close>

theorem execute_order_refines:
  assumes rep: "book_rep ar b G" and i: "i \<in> book_orders G" and once: "ids_once ar (G Buy)" "ids_once ar (G Sell)"
    and own: "owned (ar_levels ar) U" "book_levels G \<subseteq> U" and cap: "mp_capacity (ar_orders ar) < 2 ^ 32"
  shows "\<exists>x rc b' ar' G' U'. order_at ar i x \<and> execute_order b ar i qty = Some (rc, b', ar') \<and>
    book_rep ar' b' G' \<and>
    book_view ar' G' = (book_view ar G)
      (o_side x := q_fill (o_order_id x) qty (book_view ar G (o_side x))) \<and>
    rc = (if qty < o_shares_remaining x then 0
      else if \<exists>y\<in>set (book_view ar' G' (o_side x)). o_price_cents y = o_price_cents x then 1 else 2) \<and>
    owned (ar_levels ar') U' \<and> book_levels G' \<subseteq> U' \<and> U' \<subseteq> U \<and>
    card U = (if rc = 2 then Suc (card U') else card U')"
proof -
  obtain x where x: "order_at ar i x"
    using i side_order [OF book_rep_side [OF rep]] by (auto simp: book_orders_def)
  have once': "ids_once ar (G s)" for s using once by (cases s) simp_all
  from execute_order_book [OF rep i x once' own cap, of qty] obtain rc b' ar' G' U' where ex:
    "execute_order b ar i qty = Some (rc, b', ar')" "book_rep ar' b' G'" "owned (ar_levels ar') U'"
    "if rc = 0 then G' = G \<and> U' = U else left_book i rc G G' U U'"
    "book_view ar' G' = (book_view ar G)(o_side x := q_fill (o_order_id x) qty (book_view ar G (o_side x)))"
    "rc = (if qty < o_shares_remaining x then 0
      else if \<exists>y\<in>set (book_view ar' G' (o_side x)). o_price_cents y = o_price_cents x then 1 else 2)" by blast
  have "book_levels G' \<subseteq> U' \<and> U' \<subseteq> U \<and> card U = (if rc = 2 then Suc (card U') else card U')"
  proof (cases "rc = 0")
    case False
    then have "rc = 1 \<or> rc = 2" using ex(6) by (simp split: if_splits)
    moreover have "left_book i rc G G' U U'" using ex(4) False by simp
    ultimately show ?thesis using left_book_levels own(2) owned_finite [OF own(1)] by blast
  qed (use ex(4) own(2) in simp)
  with x ex show ?thesis by blast
qed

theorem execute_order_refines_witness:
  "\<exists>b ar rc b' ar' G'. add_order OrderBook_init demo_arena 0 = Some (2, b, ar) \<and>
     execute_order b ar 0 4 = Some (rc, b', ar') \<and> rc = 0 \<and> book_rep ar' b' G' \<and>
     book_view ar' G' Buy = [(demo_order 0)\<lparr>o_shares_remaining := 6\<rparr>]"
proof -
  from demo_book obtain lv b ar where demo: "add_order OrderBook_init demo_arena 0 = Some (2, b, ar)"
    "book_rep ar b (one_level lv [0])" "owned (ar_levels ar) {lv}" "order_at ar 0 (demo_order 0)"
    "mp_capacity (ar_orders ar) = 2" by blast
  have "ids_once ar (one_level lv [0] Buy)" "ids_once ar (one_level lv [0] Sell)" by (simp_all add: ids_once_def)
  from execute_order_refines [OF demo(2) _ this demo(3), of 0 4] demo obtain x rc b' ar' G' where
    r: "order_at ar 0 x" "execute_order b ar 0 4 = Some (rc, b', ar')" "book_rep ar' b' G'"
    "book_view ar' G' = (book_view ar (one_level lv [0]))
      (o_side x := q_fill (o_order_id x) 4 (book_view ar (one_level lv [0]) (o_side x)))"
    "rc = (if 4 < o_shares_remaining x then 0
      else if \<exists>y\<in>set (book_view ar' G' (o_side x)). o_price_cents y = o_price_cents x then 1 else 2)"
    by auto
  have x: "x = demo_order 0" using r(1) demo(4) order_at_unique by blast
  have "book_view ar (one_level lv [0]) Buy = [demo_order 0]"
    by (simp add: book_view_def data_at_order [OF demo(4)])
  then have "book_view ar' G' Buy = [(demo_order 0)\<lparr>o_shares_remaining := 6\<rparr>]"
    using r(4) x by (simp add: q_fill_def fill1_def)
  moreover have "rc = 0" using r(5) x by simp
  ultimately show ?thesis using demo(1) r(2,3) by blast
qed

section \<open>Queries\<close>

text \<open>
  The queues of a book are in price order on each side, best price first, at all times.
\<close>

lemma book_price_sorted:
  assumes "book_rep ar b G"
  shows "price_sorted s (book_view ar G s) \<and> (\<forall>y\<in>set (book_view ar G s). o_side y = s)"
proof
  have mem: "side_mem ar s (G s)" using assms by (rule book_rep_side)
  show "price_sorted s (book_view ar G s)" using view_sorted [OF mem] by (simp add: book_view_def)
  show "\<forall>y\<in>set (book_view ar G s). o_side y = s"
    using side_data(2) [OF mem] by (auto simp: book_view_def in_orders)
qed

lemma book_price_sorted_example:
  "\<exists>b ar lv. add_order OrderBook_init demo_arena 0 = Some (2, b, ar) \<and>
     price_sorted Buy (book_view ar (one_level lv [0]) Buy)"
  using demo_book book_price_sorted by blast

text \<open>
  C27. \<open>for_each_order\<close> calls back every order of the book exactly once, bids before asks, each
  side in price-time priority.
\<close>

theorem for_each_order_complete:
  assumes "book_rep ar b G"
  shows "\<exists>is. for_each_order b ar = Some is \<and> distinct is \<and> set is = book_orders G \<and>
    map (data_at ar) is = book_view ar G Buy @ book_view ar G Sell"
proof -
  have mem: "side_mem ar s (G s)" for s using assms by (rule book_rep_side)
  have "distinct (orders_of (G Buy) @ orders_of (G Sell))"
    using side_orders_distinct [OF mem] sides_disjoint(1) [OF mem mem, of Buy Sell] by simp
  then show ?thesis
    using for_each_order_ok [OF assms] by (simp add: book_orders_def book_view_def)
qed

theorem for_each_order_complete_witness:
  "\<exists>b ar. add_order OrderBook_init demo_arena 0 = Some (2, b, ar) \<and>
     (\<exists>is. for_each_order b ar = Some is \<and> set is = {0})"
  using demo_book for_each_order_complete by fastforce

text \<open>The share total of a level does not wrap around when the pool has fewer than 2^32 orders.\<close>

lemma shares_sum_exact:
  "length is < 2 ^ 32 \<Longrightarrow> unat (shares_sum ar is) = (\<Sum>i\<leftarrow>is. unat (shares_at ar i)) \<and>
     unat (shares_sum ar is) \<le> length is * (2 ^ 32 - 1)"
proof (induction "is")
  case Nil
  then show ?case by simp
next
  case (Cons i "is")
  have i: "unat (shares_at ar i) \<le> 2 ^ 32 - 1" using unsigned_less [of "shares_at ar i", where 'a = nat] by simp
  have u: "unat (ucast (shares_at ar i) :: u64) = unat (shares_at ar i)"
    using i by (subst unsigned_ucast_eq) (rule take_bit_nat_eq_self, simp)
  have "length is * (2 ^ 32 - 1) + (2 ^ 32 - 1) < (2::nat) ^ 64"
  proof -
    have "length is * (2 ^ 32 - 1) \<le> 2 ^ 32 * (2 ^ 32 - 1)" using Cons.prems by (intro mult_le_mono1) simp
    then show ?thesis by simp
  qed
  then have "unat (ucast (shares_at ar i) :: u64) + unat (shares_sum ar is) < 2 ^ 64"
    using Cons i u by simp
  then have "unat (shares_sum ar (i # is)) = unat (shares_at ar i) + unat (shares_sum ar is)"
    using u by (simp add: unat_word_ariths)
  then show ?case using Cons i by simp
qed

lemma head_level:
  assumes rep: "book_rep ar b G" and G: "G s = (lv, px, os) # L"
  shows "filter (\<lambda>y. o_price_cents y = px) (book_view ar G s) = map (data_at ar) os"
    and "\<exists>y q. book_view ar G s = y # q \<and> o_price_cents y = px"
proof -
  have mem: "side_mem ar s (G s)" using rep by (rule book_rep_side)
  have os: "o_price_cents (data_at ar i) = px" if "i \<in> set os" for i
    using side_data(1) [OF mem _ that, of lv px] G by simp
  have L: "o_price_cents (data_at ar i) \<noteq> px" if i: "i \<in> set (orders_of L)" for i
  proof -
    from i obtain lv' px' os' where l: "(lv', px', os') \<in> set L" "i \<in> set os'" by (auto simp: in_orders)
    then have "o_price_cents (data_at ar i) = px'" using side_data(1) [OF mem _ l(2)] G by auto
    moreover have "px \<notin> set (prices_of L)" using side_memD(4) [OF mem] G by simp
    ultimately show ?thesis using in_prices [OF l(1)] by auto
  qed
  show "filter (\<lambda>y. o_price_cents y = px) (book_view ar G s) = map (data_at ar) os"
    using os L by (auto simp: book_view_def G filter_empty_conv intro: filter_True)
  have "os \<noteq> []" using rep G by (metis book_rep_iff no_empty_simps(2))
  then show "\<exists>y q. book_view ar G s = y # q \<and> o_price_cents y = px"
    using os by (cases os) (simp_all add: book_view_def G)
qed

lemma best_query:
  assumes rep: "book_rep ar b G" and cap: "mp_capacity (ar_orders ar) < 2 ^ 32"
  shows "\<exists>p n. best_price ar (best s b) = Some p \<and> best_shares ar (best s b) = Some n \<and>
    (case book_view ar G s of [] \<Rightarrow> p = 0 \<and> n = 0
      | y # _ \<Rightarrow> p = o_price_cents y \<and> unat n =
          (\<Sum>z\<leftarrow>filter (\<lambda>z. o_price_cents z = p) (book_view ar G s). unat (o_shares_remaining z)))"
proof (cases "G s")
  case Nil
  have sides: "book_sides ar b G" using rep by (simp add: book_rep_iff)
  show ?thesis using side_best [OF sides, of s] Nil by (simp add: best_price_def best_shares_def book_view_def)
next
  case (Cons y L)
  obtain lv px os where y: "y = (lv, px, os)" by (cases y)
  note G = Cons [unfolded y]
  have sides: "book_sides ar b G" using rep by (simp add: book_rep_iff)
  have lrep: "level_rep ar s lv px os" using book_rep_side [OF rep, of s] G by (intro side_memD(5)) auto
  from lrep obtain l where l: "level_at ar lv l" "l_price_cents l = px" "l_total_shares l = shares_sum ar os"
    by (auto simp: level_rep_def level_list_def dest: level_at_unique)
  have "map (\<lambda>i. unat (shares_at ar i)) os = map (\<lambda>i. unat (o_shares_remaining (data_at ar i))) os"
    using level_rep_order [OF lrep] by (intro map_cong refl) (metis shares_at_order data_at_order o_data_keys(4))
  from arg_cong [OF this, of sum_list] have "unat (l_total_shares l) = (\<Sum>i\<leftarrow>os. unat (o_shares_remaining (data_at ar i)))"
    using shares_sum_exact [OF level_length [OF lrep cap], of ar] l(3) by simp
  then show ?thesis
    using head_level [of ar b G s lv px os L, OF rep G] side_best [OF sides, of s] G l(1,2)
    by (auto simp: best_price_def best_shares_def exec_simps o_def)
qed

text \<open>
  C26. The best bid and ask queries return the price of the first order of their side and the exact
  sum of the shares of all orders at that price, without wrap-around (as long as the order pool
  has fewer than 2^32 slots), and 0 on an empty side.
\<close>

theorem best_queries_exact:
  assumes rep: "book_rep ar b G" and cap: "mp_capacity (ar_orders ar) < 2 ^ 32"
  shows "\<exists>p n p' n'. best_bid_price b ar = Some p \<and> best_bid_shares b ar = Some n \<and>
    best_ask_price b ar = Some p' \<and> best_ask_shares b ar = Some n' \<and>
    (case book_view ar G Buy of [] \<Rightarrow> p = 0 \<and> n = 0
      | y # _ \<Rightarrow> p = o_price_cents y \<and> unat n =
          (\<Sum>z\<leftarrow>filter (\<lambda>z. o_price_cents z = p) (book_view ar G Buy). unat (o_shares_remaining z))) \<and>
    (case book_view ar G Sell of [] \<Rightarrow> p' = 0 \<and> n' = 0
      | y # _ \<Rightarrow> p' = o_price_cents y \<and> unat n' =
          (\<Sum>z\<leftarrow>filter (\<lambda>z. o_price_cents z = p') (book_view ar G Sell). unat (o_shares_remaining z)))"
  unfolding best_bid_price_def best_bid_shares_def best_ask_price_def best_ask_shares_def
  using best_query [OF assms, of Buy] best_query [OF assms, of Sell]
  unfolding best_sides by blast

theorem best_queries_exact_witness:
  "\<exists>b ar n. add_order OrderBook_init demo_arena 0 = Some (2, b, ar) \<and>
     best_bid_price b ar = Some 100 \<and> best_bid_shares b ar = Some n \<and> unat n = 10 \<and>
     best_ask_price b ar = Some 0"
proof -
  from demo_book obtain lv b ar where demo: "add_order OrderBook_init demo_arena 0 = Some (2, b, ar)"
    "book_rep ar b (one_level lv [0])" "order_at ar 0 (demo_order 0)"
    "mp_capacity (ar_orders ar) = 2" by blast
  have "book_view ar (one_level lv [0]) Buy = [demo_order 0]" "book_view ar (one_level lv [0]) Sell = []"
    by (simp_all add: book_view_def data_at_order [OF demo(3)])
  with best_queries_exact [OF demo(2)] demo(4) have
    "best_bid_price b ar = Some 100 \<and> (\<exists>n. best_bid_shares b ar = Some n \<and> unat n = 10) \<and>
     best_ask_price b ar = Some 0" by auto
  with demo(1) show ?thesis by blast
qed

end
