(* ===== verification/Book_Limits.thy ===== *)
theory Book_Limits
  imports Book_Properties
begin

text \<open>
  Where \<open>OrderBook\<close> stops working: a side whose map of 8192 levels is full, and a price that is
  the map's empty-slot sentinel. In both cases a level gets into the list but not into the map.
\<close>

section \<open>A full map\<close>

text \<open>
  C21. When a side's map is full, \<open>insert_level_into_map\<close> of a new price drops the level silently:
  no price finds a level it did not find before, but the level count goes up.
\<close>

theorem full_map_loses_level:
  assumes ok: "fhm_ok kPriceLevelMapCapacity kEmptyPrice (book_map s b)"
    and full: "card (dom (find_level b s)) = 8192"
    and l: "level_at ar lv l" "find_level b s (l_price_cents l) = None"
  shows "\<exists>b'. insert_level_into_map b ar s lv = Some b' \<and> find_level b' s = find_level b s \<and>
    book_count s b' = book_count s b + 1"
proof -
  have "\<not> fhm_room kPriceLevelMapCapacity kEmptyPrice (book_map s b)"
    using card_dom_find [OF ok] full by (simp add: fhm_room_def flip: find_level_map)
  then have ins: "fhm_insert kPriceLevelMapCapacity kEmptyPrice (book_map s b) (l_price_cents l) (Some lv) = (False, book_map s b)"
    using l(2) fhm_ok_absent [OF ok] by (intro insert_full [OF pow2_level_map]) (auto simp: find_level_map)
  show ?thesis
  proof (cases s)
    case Buy
    with ins l(1) show ?thesis
      by (simp add: insert_level_into_map_def exec_simps book_map_def book_count_def find_level_map)
  next
    case Sell
    with ins l(1) show ?thesis
      by (simp add: insert_level_into_map_def exec_simps book_map_def book_count_def find_level_map)
  qed
qed

definition filled_book :: "Price FlatHashMap \<Rightarrow> OrderBook" where
  "filled_book m = OrderBook_init\<lparr>ob_bid_map := m, ob_bid_level_count := 8192\<rparr>"

definition one_level_arena :: "Price \<Rightarrow> arena" where
  "one_level_arena px = \<lparr>ar_orders = MemoryPool_init 0, ar_levels = \<lparr>mp_capacity = 1,
     mp_storage = (\<lambda>_. Obj (reset px Buy PriceLevel_init)), mp_head = None\<rparr>\<rparr>"

theorem full_map_loses_level_witness:
  "\<exists>b b'. fhm_ok kPriceLevelMapCapacity kEmptyPrice (ob_bid_map b) \<and>
     insert_level_into_map b (one_level_arena 9000) Buy 0 = Some b' \<and> find_level b' Buy 9000 = None \<and>
     ob_bid_level_count b' = 8193"
proof -
  have "(8192::nat) \<le> unat kPriceLevelMapCapacity" "unat kPriceLevelMapCapacity < 2 ^ 32 - 1" by simp_all
  from fhm_filled [OF pow2_level_map this] obtain m where m: "fhm_ok kPriceLevelMapCapacity kEmptyPrice m"
    "dom (fhm_find kPriceLevelMapCapacity kEmptyPrice m) = of_nat ` {..<8192}" by (auto simp: kEmptyPrice_def)
  let ?b = "filled_book m"
  have map: "book_map Buy ?b = m" by (simp add: book_map_def filled_book_def)
  have inj: "inj_on (of_nat :: nat \<Rightarrow> Price) {..<9001}"
    by (intro inj_onI) (auto simp: word_of_nat_eq_iff take_bit_nat_eq_self)
  have card: "card (dom (find_level ?b Buy)) = 8192"
    unfolding find_level_map map m(2) by (subst card_image) (auto intro: inj_on_subset [OF inj])
  have "of_nat 9000 \<notin> (of_nat :: nat \<Rightarrow> Price) ` {..<8192}"
    using inj_on_image_mem_iff [OF inj, of 9000 "{..<8192}"] by auto
  then have none: "find_level ?b Buy 9000 = None"
    unfolding find_level_map map using m(2) by (metis domIff of_nat_numeral)
  have l: "level_at (one_level_arena 9000) 0 (reset 9000 Buy PriceLevel_init)"
    by (simp add: level_at_def one_level_arena_def)
  have px: "l_price_cents (reset 9000 Buy PriceLevel_init) = 9000" by (simp add: reset_def)
  have map_ok: "fhm_ok kPriceLevelMapCapacity kEmptyPrice (book_map Buy ?b)" using m(1) map by simp
  have none': "find_level ?b Buy (l_price_cents (reset 9000 Buy PriceLevel_init)) = None" using none px by simp
  from full_map_loses_level [OF map_ok card l none'] obtain b' where
    "insert_level_into_map ?b (one_level_arena 9000) Buy 0 = Some b'" "find_level b' Buy = find_level ?b Buy"
    "book_count Buy b' = book_count Buy ?b + 1" by blast
  with none map_ok map show ?thesis
    by (intro exI [of _ ?b] exI [of _ b']) (auto simp: book_count_def filled_book_def)
qed

section \<open>The sentinel price\<close>

text \<open>
  C22. An order at the price \<open>0xFFFFFFFF\<close>, the empty-slot sentinel of the level map, can be neither
  removed nor filled, whatever the book: no level is ever found at that price, and the book and
  the pools stay as they are.
\<close>

theorem sentinel_price_stuck:
  assumes "order_at ar i x" "o_price_cents x = kEmptyPrice"
  shows "remove_order b ar i = Some (0, b, ar) \<and> execute_order b ar i qty = Some (- 1, b, ar)"
  using assms find_empty_key [OF pow2_level_map, of kEmptyPrice]
  by (simp add: remove_order_def execute_order_def exec_simps find_level_map)

definition sentinel_order :: Order where
  "sentinel_order = Order_init 1 7 kEmptyPrice 10 Buy 0 []"

definition sentinel_arena :: arena where
  "sentinel_arena = \<lparr>ar_orders = \<lparr>mp_capacity = 1, mp_storage = (\<lambda>_. Obj sentinel_order), mp_head = None\<rparr>,
     ar_levels = \<lparr>mp_capacity = 1, mp_storage = (\<lambda>_. FreeNode None), mp_head = Some 0\<rparr>\<rparr>"

theorem sentinel_price_stuck_witness:
  "\<exists>b ar. add_order OrderBook_init sentinel_arena 0 = Some (2, b, ar) \<and> remove_order b ar 0 = Some (0, b, ar) \<and>
     execute_order b ar 0 10 = Some (- 1, b, ar)"
proof -
  have x: "order_at sentinel_arena 0 sentinel_order" by (simp add: order_at_def sentinel_arena_def)
  have none: "find_level OrderBook_init s kEmptyPrice = None" for s
    by (simp add: find_level_map find_empty_key)
  have best: "best Buy OrderBook_init = None" by (simp add: best_def OrderBook_init_def)
  have "\<exists>b ar x. add_order OrderBook_init sentinel_arena 0 = Some (2, b, ar) \<and> order_at ar 0 x \<and>
      o_price_cents x = kEmptyPrice"
    unfolding add_order_def arena_eval(1) [OF x]
    by (simp add: sentinel_order_def Order_init_def none best sentinel_arena_def acquire_level_def acquire_def
        free_next_def construct_level_def construct_def upd_level_def modify_def
        deref_def reset_def PriceLevel_init_def insert_level_sorted_def get_level_def seek_level.simps
        insert_level_into_map_def push_back_def upd_order_def get_order_def order_at_def)
  then obtain b ar x' where add: "add_order OrderBook_init sentinel_arena 0 = Some (2, b, ar)"
    "order_at ar 0 x'" "o_price_cents x' = kEmptyPrice" by blast
  from sentinel_price_stuck [OF add(2,3)] add(1) show ?thesis by blast
qed

end
