(* ===== verification/Wire_Format.thy ===== *)
theory Wire_Format
  imports Itch_Types Endian
begin

text \<open>
  The packed wire structs of \<open>include/WireFormat.hpp\<close>, their sizes and the registry of message
  types. A packed struct is the list of its members with their widths in bytes; a member starts
  where the widths before it end, and the members of the common header stand in front. The inverse
  direction, \<open>put_fields\<close>, lays out given member contents and is used to state round trips.
\<close>

section \<open>Layouts\<close>

type_synonym layout = "(string \<times> nat) list"

definition sizeof_layout :: "layout \<Rightarrow> nat" where
  "sizeof_layout M = sum_list (map snd M)"

fun offset_of :: "layout \<Rightarrow> string \<Rightarrow> nat" where
  "offset_of [] f = 0"
| "offset_of ((g, n) # M) f = (if g = f then 0 else n + offset_of M f)"

fun width_of :: "layout \<Rightarrow> string \<Rightarrow> nat" where
  "width_of [] f = 0"
| "width_of ((g, n) # M) f = (if g = f then n else width_of M f)"

definition fld :: "layout \<Rightarrow> string \<Rightarrow> byte list \<Rightarrow> byte list" where
  "fld M f bs = take (width_of M f) (drop (offset_of M f) bs)"

definition fit :: "nat \<Rightarrow> byte list \<Rightarrow> byte list" where
  "fit n bs = take n (bs @ replicate n 0)"

definition put_fields :: "layout \<Rightarrow> (string \<Rightarrow> byte list) \<Rightarrow> byte list" where
  "put_fields M c = concat (map (\<lambda>(f, n). fit n (c f)) M)"

section \<open>The structs\<close>

definition CommonHeader :: layout where
  "CommonHeader = 
    [(''messageType'', 1), (''stockLocateHi'', 1), (''stockLocateLo'', 1), (''trackingHi'', 1),
     (''trackingLo'', 1), (''ts'', 6)]"

definition SystemEventMsg :: layout where
  "SystemEventMsg = CommonHeader @
    [(''eventCode'', 1)]"

definition StockDirectoryMsg :: layout where
  "StockDirectoryMsg = CommonHeader @
    [(''stock'', 8), (''marketCategory'', 1), (''financialStatusIndicator'', 1), (''roundLotSize'', 4),
     (''roundLotsOnly'', 1), (''issueClassification'', 1), (''issueSubType'', 2),
     (''authenticity'', 1), (''shortScaleThresholdIndicator'', 1), (''ipoFlag'', 1),
     (''luldReferencePriceTier'', 1), (''etpFlag'', 1), (''etpLeverageFactor'', 4),
     (''inverseIndicator'', 1)]"

definition StockTradingActionMsg :: layout where
  "StockTradingActionMsg = CommonHeader @
    [(''stock'', 8), (''tradingState'', 1), (''reserved'', 1), (''reason'', 4)]"

definition RegSHOMsg :: layout where
  "RegSHOMsg = CommonHeader @
    [(''stock'', 8), (''regSHOAction'', 1)]"

definition MarketParticipantPositionMsg :: layout where
  "MarketParticipantPositionMsg = CommonHeader @
    [(''mpid'', 4), (''stock'', 8), (''primaryMarketMaker'', 1), (''marketMakerMode'', 1),
     (''marketParticipantState'', 1)]"

definition MWCBDeclineLevelMsg :: layout where
  "MWCBDeclineLevelMsg = CommonHeader @
    [(''level1'', 8), (''level2'', 8), (''level3'', 8)]"

definition MWCBStatusMsg :: layout where
  "MWCBStatusMsg = CommonHeader @
    [(''breachedLevel'', 1)]"

definition IPOQuotingPeriodUpdateMsg :: layout where
  "IPOQuotingPeriodUpdateMsg = CommonHeader @
    [(''stock'', 8), (''ipoQuotationReleaseTime'', 4), (''ipoQuotationReleaseQualifier'', 1),
     (''ipoPrice'', 4)]"

definition LULDAuctionCollarMsg :: layout where
  "LULDAuctionCollarMsg = CommonHeader @
    [(''stock'', 8), (''auctionCollarReferencePrice'', 4), (''upperAuctionCollarPrice'', 4),
     (''lowerAuctionCollarPrice'', 4), (''auctionCollarExtension'', 4)]"

definition OperationalHaltMsg :: layout where
  "OperationalHaltMsg = CommonHeader @
    [(''stock'', 8), (''marketCode'', 1), (''operationHaltAction'', 1)]"

definition AddOrderMsg :: layout where
  "AddOrderMsg = CommonHeader @
    [(''orderReferenceNumber'', 8), (''buySellIndicator'', 1), (''shares'', 4), (''stock'', 8),
     (''price'', 4)]"

definition AddOrderMPIDMsg :: layout where
  "AddOrderMPIDMsg = CommonHeader @
    [(''orderReferenceNumber'', 8), (''buySellIndicator'', 1), (''shares'', 4), (''stock'', 8),
     (''price'', 4), (''attribution'', 4)]"

definition OrderExecutedMsg :: layout where
  "OrderExecutedMsg = CommonHeader @
    [(''orderReferenceNumber'', 8), (''executedShares'', 4), (''matchNumber'', 8)]"

definition OrderExecutedWithPriceMsg :: layout where
  "OrderExecutedWithPriceMsg = CommonHeader @
    [(''orderReferenceNumber'', 8), (''executedShares'', 4), (''matchNumber'', 8), (''printable'', 1),
     (''executionPrice'', 4)]"

definition OrderCancelMsg :: layout where
  "OrderCancelMsg = CommonHeader @
    [(''orderReferenceNumber'', 8), (''cancelledShares'', 4)]"

definition OrderDeleteMsg :: layout where
  "OrderDeleteMsg = CommonHeader @
    [(''orderReferenceNumber'', 8)]"

definition OrderReplaceMsg :: layout where
  "OrderReplaceMsg = CommonHeader @
    [(''originalOrderReferenceNumber'', 8), (''newOrderReferenceNumber'', 8), (''shares'', 4),
     (''price'', 4)]"

definition NonCrossTradeMsg :: layout where
  "NonCrossTradeMsg = CommonHeader @
    [(''orderReferenceNumber'', 8), (''buySellIndicator'', 1), (''shares'', 4), (''stock'', 8),
     (''price'', 4), (''matchNumber'', 8)]"

definition CrossTradeMsg :: layout where
  "CrossTradeMsg = CommonHeader @
    [(''shares'', 8), (''stock'', 8), (''crossPrice'', 4), (''matchNumber'', 8), (''crossType'', 1)]"

definition BrokenTradeMsg :: layout where
  "BrokenTradeMsg = CommonHeader @
    [(''matchNumber'', 8)]"

definition NOIIMsg :: layout where
  "NOIIMsg = CommonHeader @
    [(''pairedShares'', 8), (''imbalanceShares'', 8), (''imbalanceDirection'', 1), (''stock'', 8),
     (''farPrice'', 4), (''nearPrice'', 4), (''currentReferencePrice'', 4), (''crossType'', 1),
     (''priceVariationIndicator'', 1)]"

definition RetailPriceImprovementIndicatorMsg :: layout where
  "RetailPriceImprovementIndicatorMsg = CommonHeader @
    [(''stock'', 8), (''interestFlag'', 1)]"

definition DLCRMsg :: layout where
  "DLCRMsg = CommonHeader @
    [(''stock'', 8), (''openEligibilityStatus'', 1), (''minimumAllowablePrice'', 4),
     (''maximumAllowablePrice'', 4), (''nearExecutionPrice'', 4), (''nearExecutionTime'', 8),
     (''lowerPriceRangeCollar'', 4), (''upperPriceRangeCollar'', 4)]"

section \<open>The registry of message types\<close>

definition kMsgMeta :: "(byte \<times> nat) list" where
  "kMsgMeta =
    [(ascii (CHR ''S''), sizeof_layout SystemEventMsg),
     (ascii (CHR ''R''), sizeof_layout StockDirectoryMsg),
     (ascii (CHR ''H''), sizeof_layout StockTradingActionMsg),
     (ascii (CHR ''Y''), sizeof_layout RegSHOMsg),
     (ascii (CHR ''L''), sizeof_layout MarketParticipantPositionMsg),
     (ascii (CHR ''V''), sizeof_layout MWCBDeclineLevelMsg),
     (ascii (CHR ''W''), sizeof_layout MWCBStatusMsg),
     (ascii (CHR ''K''), sizeof_layout IPOQuotingPeriodUpdateMsg),
     (ascii (CHR ''J''), sizeof_layout LULDAuctionCollarMsg),
     (ascii (CHR ''h''), sizeof_layout OperationalHaltMsg),
     (ascii (CHR ''A''), sizeof_layout AddOrderMsg),
     (ascii (CHR ''F''), sizeof_layout AddOrderMPIDMsg),
     (ascii (CHR ''E''), sizeof_layout OrderExecutedMsg),
     (ascii (CHR ''C''), sizeof_layout OrderExecutedWithPriceMsg),
     (ascii (CHR ''X''), sizeof_layout OrderCancelMsg),
     (ascii (CHR ''D''), sizeof_layout OrderDeleteMsg),
     (ascii (CHR ''U''), sizeof_layout OrderReplaceMsg),
     (ascii (CHR ''P''), sizeof_layout NonCrossTradeMsg),
     (ascii (CHR ''Q''), sizeof_layout CrossTradeMsg),
     (ascii (CHR ''B''), sizeof_layout BrokenTradeMsg),
     (ascii (CHR ''I''), sizeof_layout NOIIMsg),
     (ascii (CHR ''N''), sizeof_layout RetailPriceImprovementIndicatorMsg),
     (ascii (CHR ''O''), sizeof_layout DLCRMsg)]"

definition wire_payload_size :: "byte \<Rightarrow> nat" where
  "wire_payload_size type = (case find (\<lambda>m. fst m = type) kMsgMeta of Some m \<Rightarrow> snd m | None \<Rightarrow> 0)"

section \<open>Sizes and offsets\<close>

lemmas layout_defs = sizeof_layout_def
  CommonHeader_def SystemEventMsg_def StockDirectoryMsg_def StockTradingActionMsg_def RegSHOMsg_def
  MarketParticipantPositionMsg_def MWCBDeclineLevelMsg_def MWCBStatusMsg_def
  IPOQuotingPeriodUpdateMsg_def LULDAuctionCollarMsg_def OperationalHaltMsg_def AddOrderMsg_def
  AddOrderMPIDMsg_def OrderExecutedMsg_def OrderExecutedWithPriceMsg_def OrderCancelMsg_def
  OrderDeleteMsg_def OrderReplaceMsg_def NonCrossTradeMsg_def CrossTradeMsg_def BrokenTradeMsg_def
  NOIIMsg_def RetailPriceImprovementIndicatorMsg_def DLCRMsg_def

lemma static_asserts [simp]:
  "sizeof_layout CommonHeader = 11"
  "sizeof_layout SystemEventMsg = 12"
  "sizeof_layout StockDirectoryMsg = 39"
  "sizeof_layout StockTradingActionMsg = 25"
  "sizeof_layout RegSHOMsg = 20"
  "sizeof_layout MarketParticipantPositionMsg = 26"
  "sizeof_layout MWCBDeclineLevelMsg = 35"
  "sizeof_layout MWCBStatusMsg = 12"
  "sizeof_layout IPOQuotingPeriodUpdateMsg = 28"
  "sizeof_layout LULDAuctionCollarMsg = 35"
  "sizeof_layout OperationalHaltMsg = 21"
  "sizeof_layout AddOrderMsg = 36"
  "sizeof_layout AddOrderMPIDMsg = 40"
  "sizeof_layout OrderExecutedMsg = 31"
  "sizeof_layout OrderExecutedWithPriceMsg = 36"
  "sizeof_layout OrderCancelMsg = 23"
  "sizeof_layout OrderDeleteMsg = 19"
  "sizeof_layout OrderReplaceMsg = 35"
  "sizeof_layout NonCrossTradeMsg = 44"
  "sizeof_layout CrossTradeMsg = 40"
  "sizeof_layout BrokenTradeMsg = 19"
  "sizeof_layout NOIIMsg = 50"
  "sizeof_layout RetailPriceImprovementIndicatorMsg = 20"
  "sizeof_layout DLCRMsg = 48"
  by (simp_all add: layout_defs)

lemma offset_width_le: "f \<in> fst ` set M \<Longrightarrow> offset_of M f + width_of M f \<le> sizeof_layout M"
  by (induction M f rule: offset_of.induct) (auto simp: sizeof_layout_def)

lemma length_fit [simp]: "length (fit n bs) = n"
  by (simp add: fit_def)

lemma fit_id: "length bs = n \<Longrightarrow> fit n bs = bs"
  by (simp add: fit_def)

lemma length_put_fields [simp]: "length (put_fields M c) = sizeof_layout M"
  by (induction M) (auto simp: put_fields_def sizeof_layout_def)

lemma fld_put_fields:
  "f \<in> fst ` set M \<Longrightarrow> fld M f (put_fields M c @ r) = fit (width_of M f) (c f)"
proof (induction M f rule: offset_of.induct)
  case (1 f)
  then show ?case by simp
next
  case (2 g n M f)
  show ?case
  proof (cases "g = f")
    case True
    then show ?thesis by (simp add: fld_def put_fields_def)
  next
    case False
    then have "fld M f (put_fields M c @ r) = fit (width_of M f) (c f)" using 2 by auto
    with False show ?thesis by (simp add: fld_def put_fields_def add.commute flip: drop_drop)
  qed
qed

lemma wire_payload_size_0: "wire_payload_size t = 0 \<longleftrightarrow> t \<notin> fst ` set kMsgMeta"
  unfolding wire_payload_size_def kMsgMeta_def by (auto simp: ascii_def)

text \<open>
  The registry has the 23 message types, each once, with the size of its struct; every other byte
  has the size 0.
\<close>

lemma wire_payload_sizes:
  "map (\<lambda>c. wire_payload_size (ascii c)) ''SRHYLVWKJhAFECXDUPQBINO'' =
     [12, 39, 25, 20, 26, 35, 12, 28, 35, 21, 36, 40, 31, 36, 23, 19, 35, 44, 40, 19, 50, 20, 48] \<and>
   (wire_payload_size t = 0 \<longleftrightarrow> t \<notin> set (map ascii ''SRHYLVWKJhAFECXDUPQBINO''))"
proof
  show "map (\<lambda>c. wire_payload_size (ascii c)) ''SRHYLVWKJhAFECXDUPQBINO'' =
     [12, 39, 25, 20, 26, 35, 12, 28, 35, 21, 36, 40, 31, 36, 23, 19, 35, 44, 40, 19, 50, 20, 48]"
    by (simp add: wire_payload_size_def kMsgMeta_def ascii_def)
  show "wire_payload_size t = 0 \<longleftrightarrow> t \<notin> set (map ascii ''SRHYLVWKJhAFECXDUPQBINO'')"
    unfolding wire_payload_size_0 by (simp add: kMsgMeta_def)
qed

end
