(* ===== verification/Stats.thy ===== *)
theory Stats
  imports Itch_Types "HOL-Library.Multiset"
begin

text \<open>
  The run statistics of \<open>include/Stats.hpp\<close>: the counters the parser bumps, and the table of
  message types that the report prints, with its selection sort. The clock is not under the
  program's control: \<open>reset\<close> and \<open>finish\<close> take the reading of \<open>steady_clock::now()\<close> as a
  parameter. The rates and the text of the report are in \<open>Stats_Report\<close>.
\<close>

section \<open>Counters\<close>

text \<open>The clock counts nanoseconds from a start before the program's in a signed 64-bit integer, so its readings
are the values of its 63 value bits.\<close>

type_synonym time_point = "63 word"

record Stats =
  per_type :: "byte \<Rightarrow> u64"
  total_messages :: u64
  total_bytes :: u64
  total_framing_bytes :: u64
  parse_errors :: u64
  truncated_messages :: u64
  start_time :: time_point
  end_time :: time_point

definition Stats_init :: Stats where
  "Stats_init = \<lparr>per_type = (\<lambda>_. 0), total_messages = 0, total_bytes = 0, total_framing_bytes = 0,
     parse_errors = 0, truncated_messages = 0, start_time = 0, end_time = 0\<rparr>"

definition reset_stats :: "time_point \<Rightarrow> Stats \<Rightarrow> Stats" where
  "reset_stats now s = s\<lparr>per_type := (\<lambda>_. 0), total_messages := 0, total_bytes := 0,
     total_framing_bytes := 0, parse_errors := 0, truncated_messages := 0,
     start_time := now, end_time := now\<rparr>"

definition finish :: "time_point \<Rightarrow> Stats \<Rightarrow> Stats" where
  "finish now s = s\<lparr>end_time := now\<rparr>"

definition on_message :: "byte \<Rightarrow> u32 \<Rightarrow> Stats \<Rightarrow> Stats" where
  "on_message type payload_size s =
     s\<lparr>per_type := (per_type s)(type := per_type s type + 1),
       total_messages := total_messages s + 1,
       total_bytes := total_bytes s + ucast payload_size,
       total_framing_bytes := total_framing_bytes s + 2\<rparr>"

definition on_parse_error :: "Stats \<Rightarrow> Stats" where
  "on_parse_error s = s\<lparr>parse_errors := parse_errors s + 1\<rparr>"

definition on_truncated :: "Stats \<Rightarrow> Stats" where
  "on_truncated s = s\<lparr>truncated_messages := truncated_messages s + 1\<rparr>"

definition type_name :: "byte \<Rightarrow> string" where
  "type_name t =
    (if t = ascii (CHR ''S'') then ''SystemEvent''
     else if t = ascii (CHR ''R'') then ''StockDirectory''
     else if t = ascii (CHR ''H'') then ''StockTradingAction''
     else if t = ascii (CHR ''Y'') then ''RegSHO''
     else if t = ascii (CHR ''L'') then ''MarketParticipantPosition''
     else if t = ascii (CHR ''V'') then ''MWCBDeclineLevel''
     else if t = ascii (CHR ''W'') then ''MWCBStatus''
     else if t = ascii (CHR ''K'') then ''IPOQuotingPeriodUpdate''
     else if t = ascii (CHR ''J'') then ''LULDAuctionCollar''
     else if t = ascii (CHR ''h'') then ''OperationalHalt''
     else if t = ascii (CHR ''A'') then ''AddOrder''
     else if t = ascii (CHR ''F'') then ''AddOrderMPID''
     else if t = ascii (CHR ''E'') then ''OrderExecuted''
     else if t = ascii (CHR ''C'') then ''OrderExecutedWithPrice''
     else if t = ascii (CHR ''X'') then ''OrderCancel''
     else if t = ascii (CHR ''D'') then ''OrderDelete''
     else if t = ascii (CHR ''U'') then ''OrderReplace''
     else if t = ascii (CHR ''P'') then ''NonCrossTrade''
     else if t = ascii (CHR ''Q'') then ''CrossTrade''
     else if t = ascii (CHR ''B'') then ''BrokenTrade''
     else if t = ascii (CHR ''I'') then ''NOII''
     else if t = ascii (CHR ''N'') then ''RPII''
     else if t = ascii (CHR ''O'') then ''DLCR''
     else ''Unknown'')"

section \<open>The table of the report\<close>

record Row =
  row_type :: byte
  row_count :: u64

definition copy_rows :: "Stats \<Rightarrow> Row list" where
  "copy_rows s = map (\<lambda>i. \<lparr>row_type = of_nat i, row_count = per_type s (of_nat i)\<rparr>) [0..<256]"

definition select_best :: "Row list \<Rightarrow> nat \<Rightarrow> nat \<Rightarrow> nat" where
  "select_best rows i n =
     foldl (\<lambda>best j. if row_count (rows ! j) > row_count (rows ! best) then j else best) i [i + 1..<n]"

definition swap_rows :: "nat \<Rightarrow> nat \<Rightarrow> Row list \<Rightarrow> Row list" where
  "swap_rows i j rows = rows[i := rows ! j, j := rows ! i]"

definition select_row :: "nat \<Rightarrow> Row list \<Rightarrow> nat \<Rightarrow> Row list" where
  "select_row n rows i =
     (let best = select_best rows i n in if best \<noteq> i then swap_rows i best rows else rows)"

definition sort_rows :: "Row list \<Rightarrow> Row list" where
  "sort_rows rows = foldl (select_row (length rows)) rows [0..<length rows]"

definition shown_tag :: "byte \<Rightarrow> byte" where
  "shown_tag t = (if 32 \<le> sint t \<and> sint t < 127 then t else ascii (CHR ''.''))"

definition report_lines :: "Stats \<Rightarrow> (byte \<times> byte \<times> string \<times> u64) list" where
  "report_lines s = map (\<lambda>r. (shown_tag (row_type r), row_type r, type_name (row_type r), row_count r))
     (takeWhile (\<lambda>r. row_count r \<noteq> 0) (sort_rows (copy_rows s)))"

section \<open>The selection sort\<close>

lemma select_best_invariant:
  assumes "i < n"
  shows "i \<le> select_best rows i n \<and> select_best rows i n < n \<and>
    (\<forall>j. i \<le> j \<and> j < n \<longrightarrow> row_count (rows ! j) \<le> row_count (rows ! select_best rows i n))"
proof -
  let ?f = "\<lambda>best j. if row_count (rows ! j) > row_count (rows ! best) then j else best"
  have "i \<le> foldl ?f i [i + 1..<m] \<and> foldl ?f i [i + 1..<m] < m \<and>
    (\<forall>j. i \<le> j \<and> j < m \<longrightarrow> row_count (rows ! j) \<le> row_count (rows ! foldl ?f i [i + 1..<m]))"
    if "i < m" for m
    using that
  proof (induction m)
    case 0
    then show ?case by simp
  next
    case (Suc m)
    show ?case
    proof (cases "m = i")
      case True
      then show ?thesis by (auto simp: less_Suc_eq)
    next
      case False
      with Suc have "[i + 1..<Suc m] = [i + 1..<m] @ [m]" and IH: "i \<le> foldl ?f i [i + 1..<m]"
        "foldl ?f i [i + 1..<m] < m"
        "\<forall>j. i \<le> j \<and> j < m \<longrightarrow> row_count (rows ! j) \<le> row_count (rows ! foldl ?f i [i + 1..<m])" by auto
      then show ?thesis using Suc.prems by (auto simp: less_Suc_eq not_less intro: order_trans less_imp_le)
    qed
  qed
  from this [OF assms] show ?thesis unfolding select_best_def .
qed

lemma mset_swap_rows: "i < length rows \<Longrightarrow> j < length rows \<Longrightarrow> mset (swap_rows i j rows) = mset rows"
  by (simp add: swap_rows_def mset_swap)

lemma select_row_step:
  assumes i: "i < length rows" and n: "n = length rows"
    and sorted: "\<forall>j k. j < i \<and> j \<le> k \<and> k < n \<longrightarrow> row_count (rows ! k) \<le> row_count (rows ! j)"
  shows "mset (select_row n rows i) = mset rows \<and> length (select_row n rows i) = n \<and>
    (\<forall>j k. j < Suc i \<and> j \<le> k \<and> k < n \<longrightarrow> row_count (select_row n rows i ! k) \<le> row_count (select_row n rows i ! j))"
proof -
  define b where "b = select_best rows i n"
  from select_best_invariant [of i n rows] i n have b: "i \<le> b" "b < n"
    and max: "\<And>j. i \<le> j \<Longrightarrow> j < n \<Longrightarrow> row_count (rows ! j) \<le> row_count (rows ! b)" by (auto simp: b_def)
  have eq: "select_row n rows i = swap_rows i b rows"
    using b by (auto simp: select_row_def Let_def b_def [symmetric] swap_rows_def)
  have get: "swap_rows i b rows ! k = (if k = i then rows ! b else if k = b then rows ! i else rows ! k)" if "k < n" for k
    using that b i n by (auto simp: swap_rows_def nth_list_update)
  have "row_count (swap_rows i b rows ! k) \<le> row_count (swap_rows i b rows ! j)"
    if "j < Suc i" "j \<le> k" "k < n" for j k
  proof (cases "j = i")
    case True
    then show ?thesis using that max i n b by (simp add: get)
  next
    case False
    then have "j < i" using that by simp
    then show ?thesis using that sorted b i n by (simp add: get)
  qed
  moreover have "mset (select_row n rows i) = mset rows" using mset_swap_rows [of i rows b] b i n eq by metis
  moreover have "length (select_row n rows i) = n" unfolding eq using n by (simp add: swap_rows_def)
  ultimately show ?thesis unfolding eq by blast
qed

lemma sort_rows_invariant:
  assumes "i \<le> length rows"
  shows "mset (foldl (select_row (length rows)) rows [0..<i]) = mset rows \<and>
    length (foldl (select_row (length rows)) rows [0..<i]) = length rows \<and>
    (\<forall>j k. j < i \<and> j \<le> k \<and> k < length rows \<longrightarrow>
       row_count (foldl (select_row (length rows)) rows [0..<i] ! k) \<le> row_count (foldl (select_row (length rows)) rows [0..<i] ! j))"
  using assms
proof (induction i)
  case 0
  then show ?case by simp
next
  case (Suc i)
  then show ?case
    using select_row_step [of i "foldl (select_row (length rows)) rows [0..<i]" "length rows"] by simp
qed

lemma mset_sort_rows: "mset (sort_rows rows) = mset rows"
  and length_sort_rows [simp]: "length (sort_rows rows) = length rows"
  and sort_rows_descending: "sorted_wrt (\<lambda>r r'. row_count r' \<le> row_count r) (sort_rows rows)"
  using sort_rows_invariant [of "length rows" rows]
  by (simp_all add: sort_rows_def sorted_wrt_iff_nth_less)

lemma takeWhile_descending:
  assumes "sorted_wrt (\<lambda>r r'. row_count r' \<le> row_count r) rows"
  shows "takeWhile (\<lambda>r. row_count r \<noteq> 0) rows = filter (\<lambda>r. row_count r \<noteq> 0) rows"
  using assms
proof (induction rows)
  case Nil
  then show ?case by simp
next
  case (Cons r rows)
  then have "filter (\<lambda>r. row_count r \<noteq> 0) rows = []" if "row_count r = 0"
    using that by (auto simp: filter_empty_conv)
  with Cons show ?case by auto
qed

lemma set_copy_rows: "r \<in> set (copy_rows s) \<longleftrightarrow> row_count r = per_type s (row_type r)"
proof -
  have "\<exists>i<256. row_type r = of_nat i"
    by (intro exI [of _ "unat (row_type r)"]) (use unsigned_less [of "row_type r", where 'a = nat] in simp)
  then show ?thesis by (cases r) (auto simp: copy_rows_def image_iff)
qed

lemma distinct_copy_rows: "distinct (map row_type (copy_rows s))"
proof -
  have "inj_on (of_nat :: nat \<Rightarrow> byte) {0..<256}"
    by (rule inj_on_inverseI [of _ unat]) (simp add: unat_of_nat take_bit_nat_eq_self)
  then show ?thesis by (simp add: copy_rows_def comp_def distinct_map)
qed

lemma report_lines_row:
  assumes "(tag, type, name, n) \<in> set (report_lines s)"
  shows "tag = shown_tag type \<and> name = type_name type \<and> n = per_type s type"
proof -
  from assms obtain r where r: "r \<in> set (sort_rows (copy_rows s))"
    "(tag, type, name, n) = (shown_tag (row_type r), row_type r, type_name (row_type r), row_count r)"
    by (auto simp: report_lines_def dest: set_takeWhileD)
  then have "r \<in> set (copy_rows s)" using mset_eq_setD [OF mset_sort_rows] by metis
  then show ?thesis using r(2) by (simp add: set_copy_rows)
qed

text \<open>
  C33. The report lists every message type that was seen exactly once, with its counter and its
  name, in descending order of the counters, and no type that was not seen.
\<close>

theorem report_lines_complete:
  "set (report_lines s) = {(shown_tag t, t, type_name t, per_type s t) |t. per_type s t \<noteq> 0} \<and>
   distinct (map (\<lambda>(c, t, n, k). t) (report_lines s)) \<and>
   sorted_wrt (\<lambda>(c, t, n, k) (c', t', n', k'). k' \<le> k) (report_lines s)"
proof -
  let ?rows = "sort_rows (copy_rows s)" and ?line = "\<lambda>r. (shown_tag (row_type r), row_type r, type_name (row_type r), row_count r)"
  let ?shown = "filter (\<lambda>r. row_count r \<noteq> 0) ?rows"
  have lines: "report_lines s = map ?line ?shown"
    unfolding report_lines_def takeWhile_descending [OF sort_rows_descending] ..
  have set: "set ?rows = set (copy_rows s)" using mset_sort_rows by (rule mset_eq_setD)
  have "distinct (map row_type ?rows)"
  proof -
    have "mset (map row_type ?rows) = mset (map row_type (copy_rows s))" by (simp add: mset_sort_rows)
    then show ?thesis using distinct_copy_rows [of s] by (metis mset_eq_imp_distinct_iff)
  qed
  then have "distinct (map row_type ?shown)" by (rule distinct_map_filter)
  moreover have "sorted_wrt (\<lambda>r r'. row_count r' \<le> row_count r) ?shown"
    by (rule sorted_wrt_filter [OF sort_rows_descending])
  moreover have "set (report_lines s) = {(shown_tag t, t, type_name t, per_type s t) |t. per_type s t \<noteq> 0}"
  proof (rule set_eqI)
    fix l
    show "l \<in> set (report_lines s) \<longleftrightarrow> l \<in> {(shown_tag t, t, type_name t, per_type s t) |t. per_type s t \<noteq> 0}"
      unfolding lines set_map set_filter set image_iff mem_Collect_eq set_copy_rows
      by (auto intro: exI [of _ "\<lparr>row_type = t, row_count = per_type s t\<rparr>" for t])
  qed
  ultimately show ?thesis unfolding lines by (simp add: sorted_wrt_map comp_def)
qed

end
