(* ===== verification/Order_Index.thy ===== *)
theory Order_Index
  imports Price_Level Keyed_Table
begin

text \<open>
  \<open>DirectOrderIndex\<close> of \<open>include/MatchingEngine.hpp\<close>: an array of order pointers indexed by
  the low 25 bits of the reference number, and an overflow map for the orders whose slot is
  taken. A lookup reads the reference number out of the order a slot points to, so every
  operation works on the arena. The array is a function of the masked index; the
  \<open>std::unordered_map\<close> is an association list with distinct keys.
\<close>

section \<open>Definitions\<close>

definition ix_kCapacity :: u64 where "ix_kCapacity = 2 ^ 25"

record DirectOrderIndex =
  ix_slots :: "nat \<Rightarrow> ptr"
  ix_overflow :: "(OrderReferenceNumber \<times> nat) list"
  ix_count :: u64
  ix_collisions :: u64

definition DirectOrderIndex_init :: DirectOrderIndex where
  "DirectOrderIndex_init = \<lparr>ix_slots = (\<lambda>_. None), ix_overflow = [], ix_count = 0, ix_collisions = 0\<rparr>"

definition ix_slot :: "OrderReferenceNumber \<Rightarrow> nat" where
  "ix_slot oid = unat (oid AND (ix_kCapacity - 1))"

definition ix_insert ::
  "arena \<Rightarrow> DirectOrderIndex \<Rightarrow> OrderReferenceNumber \<Rightarrow> nat \<Rightarrow> (bool \<times> DirectOrderIndex) exec" where
  "ix_insert ar ix oid i = (case ix_slots ix (ix_slot oid) of
      None \<Rightarrow> Some (True, ix\<lparr>ix_slots := (ix_slots ix)(ix_slot oid := Some i), ix_count := ix_count ix + 1\<rparr>)
    | Some p \<Rightarrow> do {
        x \<leftarrow> get_order ar p;
        if o_order_id x = oid then Some (False, ix)
        else if map_of (ix_overflow ix) oid \<noteq> None then Some (False, ix)
        else Some (True, ix\<lparr>ix_overflow := (oid, i) # ix_overflow ix, ix_count := ix_count ix + 1,
                           ix_collisions := ix_collisions ix + 1\<rparr>) })"

definition ix_find :: "arena \<Rightarrow> DirectOrderIndex \<Rightarrow> OrderReferenceNumber \<Rightarrow> ptr exec" where
  "ix_find ar ix oid = (case ix_slots ix (ix_slot oid) of
      None \<Rightarrow> Some (map_of (ix_overflow ix) oid)
    | Some p \<Rightarrow> do {
        x \<leftarrow> get_order ar p;
        if o_order_id x = oid then Some (Some p) else Some (map_of (ix_overflow ix) oid) })"

definition ix_erase_overflow :: "DirectOrderIndex \<Rightarrow> OrderReferenceNumber \<Rightarrow> bool \<times> DirectOrderIndex" where
  "ix_erase_overflow ix oid =
     (if map_of (ix_overflow ix) oid \<noteq> None
      then (True, ix\<lparr>ix_overflow := filter (\<lambda>e. fst e \<noteq> oid) (ix_overflow ix), ix_count := ix_count ix - 1\<rparr>)
      else (False, ix))"

definition ix_erase ::
  "arena \<Rightarrow> DirectOrderIndex \<Rightarrow> OrderReferenceNumber \<Rightarrow> (bool \<times> DirectOrderIndex) exec" where
  "ix_erase ar ix oid = (case ix_slots ix (ix_slot oid) of
      None \<Rightarrow> Some (ix_erase_overflow ix oid)
    | Some p \<Rightarrow> do {
        x \<leftarrow> get_order ar p;
        if o_order_id x = oid
        then Some (True, ix\<lparr>ix_slots := (ix_slots ix)(ix_slot oid := None), ix_count := ix_count ix - 1\<rparr>)
        else Some (ix_erase_overflow ix oid) })"

definition ix_clear :: "DirectOrderIndex \<Rightarrow> DirectOrderIndex" where
  "ix_clear ix = ix\<lparr>ix_slots := (\<lambda>_. None), ix_overflow := [], ix_count := 0\<rparr>"

definition ix_overflow_size :: "DirectOrderIndex \<Rightarrow> nat" where
  "ix_overflow_size ix = length (ix_overflow ix)"

section \<open>Content and invariant\<close>

definition ix_fits :: "arena \<Rightarrow> OrderReferenceNumber \<Rightarrow> nat \<Rightarrow> bool" where
  "ix_fits ar oid i \<longleftrightarrow> (\<exists>x. order_at ar i x \<and> o_order_id x = oid)"

lemma ix_fits_iff: "order_at ar i x \<Longrightarrow> ix_fits ar oid i \<longleftrightarrow> o_order_id x = oid"
  using order_at_unique by (auto simp: ix_fits_def)

definition ix_content :: "arena \<Rightarrow> DirectOrderIndex \<Rightarrow> OrderReferenceNumber \<Rightarrow> ptr" where
  "ix_content ar ix oid = (case ix_slots ix (ix_slot oid) of
      Some p \<Rightarrow> (if ix_fits ar oid p then Some p else map_of (ix_overflow ix) oid)
    | None \<Rightarrow> map_of (ix_overflow ix) oid)"

definition ix_ok :: "arena \<Rightarrow> DirectOrderIndex \<Rightarrow> bool" where
  "ix_ok ar ix \<longleftrightarrow>
     (\<forall>n p. ix_slots ix n = Some p \<longrightarrow> (\<exists>x. order_at ar p x \<and> ix_slot (o_order_id x) = n)) \<and>
     (\<forall>oid p. map_of (ix_overflow ix) oid = Some p \<longrightarrow> (\<exists>x. order_at ar p x \<and> o_order_id x = oid)) \<and>
     (\<forall>p x. ix_slots ix (ix_slot (o_order_id x)) = Some p \<longrightarrow> order_at ar p x \<longrightarrow>
        map_of (ix_overflow ix) (o_order_id x) = None) \<and>
     distinct (map fst (ix_overflow ix)) \<and>
     finite (dom (ix_content ar ix)) \<and> ix_count ix = of_nat (card (dom (ix_content ar ix)))"

lemma ix_okD:
  assumes "ix_ok ar ix"
  shows "\<And>n p. ix_slots ix n = Some p \<Longrightarrow> \<exists>x. order_at ar p x \<and> ix_slot (o_order_id x) = n"
    and "\<And>oid p. map_of (ix_overflow ix) oid = Some p \<Longrightarrow> \<exists>x. order_at ar p x \<and> o_order_id x = oid"
    and "\<And>p x. ix_slots ix (ix_slot (o_order_id x)) = Some p \<Longrightarrow> order_at ar p x \<Longrightarrow>
        map_of (ix_overflow ix) (o_order_id x) = None"
    and "distinct (map fst (ix_overflow ix))"
    and "finite (dom (ix_content ar ix))" "ix_count ix = of_nat (card (dom (ix_content ar ix)))"
  using assms unfolding ix_ok_def by blast+

lemma ix_okI:
  assumes "\<And>n p. ix_slots ix n = Some p \<Longrightarrow> \<exists>x. order_at ar p x \<and> ix_slot (o_order_id x) = n"
    and "\<And>oid p. map_of (ix_overflow ix) oid = Some p \<Longrightarrow> \<exists>x. order_at ar p x \<and> o_order_id x = oid"
    and "\<And>p x. ix_slots ix (ix_slot (o_order_id x)) = Some p \<Longrightarrow> order_at ar p x \<Longrightarrow>
        map_of (ix_overflow ix) (o_order_id x) = None"
    and "distinct (map fst (ix_overflow ix))" and "ix_content ar ix = f" "finite (dom f)"
    and "ix_count ix = of_nat (card (dom f))"
  shows "ix_ok ar ix"
  unfolding ix_ok_def using assms by blast

lemma ix_content_order:
  "ix_ok ar ix \<Longrightarrow> ix_content ar ix oid = Some p \<Longrightarrow> \<exists>x. order_at ar p x \<and> o_order_id x = oid"
  using ix_okD(2) [of ar ix oid p] by (auto simp: ix_content_def ix_fits_def split: option.splits if_splits)

lemma ix_find_content: "ix_ok ar ix \<Longrightarrow> ix_find ar ix oid = Some (ix_content ar ix oid)"
proof (cases "ix_slots ix (ix_slot oid)")
  case None
  then show ?thesis by (simp add: ix_find_def ix_content_def)
next
  case (Some p)
  moreover assume "ix_ok ar ix"
  ultimately obtain x where "order_at ar p x" using ix_okD(1) by blast
  then show ?thesis using Some by (simp add: ix_find_def ix_content_def exec_simps ix_fits_iff)
qed

lemma filter_map_of:
  "map_of (filter (\<lambda>e. fst e \<noteq> k) xs) = (map_of xs)(k := None)"
  by (induction xs) (auto simp: fun_eq_iff)

section \<open>The index is a keyed table\<close>

lemma ix_slot_keys:
  assumes "ix_ok ar ix" "ix_content ar ix oid = None" "ix_slots ix (ix_slot oid) = Some p" "order_at ar p x"
  shows "o_order_id x \<noteq> oid"
  using assms by (auto simp: ix_content_def ix_fits_iff split: if_splits)

lemma ix_overflow_absent:
  "ix_content ar ix oid = None \<Longrightarrow> map_of (ix_overflow ix) oid = None"
  by (auto simp: ix_content_def split: option.splits if_splits)

lemma ix_insert_fresh:
  assumes ok: "ix_ok ar ix" and fits: "ix_fits ar oid i" and none: "ix_content ar ix oid = None"
  shows "\<exists>ix'. ix_insert ar ix oid i = Some (True, ix') \<and> ix_ok ar ix' \<and>
    ix_content ar ix' = (ix_content ar ix)(oid \<mapsto> i)"
proof -
  note D = ix_okD [OF ok]
  from fits obtain x where x: "order_at ar i x" "o_order_id x = oid" by (auto simp: ix_fits_def)
  have count: "of_nat (card (dom ((ix_content ar ix)(oid \<mapsto> i)))) = ix_count ix + 1"
    using D(5,6) none by (simp add: domIff)
  have fin: "finite (dom ((ix_content ar ix)(oid \<mapsto> i)))" using D(5) by simp
  show ?thesis
  proof (cases "ix_slots ix (ix_slot oid)")
    case None
    let ?ix = "ix\<lparr>ix_slots := (ix_slots ix)(ix_slot oid := Some i), ix_count := ix_count ix + 1\<rparr>"
    have content: "ix_content ar ?ix = (ix_content ar ix)(oid \<mapsto> i)"
      using x(2) None by (auto simp: ix_content_def fun_eq_iff ix_fits_iff [OF x(1)] split: option.splits)
    have "ix_ok ar ?ix"
    proof (rule ix_okI [OF _ _ _ _ content fin])
      fix n p assume "ix_slots ?ix n = Some p"
      then show "\<exists>x. order_at ar p x \<and> ix_slot (o_order_id x) = n"
        using D(1) x by (cases "n = ix_slot oid") auto
    next
      fix p z assume z: "ix_slots ?ix (ix_slot (o_order_id z)) = Some p" "order_at ar p z"
      show "map_of (ix_overflow ?ix) (o_order_id z) = None"
      proof (cases "ix_slot (o_order_id z) = ix_slot oid")
        case True
        then have "z = x" using z x(1) order_at_unique by simp
        then show ?thesis using ix_overflow_absent [OF none] x(2) by simp
      qed (use z D(3) in simp)
    qed (use D(2,4) count in auto)
    with content None show ?thesis by (simp add: ix_insert_def)
  next
    case (Some p)
    let ?ix = "ix\<lparr>ix_overflow := (oid, i) # ix_overflow ix, ix_count := ix_count ix + 1,
                 ix_collisions := ix_collisions ix + 1\<rparr>"
    from D(1) [OF Some] obtain y where y: "order_at ar p y" by blast
    have neq: "o_order_id y \<noteq> oid" by (rule ix_slot_keys [OF ok none Some y])
    note abs = ix_overflow_absent [OF none]
    have content: "ix_content ar ?ix = (ix_content ar ix)(oid \<mapsto> i)"
      using Some neq by (auto simp: ix_content_def fun_eq_iff ix_fits_iff [OF y] split: option.splits)
    have "oid \<notin> fst ` set (ix_overflow ix)" using abs by (simp add: map_of_eq_None_iff)
    moreover have "map_of ((oid, i) # ix_overflow ix) (o_order_id z) = None"
      if "ix_slots ix (ix_slot (o_order_id z)) = Some q" "order_at ar q z" for q z
    proof -
      have "o_order_id z \<noteq> oid"
      proof
        assume z: "o_order_id z = oid"
        then have "q = p" using that(1) Some by simp
        with that(2) y have "z = y" using order_at_unique by blast
        with z neq show False by simp
      qed
      then show ?thesis using D(3) [OF that] by simp
    qed
    ultimately have "ix_ok ar ?ix"
      using D(1,4) count by (intro ix_okI [OF _ _ _ _ content fin]) (auto simp: x D(2) split: if_splits intro: x)
    with content Some y neq abs show ?thesis by (simp add: ix_insert_def exec_simps)
  qed
qed

lemma ix_erase_overflow_ok:
  assumes ok: "ix_ok ar ix" and slot: "\<forall>p. ix_slots ix (ix_slot oid) = Some p \<longrightarrow> \<not> ix_fits ar oid p"
  shows "ix_ok ar (snd (ix_erase_overflow ix oid)) \<and>
    ix_content ar (snd (ix_erase_overflow ix oid)) = (ix_content ar ix)(oid := None)"
proof -
  note D = ix_okD [OF ok]
  have at: "ix_content ar ix oid = map_of (ix_overflow ix) oid"
    using slot by (auto simp: ix_content_def split: option.splits)
  show ?thesis
  proof (cases "map_of (ix_overflow ix) oid")
    case None
    with ok at show ?thesis by (auto simp: ix_erase_overflow_def)
  next
    case (Some i)
    let ?ix = "ix\<lparr>ix_overflow := filter (\<lambda>e. fst e \<noteq> oid) (ix_overflow ix), ix_count := ix_count ix - 1\<rparr>"
    have content: "ix_content ar ?ix = (ix_content ar ix)(oid := None)"
      using slot by (auto simp: ix_content_def filter_map_of fun_eq_iff split: option.splits)
    have "of_nat (card (dom ((ix_content ar ix)(oid := None)))) = ix_count ix - 1"
    proof -
      have "oid \<in> dom (ix_content ar ix)" using at Some by (simp add: domIff)
      then have "Suc (card (dom (ix_content ar ix) - {oid})) = card (dom (ix_content ar ix))"
        by (rule card_Suc_Diff1 [OF D(5)])
      from this [symmetric] show ?thesis by (simp add: D(6))
    qed
    moreover have "distinct (map fst (filter (\<lambda>e. fst e \<noteq> oid) (ix_overflow ix)))"
      using D(4) by (simp add: distinct_map_filter)
    ultimately have "ix_ok ar ?ix"
      unfolding ix_ok_def content using D(1-3,5) by (auto simp: filter_map_of)
    with content Some show ?thesis by (simp add: ix_erase_overflow_def)
  qed
qed

lemma ix_erase_ok:
  assumes ok: "ix_ok ar ix"
  shows "\<exists>r ix'. ix_erase ar ix oid = Some (r, ix') \<and> ix_ok ar ix' \<and>
    ix_content ar ix' = (ix_content ar ix)(oid := None)"
proof (cases "ix_slots ix (ix_slot oid)")
  case None
  with ix_erase_overflow_ok [OF ok, of oid] show ?thesis
    by (cases "ix_erase_overflow ix oid") (simp add: ix_erase_def)
next
  case (Some p)
  note D = ix_okD [OF ok]
  from D(1) [OF Some] obtain x where x: "order_at ar p x" "ix_slot (o_order_id x) = ix_slot oid" by blast
  show ?thesis
  proof (cases "o_order_id x = oid")
    case False
    then have "\<forall>q. ix_slots ix (ix_slot oid) = Some q \<longrightarrow> \<not> ix_fits ar oid q"
      using Some by (simp add: ix_fits_iff [OF x(1)])
    from ix_erase_overflow_ok [OF ok this] False Some x show ?thesis
      by (cases "ix_erase_overflow ix oid") (simp add: ix_erase_def exec_simps)
  next
    case True
    let ?ix = "ix\<lparr>ix_slots := (ix_slots ix)(ix_slot oid := None), ix_count := ix_count ix - 1\<rparr>"
    have abs: "map_of (ix_overflow ix) oid = None" using D(3) [of x p] Some x(1) True by simp
    have content: "ix_content ar ?ix = (ix_content ar ix)(oid := None)"
      using Some x(2) True abs by (auto simp: ix_content_def fun_eq_iff ix_fits_iff [OF x(1)] split: option.splits)
    have "of_nat (card (dom ((ix_content ar ix)(oid := None)))) = ix_count ix - 1"
    proof -
      have "oid \<in> dom (ix_content ar ix)" using Some True by (simp add: ix_content_def ix_fits_iff [OF x(1)] domIff)
      then have "Suc (card (dom (ix_content ar ix) - {oid})) = card (dom (ix_content ar ix))"
        by (rule card_Suc_Diff1 [OF D(5)])
      from this [symmetric] show ?thesis by (simp add: D(6))
    qed
    note count = this
    have "ix_ok ar ?ix"
    proof (rule ix_okI [OF _ _ _ _ content])
      fix p z assume "ix_slots ?ix (ix_slot (o_order_id z)) = Some p" "order_at ar p z"
      then show "map_of (ix_overflow ?ix) (o_order_id z) = None" using D(3) by (simp split: if_splits)
    next
      fix n p assume "ix_slots ?ix n = Some p"
      then show "\<exists>x. order_at ar p x \<and> ix_slot (o_order_id x) = n" using D(1) by (simp split: if_splits)
    qed (use D(2,4,5) count in auto)
    with content Some x True show ?thesis by (auto simp: ix_erase_def exec_simps)
  qed
qed

definition ix_del :: "arena \<Rightarrow> DirectOrderIndex \<Rightarrow> OrderReferenceNumber \<Rightarrow> DirectOrderIndex exec" where
  "ix_del ar ix oid = do { (_, ix') \<leftarrow> ix_erase ar ix oid; Some ix' }"

interpretation oix: keyed_table "ix_insert ar" "ix_find ar" "ix_del ar" "ix_content ar" "ix_ok ar"
  "ix_fits ar" "\<lambda>_. True"
proof unfold_locales
  fix ix oid v assume ok: "ix_ok ar ix"
  show "ix_find ar ix oid = Some (ix_content ar ix oid)" using ok by (rule ix_find_content)
  show "\<exists>ix'. ix_insert ar ix oid v = Some (True, ix') \<and> ix_ok ar ix' \<and>
      ix_content ar ix' = (ix_content ar ix)(oid \<mapsto> v)"
    if "ix_fits ar oid v" "ix_content ar ix oid = None" using ix_insert_fresh [OF ok that] .
  show "\<exists>ix'. ix_del ar ix oid = Some ix' \<and> ix_ok ar ix' \<and>
      ix_content ar ix' = (ix_content ar ix)(oid := None)"
    using ix_erase_ok [OF ok, of oid] by (auto simp: ix_del_def)
qed

section \<open>Changes of the arena\<close>

text \<open>The index only depends on the reference numbers of the orders it holds.\<close>

definition ids_kept :: "nat set \<Rightarrow> arena \<Rightarrow> arena \<Rightarrow> bool" where
  "ids_kept Q ar ar' \<longleftrightarrow> (\<forall>i\<in>Q. \<forall>x. order_at ar i x \<longrightarrow>
     (\<exists>x'. order_at ar' i x' \<and> o_order_id x' = o_order_id x))"

lemma ix_held:
  assumes "ix_ok ar ix"
  shows "ix_slots ix n = Some p \<Longrightarrow> p \<in> ran (ix_content ar ix)"
    and "map_of (ix_overflow ix) oid = Some p \<Longrightarrow> p \<in> ran (ix_content ar ix)"
proof -
  note D = ix_okD [OF assms]
  show "p \<in> ran (ix_content ar ix)" if n: "ix_slots ix n = Some p"
  proof -
    from D(1) [OF n] obtain x where "order_at ar p x" "ix_slot (o_order_id x) = n" by blast
    then have "ix_content ar ix (o_order_id x) = Some p" using n by (auto simp: ix_content_def ix_fits_def)
    then show ?thesis by (auto simp: ran_def)
  qed
  show "p \<in> ran (ix_content ar ix)" if o: "map_of (ix_overflow ix) oid = Some p"
  proof -
    have "ix_content ar ix oid = Some p"
    proof (cases "ix_slots ix (ix_slot oid)")
      case (Some q)
      have "\<not> ix_fits ar oid q" using D(3) [of _ q] Some o by (auto simp: ix_fits_def)
      with Some o show ?thesis by (simp add: ix_content_def)
    qed (simp add: ix_content_def o)
    then show ?thesis by (auto simp: ran_def)
  qed
qed

lemma ix_arena:
  assumes ok: "ix_ok ar ix" and kept: "ids_kept (ran (ix_content ar ix)) ar ar'"
  shows "ix_ok ar' ix" "ix_content ar' ix = ix_content ar ix"
proof -
  note D = ix_okD [OF ok]
  have keep: "\<exists>x'. order_at ar' p x' \<and> o_order_id x' = o_order_id x"
    if "ix_slots ix n = Some p \<or> map_of (ix_overflow ix) oid = Some p" "order_at ar p x" for n oid p x
    using kept that ix_held [OF ok] unfolding ids_kept_def by blast
  have same_id: "o_order_id y = o_order_id x"
    if "ix_slots ix n = Some p" "order_at ar' p y" "order_at ar p x" for n p x y
    using keep [of n p undefined x] that order_at_unique by blast
  show content: "ix_content ar' ix = ix_content ar ix"
  proof
    fix oid
    show "ix_content ar' ix oid = ix_content ar ix oid"
    proof (cases "ix_slots ix (ix_slot oid)")
      case (Some p)
      from D(1) [OF Some] obtain x where x: "order_at ar p x" by blast
      from keep [of "ix_slot oid" p] Some x obtain x' where x': "order_at ar' p x'" "o_order_id x' = o_order_id x"
        by blast
      have "ix_fits ar' oid p = ix_fits ar oid p" by (simp add: ix_fits_iff [OF x] ix_fits_iff [OF x'(1)] x'(2))
      with Some show ?thesis by (simp add: ix_content_def)
    qed (simp add: ix_content_def)
  qed
  have 1: "\<exists>x. order_at ar' p x \<and> ix_slot (o_order_id x) = n" if "ix_slots ix n = Some p" for n p
    using D(1) [OF that] keep that by metis
  have 2: "\<exists>x. order_at ar' p x \<and> o_order_id x = oid" if "map_of (ix_overflow ix) oid = Some p" for oid p
    using D(2) [OF that] keep that by metis
  have 3: "map_of (ix_overflow ix) (o_order_id x) = None"
    if "ix_slots ix (ix_slot (o_order_id x)) = Some p" "order_at ar' p x" for p x
  proof -
    from D(1) [OF that(1)] obtain y where y: "order_at ar p y" by blast
    have "o_order_id x = o_order_id y" by (rule same_id [OF that y])
    then show ?thesis using D(3) [of y p] that(1) y by simp
  qed
  show "ix_ok ar' ix"
    unfolding ix_ok_def content using 1 2 3 D(4-6) by blast
qed

lemma ix_ok_init: "ix_ok ar DirectOrderIndex_init" "ix_content ar DirectOrderIndex_init = Map.empty"
proof -
  show "ix_content ar DirectOrderIndex_init = Map.empty"
    by (simp add: ix_content_def DirectOrderIndex_init_def fun_eq_iff)
  then show "ix_ok ar DirectOrderIndex_init"
    unfolding ix_ok_def by (simp add: DirectOrderIndex_init_def)
qed

end
