(* ===== verification/Instrument_Map.thy ===== *)
theory Instrument_Map
  imports Order_Book
begin

text \<open>
  \<open>Instrument\<close> and \<open>InstrumentMap\<close> of \<open>include/InstrumentMap.hpp\<close>: a fixed array from
  stock locate to the instrument, which owns its order book. Every instrument is reachable
  through exactly one slot, so the map holds instruments by value and an update through the
  pointer that \<open>operator[]\<close> or \<open>get_or_create\<close> returned is an update of the slot.
\<close>

section \<open>Instruments\<close>

record Instrument =
  in_locate :: StockLocate
  in_symbol :: Stock
  in_marketCategory :: MarketCategory
  in_financialStatus :: FinancialStatusIndicator
  in_roundLotSize :: RoundLotSize
  in_roundLotsOnly :: RoundLotsOnly
  in_authenticity :: Authenticity
  in_shortScale :: ShortScaleThresholdIndicator
  in_ipoFlag :: IPOFlag
  in_luldTier :: LULDReferencePriceTier
  in_etpFlag :: ETPFlag
  in_etpLeverageFactor :: ETPLeverageFactor
  in_inverseIndicator :: InverseIndicator
  in_tradingState :: TradingState
  in_regSHOAction :: RegSHOAction
  in_book :: "OrderBook option"

definition Instrument_init :: Instrument where
  "Instrument_init = \<lparr>in_locate = 0, in_symbol = replicate 8 0,
     in_marketCategory = MarketCategory_NotAvailable, in_financialStatus = FinancialStatus_Normal,
     in_roundLotSize = 100, in_roundLotsOnly = RoundLotsOnly_No,
     in_authenticity = Authenticity_Production, in_shortScale = ShortScale_NotRestricted,
     in_ipoFlag = IPOFlag_NotAvailable, in_luldTier = LULDTier_NotAvailable,
     in_etpFlag = ETPFlag_NotAvailable, in_etpLeverageFactor = 1,
     in_inverseIndicator = Inverse_NotInverseETP, in_tradingState = TradingState_Halted,
     in_regSHOAction = RegSHOAction_NoPriceTest, in_book = None\<rparr>"

definition ensure_book :: "Instrument \<Rightarrow> Instrument" where
  "ensure_book inst = (case in_book inst of
      None \<Rightarrow> inst\<lparr>in_book := Some OrderBook_init\<rparr>
    | Some _ \<Rightarrow> inst)"

definition set_symbol :: "byte list \<Rightarrow> Instrument \<Rightarrow> Instrument" where
  "set_symbol src inst = inst\<lparr>in_symbol := take 8 src\<rparr>"

section \<open>The map\<close>

record InstrumentMap =
  im_slots :: "StockLocate \<Rightarrow> Instrument option"
  im_count :: u64

definition InstrumentMap_init :: InstrumentMap where
  "InstrumentMap_init = \<lparr>im_slots = (\<lambda>_. None), im_count = 0\<rparr>"

definition im_at :: "InstrumentMap \<Rightarrow> StockLocate \<Rightarrow> Instrument option" where
  "im_at im loc = im_slots im loc"

definition im_put :: "InstrumentMap \<Rightarrow> StockLocate \<Rightarrow> Instrument \<Rightarrow> InstrumentMap" where
  "im_put im loc inst = im\<lparr>im_slots := (im_slots im)(loc := Some inst)\<rparr>"

definition get_or_create :: "InstrumentMap \<Rightarrow> StockLocate \<Rightarrow> Instrument \<times> InstrumentMap" where
  "get_or_create im loc = (case im_slots im loc of
      Some p \<Rightarrow> (p, im)
    | None \<Rightarrow> (let p = Instrument_init\<lparr>in_locate := loc\<rparr>
               in (p, im\<lparr>im_slots := (im_slots im)(loc := Some p), im_count := im_count im + 1\<rparr>)))"

definition im_size :: "InstrumentMap \<Rightarrow> u64" where
  "im_size im = im_count im"

definition im_for_each :: "InstrumentMap \<Rightarrow> Instrument list" where
  "im_for_each im = List.map_filter (\<lambda>i. im_slots im (of_nat i)) [0..<kMaxInstruments]"

section \<open>Facts\<close>

definition im_ok :: "InstrumentMap \<Rightarrow> bool" where
  "im_ok im \<longleftrightarrow> (\<forall>loc inst. im_slots im loc = Some inst \<longrightarrow> in_locate inst = loc) \<and>
     im_count im = of_nat (card (dom (im_slots im)))"

lemma im_ok_init: "im_ok InstrumentMap_init"
  by (simp add: im_ok_def InstrumentMap_init_def)

lemma get_or_create_slot: "im_slots (snd (get_or_create im loc)) loc = Some (fst (get_or_create im loc))"
  by (simp add: get_or_create_def Let_def split: option.splits)

lemma get_or_create_other:
  "loc' \<noteq> loc \<Longrightarrow> im_slots (snd (get_or_create im loc)) loc' = im_slots im loc'"
  by (simp add: get_or_create_def Let_def split: option.splits)

lemma get_or_create_ok:
  assumes "im_ok im" shows "im_ok (snd (get_or_create im loc))"
proof (cases "im_slots im loc")
  case None
  have "card (insert loc (dom (im_slots im))) = Suc (card (dom (im_slots im)))"
    using None by (subst card_insert_disjoint) (auto simp: domIff)
  with assms None show ?thesis
    by (auto simp: im_ok_def get_or_create_def Let_def Instrument_init_def add.commute)
qed (use assms in \<open>simp add: get_or_create_def\<close>)

lemma im_put_ok:
  "im_ok im \<Longrightarrow> im_slots im loc \<noteq> None \<Longrightarrow> in_locate inst = loc \<Longrightarrow> im_ok (im_put im loc inst)"
proof -
  assume ok: "im_ok im" "im_slots im loc \<noteq> None" "in_locate inst = loc"
  then have "dom ((im_slots im)(loc := Some inst)) = dom (im_slots im)" by auto
  moreover have "in_locate i = l" if "((im_slots im)(loc := Some inst)) l = Some i" for l i
    using that ok by (auto simp: im_ok_def split: if_splits)
  ultimately show ?thesis using ok(1) by (simp add: im_ok_def im_put_def del: fun_upd_apply)
qed

end
