(* ===== verification/Matching_Engine.thy ===== *)
theory Matching_Engine
  imports Order_Index Instrument_Map
begin

text \<open>
  \<open>EngineStats\<close> and \<open>MatchingEngine\<close> of \<open>include/MatchingEngine.hpp\<close>: the handlers that the
  parser calls, one per message type. The state holds the instruments, the two pools (an
  \<open>arena\<close>), the order index and the counters; the logger reference is never used by the
  engine. A handler is a function of the state and of the message fields it uses (arguments
  the code leaves unnamed are left out) and returns the new state; \<open>None\<close> would be undefined
  behaviour. The \<open>thread_local\<close> snapshot of \<open>on_cross_trade\<close> is cleared before it is used,
  so it is a local list.
\<close>

section \<open>State\<close>

record EngineStats =
  st_add_orders :: u64
  st_add_orders_with_mpid :: u64
  st_order_executed :: u64
  st_order_executed_with_price :: u64
  st_order_cancel :: u64
  st_order_delete :: u64
  st_order_replace :: u64
  st_non_cross_trades :: u64
  st_cross_trades :: u64
  st_broken_trades :: u64
  st_instruments_registered :: u64
  st_add_rejected_pool_exhausted :: u64
  st_add_rejected_level_pool_exhausted :: u64
  st_replace_rejected_pool_exhausted :: u64
  st_duplicate_adds :: u64
  st_locate_mismatches :: u64
  st_level_missing :: u64
  st_unknown_order_events :: u64
  st_live_orders :: u64
  st_live_levels :: u64
  st_peak_live_orders :: u64
  st_peak_live_levels :: u64
  st_pool_exhausted :: u64

definition EngineStats_init :: EngineStats where
  "EngineStats_init = \<lparr>st_add_orders = 0, st_add_orders_with_mpid = 0, st_order_executed = 0,
     st_order_executed_with_price = 0, st_order_cancel = 0, st_order_delete = 0, st_order_replace = 0,
     st_non_cross_trades = 0, st_cross_trades = 0, st_broken_trades = 0,
     st_instruments_registered = 0, st_add_rejected_pool_exhausted = 0,
     st_add_rejected_level_pool_exhausted = 0, st_replace_rejected_pool_exhausted = 0,
     st_duplicate_adds = 0, st_locate_mismatches = 0, st_level_missing = 0,
     st_unknown_order_events = 0, st_live_orders = 0, st_live_levels = 0, st_peak_live_orders = 0,
     st_peak_live_levels = 0, st_pool_exhausted = 0\<rparr>"

record MatchingEngine =
  me_instruments :: InstrumentMap
  me_arena :: arena
  me_index :: DirectOrderIndex
  me_stats :: EngineStats

definition MatchingEngine_init :: "nat \<Rightarrow> nat \<Rightarrow> MatchingEngine" where
  "MatchingEngine_init order_pool_size price_level_pool_size =
     \<lparr>me_instruments = InstrumentMap_init,
      me_arena = \<lparr>ar_orders = MemoryPool_init order_pool_size, ar_levels = MemoryPool_init price_level_pool_size\<rparr>,
      me_index = DirectOrderIndex_init, me_stats = EngineStats_init\<rparr>"

text \<open>
  The constructor with the allocations of its pools, in the order of the members: \<open>None\<close> inside is a
  \<open>bad_alloc\<close> that leaves it. Pools whose blocks fit are those of \<open>MatchingEngine_init\<close>.
\<close>

definition MatchingEngine_new :: "(u64 \<Rightarrow> bool) \<Rightarrow> u64 \<Rightarrow> u64 \<Rightarrow> MatchingEngine option exec" where
  "MatchingEngine_new alloc order_pool_size price_level_pool_size = do {
     orders \<leftarrow> MemoryPool_new alloc sizeof_Order order_pool_size;
     (case orders of
        None \<Rightarrow> Some None
      | Some orders \<Rightarrow> do {
          levels \<leftarrow> MemoryPool_new alloc sizeof_PriceLevel price_level_pool_size;
          (case levels of
             None \<Rightarrow> Some None
           | Some levels \<Rightarrow> Some (Some
               \<lparr>me_instruments = InstrumentMap_init, me_arena = \<lparr>ar_orders = orders, ar_levels = levels\<rparr>,
                me_index = DirectOrderIndex_init, me_stats = EngineStats_init\<rparr>)) }) }"

text \<open>The size of a pool of \<open>n\<close> slots fits in 64 bits.\<close>

definition pool_fits :: "nat \<Rightarrow> u64 \<Rightarrow> bool" where
  "pool_fits sz n \<longleftrightarrow> unat n * sz < 2 ^ 64"

lemma sizeof_values: "sizeof_ptr = 8" "sizeof_Order = 64" "sizeof_PriceLevel = 56"
  by (simp_all add: sizeof_ptr_def) code_simp+

lemma MatchingEngine_new_eq:
  "MatchingEngine_new alloc oc lc =
     (if \<not> alloc (oc * 64) then Some None
      else if \<not> pool_fits 64 oc then None
      else if \<not> alloc (lc * 56) then Some None
      else if \<not> pool_fits 56 lc then None
      else Some (Some (MatchingEngine_init (unat oc) (unat lc))))"
  by (simp add: MatchingEngine_new_def MemoryPool_new_eq sizeof_values pool_fits_def MatchingEngine_init_def)

section \<open>Counters\<close>

definition bump :: "(EngineStats \<Rightarrow> EngineStats) \<Rightarrow> MatchingEngine \<Rightarrow> MatchingEngine" where
  "bump f e = e\<lparr>me_stats := f (me_stats e)\<rparr>"

definition inc_unknown :: "EngineStats \<Rightarrow> EngineStats" where
  "inc_unknown s = s\<lparr>st_unknown_order_events := st_unknown_order_events s + 1\<rparr>"
definition inc_duplicate :: "EngineStats \<Rightarrow> EngineStats" where
  "inc_duplicate s = s\<lparr>st_duplicate_adds := st_duplicate_adds s + 1\<rparr>"
definition inc_mismatch :: "EngineStats \<Rightarrow> EngineStats" where
  "inc_mismatch s = s\<lparr>st_locate_mismatches := st_locate_mismatches s + 1\<rparr>"
definition inc_level_missing :: "EngineStats \<Rightarrow> EngineStats" where
  "inc_level_missing s = s\<lparr>st_level_missing := st_level_missing s + 1\<rparr>"
definition inc_pool_exhausted :: "EngineStats \<Rightarrow> EngineStats" where
  "inc_pool_exhausted s = s\<lparr>st_pool_exhausted := st_pool_exhausted s + 1\<rparr>"
definition inc_level_pool_exhausted :: "EngineStats \<Rightarrow> EngineStats" where
  "inc_level_pool_exhausted s =
     s\<lparr>st_add_rejected_level_pool_exhausted := st_add_rejected_level_pool_exhausted s + 1\<rparr>"

text \<open>The updates of the live counters with their peaks, guarded decrements included.\<close>

definition inc_live_levels :: "EngineStats \<Rightarrow> EngineStats" where
  "inc_live_levels s =
     (let s = s\<lparr>st_live_levels := st_live_levels s + 1\<rparr>
      in if st_live_levels s > st_peak_live_levels s
         then s\<lparr>st_peak_live_levels := st_live_levels s\<rparr> else s)"

definition inc_live_orders :: "EngineStats \<Rightarrow> EngineStats" where
  "inc_live_orders s =
     (let s = s\<lparr>st_live_orders := st_live_orders s + 1\<rparr>
      in if st_live_orders s > st_peak_live_orders s
         then s\<lparr>st_peak_live_orders := st_live_orders s\<rparr> else s)"

definition dec_live_orders :: "EngineStats \<Rightarrow> EngineStats" where
  "dec_live_orders s =
     (if st_live_orders s > 0 then s\<lparr>st_live_orders := st_live_orders s - 1\<rparr> else s)"

definition dec_live_levels :: "EngineStats \<Rightarrow> EngineStats" where
  "dec_live_levels s =
     (if st_live_levels s > 0 then s\<lparr>st_live_levels := st_live_levels s - 1\<rparr> else s)"

section \<open>Access to the parts of the engine\<close>

definition index_find :: "MatchingEngine \<Rightarrow> OrderReferenceNumber \<Rightarrow> ptr exec" where
  "index_find e oid = ix_find (me_arena e) (me_index e) oid"

definition index_erase :: "MatchingEngine \<Rightarrow> OrderReferenceNumber \<Rightarrow> MatchingEngine exec" where
  "index_erase e oid = do { ix \<leftarrow> ix_del (me_arena e) (me_index e) oid; Some (e\<lparr>me_index := ix\<rparr>) }"

definition release_order :: "MatchingEngine \<Rightarrow> nat \<Rightarrow> MatchingEngine exec" where
  "release_order e i = do {
     p \<leftarrow> release (ar_orders (me_arena e)) (Some i);
     Some (e\<lparr>me_arena := (me_arena e)\<lparr>ar_orders := p\<rparr>\<rparr>) }"

definition construct_order :: "MatchingEngine \<Rightarrow> nat \<Rightarrow> Order \<Rightarrow> MatchingEngine exec" where
  "construct_order e i x = do {
     p \<leftarrow> construct (ar_orders (me_arena e)) i x;
     Some (e\<lparr>me_arena := (me_arena e)\<lparr>ar_orders := p\<rparr>\<rparr>) }"

definition acquire_order :: "MatchingEngine \<Rightarrow> (ptr \<times> MatchingEngine) exec" where
  "acquire_order e = do {
     (q, p) \<leftarrow> acquire (ar_orders (me_arena e));
     Some (q, e\<lparr>me_arena := (me_arena e)\<lparr>ar_orders := p\<rparr>\<rparr>) }"

text \<open>The book of an instrument, \<open>None\<close> when there is no instrument or it has no book.\<close>

definition book_at :: "MatchingEngine \<Rightarrow> StockLocate \<Rightarrow> OrderBook option" where
  "book_at e loc = (case im_at (me_instruments e) loc of None \<Rightarrow> None | Some inst \<Rightarrow> in_book inst)"

definition put_book :: "StockLocate \<Rightarrow> OrderBook \<Rightarrow> MatchingEngine \<Rightarrow> MatchingEngine" where
  "put_book loc b e = (case im_at (me_instruments e) loc of
      None \<Rightarrow> e
    | Some inst \<Rightarrow> e\<lparr>me_instruments := im_put (me_instruments e) loc (inst\<lparr>in_book := Some b\<rparr>)\<rparr>)"

text \<open>An operation of a book on the pools of the engine.\<close>

definition on_book ::
  "(OrderBook \<Rightarrow> arena \<Rightarrow> (int \<times> OrderBook \<times> arena) exec) \<Rightarrow> StockLocate \<Rightarrow> OrderBook \<Rightarrow> MatchingEngine \<Rightarrow>
   (int \<times> MatchingEngine) exec" where
  "on_book f loc b e = do {
     (rc, b, ar) \<leftarrow> f b (me_arena e);
     Some (rc, put_book loc b (e\<lparr>me_arena := ar\<rparr>)) }"

section \<open>Reference data\<close>

definition on_stock_directory ::
  "MatchingEngine \<Rightarrow> StockLocate \<Rightarrow> byte list \<Rightarrow> MarketCategory \<Rightarrow> FinancialStatusIndicator \<Rightarrow> RoundLotSize \<Rightarrow>
   RoundLotsOnly \<Rightarrow> Authenticity \<Rightarrow> ShortScaleThresholdIndicator \<Rightarrow> IPOFlag \<Rightarrow> LULDReferencePriceTier \<Rightarrow>
   ETPFlag \<Rightarrow> ETPLeverageFactor \<Rightarrow> InverseIndicator \<Rightarrow> MatchingEngine" where
  "on_stock_directory e loc symbol mc fsi rls rlo auth ssti ipo luld etp elf invi =
     (let is_new = (im_at (me_instruments e) loc = None);
          (inst, im) = get_or_create (me_instruments e) loc;
          inst = (set_symbol symbol inst)\<lparr>in_marketCategory := mc, in_financialStatus := fsi,
            in_roundLotSize := rls, in_roundLotsOnly := rlo, in_authenticity := auth,
            in_shortScale := ssti, in_ipoFlag := ipo, in_luldTier := luld, in_etpFlag := etp,
            in_etpLeverageFactor := elf, in_inverseIndicator := invi\<rparr>;
          e = e\<lparr>me_instruments := im_put im loc inst\<rparr>
      in if is_new
         then bump (\<lambda>s. s\<lparr>st_instruments_registered := st_instruments_registered s + 1\<rparr>) e else e)"

definition on_trading_action :: "MatchingEngine \<Rightarrow> StockLocate \<Rightarrow> TradingState \<Rightarrow> MatchingEngine" where
  "on_trading_action e loc state = (case im_at (me_instruments e) loc of
      None \<Rightarrow> e
    | Some inst \<Rightarrow> e\<lparr>me_instruments := im_put (me_instruments e) loc (inst\<lparr>in_tradingState := state\<rparr>)\<rparr>)"

definition on_reg_sho :: "MatchingEngine \<Rightarrow> StockLocate \<Rightarrow> RegSHOAction \<Rightarrow> MatchingEngine" where
  "on_reg_sho e loc action = (case im_at (me_instruments e) loc of
      None \<Rightarrow> e
    | Some inst \<Rightarrow> e\<lparr>me_instruments := im_put (me_instruments e) loc (inst\<lparr>in_regSHOAction := action\<rparr>)\<rparr>)"

section \<open>Orders\<close>

definition no_mpid :: MPID where
  "no_mpid = replicate 4 (ascii (CHR '' ''))"

definition on_add_order ::
  "MatchingEngine \<Rightarrow> StockLocate \<Rightarrow> OrderReferenceNumber \<Rightarrow> BuySellIndicator \<Rightarrow> Shares \<Rightarrow> Price \<Rightarrow>
   Timestamp \<Rightarrow> MPID \<Rightarrow> bool \<Rightarrow> MatchingEngine exec" where
  "on_add_order e loc oid bsi qty px ts mpid attributed = do {
     found \<leftarrow> index_find e oid;
     if found \<noteq> None then Some (bump (inc_unknown \<circ> inc_duplicate) e)
     else do {
       let (inst, im) = get_or_create (me_instruments e) loc;
       let inst = ensure_book inst;
       let e = e\<lparr>me_instruments := im_put im loc inst\<rparr>;
       (mem, e) \<leftarrow> acquire_order e;
       (case mem of
         None \<Rightarrow> Some (bump (\<lambda>s. inc_pool_exhausted
             (s\<lparr>st_add_rejected_pool_exhausted := st_add_rejected_pool_exhausted s + 1\<rparr>)) e)
       | Some i \<Rightarrow> do {
           e \<leftarrow> construct_order e i
             (Order_init oid loc px qty (to_side bsi) ts (if attributed then mpid else no_mpid));
           (add_rc, e) \<leftarrow> on_book (\<lambda>b ar. add_order b ar i) loc (the (in_book inst)) e;
           if add_rc = 0 then release_order (bump (inc_pool_exhausted \<circ> inc_level_pool_exhausted) e) i
           else do {
             let e = (if add_rc = 2 then bump inc_live_levels e else e);
             (inserted, ix) \<leftarrow> ix_insert (me_arena e) (me_index e) oid i;
             let e = e\<lparr>me_index := ix\<rparr>;
             if \<not> inserted
             then do {
               let e = bump (inc_unknown \<circ> inc_duplicate) e;
               b \<leftarrow> book_at e loc;
               (rm, e) \<leftarrow> on_book (\<lambda>b ar. remove_order b ar i) loc b e;
               let e = (if rm = 2 then bump dec_live_levels e else e);
               release_order e i }
             else Some (bump (\<lambda>s. if attributed
                 then (inc_live_orders s)\<lparr>st_add_orders_with_mpid := st_add_orders_with_mpid s + 1\<rparr>
                 else (inc_live_orders s)\<lparr>st_add_orders := st_add_orders s + 1\<rparr>) e) } }) } }"

text \<open>
  The common body of the \<open>E\<close>, \<open>C\<close> and \<open>X\<close> handlers, which differ in the counter of accepted
  events and in the operation of the book, \<open>execute_order\<close> or \<open>cancel_order\<close>.
\<close>

definition handle_fill ::
  "(OrderBook \<Rightarrow> arena \<Rightarrow> nat \<Rightarrow> Shares \<Rightarrow> (int \<times> OrderBook \<times> arena) exec) \<Rightarrow> (EngineStats \<Rightarrow> EngineStats) \<Rightarrow>
   MatchingEngine \<Rightarrow> StockLocate \<Rightarrow> OrderReferenceNumber \<Rightarrow> Shares \<Rightarrow> MatchingEngine exec" where
  "handle_fill fill accepted e loc oid qty = do {
     found \<leftarrow> index_find e oid;
     (case found of
       None \<Rightarrow> Some (bump inc_unknown e)
     | Some i \<Rightarrow> do {
         x \<leftarrow> get_order (me_arena e) i;
         let e = (if o_locate x \<noteq> loc then bump inc_mismatch e else e);
         let loc = (if o_locate x \<noteq> loc then o_locate x else loc);
         (case book_at e loc of
           None \<Rightarrow> Some (bump inc_unknown e)
         | Some b \<Rightarrow> do {
             (rc, e) \<leftarrow> on_book (\<lambda>b ar. fill b ar i qty) loc b e;
             if rc < 0 then Some (bump (inc_unknown \<circ> inc_level_missing) e)
             else do {
               let e = bump accepted e;
               if rc > 0
               then do {
                 e \<leftarrow> index_erase e oid;
                 e \<leftarrow> release_order e i;
                 let e = bump dec_live_orders e;
                 Some (if rc = 2 then bump dec_live_levels e else e) }
               else Some e } }) }) }"

definition on_order_executed ::
  "MatchingEngine \<Rightarrow> StockLocate \<Rightarrow> OrderReferenceNumber \<Rightarrow> Shares \<Rightarrow> MatchingEngine exec" where
  "on_order_executed = handle_fill execute_order (\<lambda>s. s\<lparr>st_order_executed := st_order_executed s + 1\<rparr>)"

definition on_order_executed_with_price ::
  "MatchingEngine \<Rightarrow> StockLocate \<Rightarrow> OrderReferenceNumber \<Rightarrow> Shares \<Rightarrow> MatchingEngine exec" where
  "on_order_executed_with_price = handle_fill execute_order
     (\<lambda>s. s\<lparr>st_order_executed_with_price := st_order_executed_with_price s + 1\<rparr>)"

definition on_order_cancel ::
  "MatchingEngine \<Rightarrow> StockLocate \<Rightarrow> OrderReferenceNumber \<Rightarrow> Shares \<Rightarrow> MatchingEngine exec" where
  "on_order_cancel = handle_fill cancel_order (\<lambda>s. s\<lparr>st_order_cancel := st_order_cancel s + 1\<rparr>)"

definition on_order_delete ::
  "MatchingEngine \<Rightarrow> StockLocate \<Rightarrow> OrderReferenceNumber \<Rightarrow> MatchingEngine exec" where
  "on_order_delete e loc oid = do {
     found \<leftarrow> index_find e oid;
     (case found of
       None \<Rightarrow> Some (bump inc_unknown e)
     | Some i \<Rightarrow> do {
         x \<leftarrow> get_order (me_arena e) i;
         let e = (if o_locate x \<noteq> loc then bump inc_mismatch e else e);
         let loc = (if o_locate x \<noteq> loc then o_locate x else loc);
         (case book_at e loc of
           None \<Rightarrow> Some (bump inc_unknown e)
         | Some b \<Rightarrow> do {
             (rc, e) \<leftarrow> on_book (\<lambda>b ar. remove_order b ar i) loc b e;
             if rc = 0 then Some (bump (inc_unknown \<circ> inc_level_missing) e)
             else do {
               e \<leftarrow> index_erase e oid;
               e \<leftarrow> release_order e i;
               let e = bump dec_live_orders e;
               let e = (if rc = 2 then bump dec_live_levels e else e);
               Some (bump (\<lambda>s. s\<lparr>st_order_delete := st_order_delete s + 1\<rparr>) e) } }) }) }"

definition on_order_replace ::
  "MatchingEngine \<Rightarrow> StockLocate \<Rightarrow> OrderReferenceNumber \<Rightarrow> OrderReferenceNumber \<Rightarrow> Shares \<Rightarrow> Price \<Rightarrow>
   Timestamp \<Rightarrow> MatchingEngine exec" where
  "on_order_replace e loc old_id new_id new_qty new_px ts = do {
     found \<leftarrow> index_find e old_id;
     (case found of
       None \<Rightarrow> Some (bump inc_unknown e)
     | Some old \<Rightarrow> do {
         x \<leftarrow> get_order (me_arena e) old;
         let e = (if o_locate x \<noteq> loc then bump inc_mismatch e else e);
         let loc = (if o_locate x \<noteq> loc then o_locate x else loc);
         dup \<leftarrow> index_find e new_id;
         if dup \<noteq> None then Some (bump (inc_unknown \<circ> inc_duplicate) e)
         else (case book_at e loc of
           None \<Rightarrow> Some (bump inc_unknown e)
         | Some b \<Rightarrow> do {
             (mem, e) \<leftarrow> acquire_order e;
             (case mem of
               None \<Rightarrow> Some (bump (\<lambda>s. inc_pool_exhausted
                   (s\<lparr>st_replace_rejected_pool_exhausted := st_replace_rejected_pool_exhausted s + 1\<rparr>)) e)
             | Some new_order \<Rightarrow> do {
                 (rm, e) \<leftarrow> on_book (\<lambda>b ar. remove_order b ar old) loc b e;
                 if rm = 0
                 then release_order (bump (inc_unknown \<circ> inc_level_missing) e) new_order
                 else do {
                   e \<leftarrow> index_erase e old_id;
                   e \<leftarrow> release_order e old;
                   let e = bump dec_live_orders e;
                   let e = (if rm = 2 then bump dec_live_levels e else e);
                   e \<leftarrow> construct_order e new_order
                     (Order_init new_id loc new_px new_qty (o_side x) ts (o_mpid x));
                   b \<leftarrow> book_at e loc;
                   (add_rc, e) \<leftarrow> on_book (\<lambda>b ar. add_order b ar new_order) loc b e;
                   if add_rc = 0
                   then release_order (bump (inc_pool_exhausted \<circ> inc_level_pool_exhausted) e) new_order
                   else do {
                     let e = (if add_rc = 2 then bump inc_live_levels e else e);
                     (inserted, ix) \<leftarrow> ix_insert (me_arena e) (me_index e) new_id new_order;
                     let e = e\<lparr>me_index := ix\<rparr>;
                     if \<not> inserted
                     then do {
                       let e = bump inc_duplicate e;
                       b \<leftarrow> book_at e loc;
                       (rb, e) \<leftarrow> on_book (\<lambda>b ar. remove_order b ar new_order) loc b e;
                       let e = (if rb = 2 then bump dec_live_levels e else e);
                       release_order e new_order }
                     else Some (bump (\<lambda>s. (inc_live_orders s)
                         \<lparr>st_order_replace := st_order_replace s + 1\<rparr>) e) } } }) }) }) }"

section \<open>Trades\<close>

definition on_non_cross_trade :: "MatchingEngine \<Rightarrow> MatchingEngine" where
  "on_non_cross_trade e = bump (\<lambda>s. s\<lparr>st_non_cross_trades := st_non_cross_trades s + 1\<rparr>) e"

definition on_broken_trade :: "MatchingEngine \<Rightarrow> MatchingEngine" where
  "on_broken_trade e = bump (\<lambda>s. s\<lparr>st_broken_trades := st_broken_trades s + 1\<rparr>) e"

text \<open>The loop over the snapshot: erase the order from the index and release it.\<close>

definition drop_order :: "MatchingEngine \<Rightarrow> nat \<Rightarrow> MatchingEngine exec" where
  "drop_order e i = do {
     x \<leftarrow> get_order (me_arena e) i;
     e \<leftarrow> index_erase e (o_order_id x);
     release_order e i }"

definition sub_live :: "u64 \<Rightarrow> u64 \<Rightarrow> EngineStats \<Rightarrow> EngineStats" where
  "sub_live n book_levels s =
     (let s = s\<lparr>st_live_orders := (if st_live_orders s \<ge> n then st_live_orders s - n else 0)\<rparr>
      in s\<lparr>st_live_levels := (if st_live_levels s \<ge> book_levels then st_live_levels s - book_levels else 0)\<rparr>)"

definition on_cross_trade :: "MatchingEngine \<Rightarrow> StockLocate \<Rightarrow> CrossType \<Rightarrow> MatchingEngine exec" where
  "on_cross_trade e loc xtype = do {
     let e = bump (\<lambda>s. s\<lparr>st_cross_trades := st_cross_trades s + 1\<rparr>) e;
     if xtype \<noteq> CrossType_Closing then Some e
     else (case book_at e loc of
         None \<Rightarrow> Some e
       | Some b \<Rightarrow> do {
           let book_levels = live_levels b;
           snapshot \<leftarrow> for_each_order b (me_arena e);
           e \<leftarrow> exec_list drop_order e snapshot;
           let e = bump (sub_live (of_nat (length snapshot)) book_levels) e;
           (b, ar) \<leftarrow> clear_levels b (me_arena e);
           Some (put_book loc b (e\<lparr>me_arena := ar\<rparr>)) }) }"

section \<open>Accessors\<close>

definition order_pool_free :: "MatchingEngine \<Rightarrow> u64 exec" where
  "order_pool_free e = free_count (ar_orders (me_arena e))"
definition level_pool_free :: "MatchingEngine \<Rightarrow> u64 exec" where
  "level_pool_free e = free_count (ar_levels (me_arena e))"
definition order_index_size :: "MatchingEngine \<Rightarrow> u64" where
  "order_index_size e = ix_count (me_index e)"

definition order_pool_capacity :: "MatchingEngine \<Rightarrow> nat" where
  "order_pool_capacity e = mp_capacity (ar_orders (me_arena e))"
definition level_pool_capacity :: "MatchingEngine \<Rightarrow> nat" where
  "level_pool_capacity e = mp_capacity (ar_levels (me_arena e))"
definition order_index_overflow :: "MatchingEngine \<Rightarrow> nat" where
  "order_index_overflow e = ix_overflow_size (me_index e)"
definition order_index_collisions :: "MatchingEngine \<Rightarrow> u64" where
  "order_index_collisions e = ix_collisions (me_index e)"

end
