(* ===== verification/Parser.thy ===== *)
theory Parser
  imports Wire_Format Stats Matching_Engine
begin

text \<open>
  The parser of \<open>include/Parser.hpp\<close>. A pointer into the file buffer is an offset, a read of \<open>n\<close>
  bytes at an offset is undefined (\<open>None\<close>) when it leaves the buffer, and a member of a wire struct is
  read at the offset of its layout. Offsets are unbounded numbers: comparing \<open>p + payload_len\<close> with
  \<open>end\<close> does not wrap. The parameter \<open>le\<close> says that the host is little-endian.
\<close>

section \<open>Reads of the buffer\<close>

definition rd :: "byte list \<Rightarrow> nat \<Rightarrow> nat \<Rightarrow> byte list exec" where
  "rd buf a n = (if a + n \<le> length buf then Some (take n (drop a buf)) else None)"

definition rd8 :: "byte list \<Rightarrow> nat \<Rightarrow> byte exec" where
  "rd8 buf a = (if a < length buf then Some (buf ! a) else None)"

definition ld16 :: "bool \<Rightarrow> byte list \<Rightarrow> nat \<Rightarrow> u16 exec" where
  "ld16 le buf a = do { bs \<leftarrow> rd buf a 2; Some (load_be16 le bs) }"

definition ld32 :: "bool \<Rightarrow> byte list \<Rightarrow> nat \<Rightarrow> u32 exec" where
  "ld32 le buf a = do { bs \<leftarrow> rd buf a 4; Some (load_be32 le bs) }"

definition ld48 :: "byte list \<Rightarrow> nat \<Rightarrow> u64 exec" where
  "ld48 buf a = do { bs \<leftarrow> rd buf a 6; Some (load_be48 bs) }"

definition ld64 :: "bool \<Rightarrow> byte list \<Rightarrow> nat \<Rightarrow> u64 exec" where
  "ld64 le buf a = do { bs \<leftarrow> rd buf a 8; Some (load_be64 le bs) }"

section \<open>The checked view of a payload\<close>

datatype ParseError = Truncated

definition checked_cast :: "layout \<Rightarrow> nat \<Rightarrow> u16 \<Rightarrow> ParseError + nat" where
  "checked_cast M p len = (if unat len < sizeof_layout M then Inl Truncated else Inr p)"

text \<open>The first lines of every handler: count a truncated message and return, or go on with the view.\<close>

definition if_ok ::
  "ParseError + nat \<Rightarrow> (nat \<Rightarrow> MatchingEngine exec) \<Rightarrow> MatchingEngine \<Rightarrow> Stats \<Rightarrow> (MatchingEngine \<times> Stats) exec" where
  "if_ok m f e s = (case m of Inl _ \<Rightarrow> Some (e, on_truncated s) | Inr m \<Rightarrow> do { e \<leftarrow> f m; Some (e, s) })"

definition member :: "layout \<Rightarrow> nat \<Rightarrow> string \<Rightarrow> nat" where
  "member M m f = m + offset_of M f"

type_synonym handler =
  "bool \<Rightarrow> byte list \<Rightarrow> nat \<Rightarrow> u16 \<Rightarrow> MatchingEngine \<Rightarrow> Stats \<Rightarrow> (MatchingEngine \<times> Stats) exec"

section \<open>The handlers\<close>

definition empty_mpid :: MPID where
  "empty_mpid = replicate 4 (ascii (CHR '' ''))"

definition handle_system_event :: handler where
  "handle_system_event le buf p len e s =
     (let m = checked_cast SystemEventMsg p len in if_ok m (\<lambda>m. Some e) e s)"

definition handle_stock_directory :: handler where
  "handle_stock_directory le buf p len e s =
     (let m = checked_cast StockDirectoryMsg p len in if_ok m (\<lambda>m. do {
        loc \<leftarrow> ld16 le buf (member StockDirectoryMsg m ''stockLocateHi'');
        stock \<leftarrow> rd buf (member StockDirectoryMsg m ''stock'') 8;
        mc \<leftarrow> rd8 buf (member StockDirectoryMsg m ''marketCategory'');
        fsi \<leftarrow> rd8 buf (member StockDirectoryMsg m ''financialStatusIndicator'');
        rls \<leftarrow> ld32 le buf (member StockDirectoryMsg m ''roundLotSize'');
        rlo \<leftarrow> rd8 buf (member StockDirectoryMsg m ''roundLotsOnly'');
        auth \<leftarrow> rd8 buf (member StockDirectoryMsg m ''authenticity'');
        ssti \<leftarrow> rd8 buf (member StockDirectoryMsg m ''shortScaleThresholdIndicator'');
        ipo \<leftarrow> rd8 buf (member StockDirectoryMsg m ''ipoFlag'');
        luld \<leftarrow> rd8 buf (member StockDirectoryMsg m ''luldReferencePriceTier'');
        etp \<leftarrow> rd8 buf (member StockDirectoryMsg m ''etpFlag'');
        elf \<leftarrow> ld32 le buf (member StockDirectoryMsg m ''etpLeverageFactor'');
        invi \<leftarrow> rd8 buf (member StockDirectoryMsg m ''inverseIndicator'');
        Some (on_stock_directory e loc stock mc fsi rls rlo auth ssti ipo luld etp elf invi) }) e s)"

definition handle_stock_trading_action :: handler where
  "handle_stock_trading_action le buf p len e s =
     (let m = checked_cast StockTradingActionMsg p len in if_ok m (\<lambda>m. do {
        loc \<leftarrow> ld16 le buf (member StockTradingActionMsg m ''stockLocateHi'');
        state \<leftarrow> rd8 buf (member StockTradingActionMsg m ''tradingState'');
        Some (on_trading_action e loc state) }) e s)"

definition handle_reg_sho :: handler where
  "handle_reg_sho le buf p len e s =
     (let m = checked_cast RegSHOMsg p len in if_ok m (\<lambda>m. do {
        loc \<leftarrow> ld16 le buf (member RegSHOMsg m ''stockLocateHi'');
        action \<leftarrow> rd8 buf (member RegSHOMsg m ''regSHOAction'');
        Some (on_reg_sho e loc action) }) e s)"

definition handle_market_participant :: handler where
  "handle_market_participant le buf p len e s =
     (let m = checked_cast MarketParticipantPositionMsg p len in if_ok m (\<lambda>m. Some e) e s)"

definition handle_mwcb_decline :: handler where
  "handle_mwcb_decline le buf p len e s =
     (let m = checked_cast MWCBDeclineLevelMsg p len in if_ok m (\<lambda>m. Some e) e s)"

definition handle_mwcb_status :: handler where
  "handle_mwcb_status le buf p len e s =
     (let m = checked_cast MWCBStatusMsg p len in if_ok m (\<lambda>m. Some e) e s)"

definition handle_ipo_quoting_period :: handler where
  "handle_ipo_quoting_period le buf p len e s =
     (let m = checked_cast IPOQuotingPeriodUpdateMsg p len in if_ok m (\<lambda>m. Some e) e s)"

definition handle_luld_auction_collar :: handler where
  "handle_luld_auction_collar le buf p len e s =
     (let m = checked_cast LULDAuctionCollarMsg p len in if_ok m (\<lambda>m. Some e) e s)"

definition handle_operational_halt :: handler where
  "handle_operational_halt le buf p len e s =
     (let m = checked_cast OperationalHaltMsg p len in if_ok m (\<lambda>m. Some e) e s)"

definition handle_add_order :: "bool \<Rightarrow> handler" where
  "handle_add_order attributed le buf p len e s =
     (if attributed then
       (let m = checked_cast AddOrderMPIDMsg p len in if_ok m (\<lambda>m. do {
          loc \<leftarrow> ld16 le buf (member AddOrderMPIDMsg m ''stockLocateHi'');
          oid \<leftarrow> ld64 le buf (member AddOrderMPIDMsg m ''orderReferenceNumber'');
          bsi \<leftarrow> rd8 buf (member AddOrderMPIDMsg m ''buySellIndicator'');
          qty \<leftarrow> ld32 le buf (member AddOrderMPIDMsg m ''shares'');
          px \<leftarrow> ld32 le buf (member AddOrderMPIDMsg m ''price'');
          ts \<leftarrow> ld48 buf (member AddOrderMPIDMsg m ''ts'');
          mpid \<leftarrow> rd buf (member AddOrderMPIDMsg m ''attribution'') 4;
          on_add_order e loc oid bsi qty px ts mpid True }) e s)
      else
       (let m = checked_cast AddOrderMsg p len in if_ok m (\<lambda>m. do {
          loc \<leftarrow> ld16 le buf (member AddOrderMsg m ''stockLocateHi'');
          oid \<leftarrow> ld64 le buf (member AddOrderMsg m ''orderReferenceNumber'');
          bsi \<leftarrow> rd8 buf (member AddOrderMsg m ''buySellIndicator'');
          qty \<leftarrow> ld32 le buf (member AddOrderMsg m ''shares'');
          px \<leftarrow> ld32 le buf (member AddOrderMsg m ''price'');
          ts \<leftarrow> ld48 buf (member AddOrderMsg m ''ts'');
          on_add_order e loc oid bsi qty px ts empty_mpid False }) e s))"

definition handle_order_executed :: handler where
  "handle_order_executed le buf p len e s =
     (let m = checked_cast OrderExecutedMsg p len in if_ok m (\<lambda>m. do {
        loc \<leftarrow> ld16 le buf (member OrderExecutedMsg m ''stockLocateHi'');
        oid \<leftarrow> ld64 le buf (member OrderExecutedMsg m ''orderReferenceNumber'');
        qty \<leftarrow> ld32 le buf (member OrderExecutedMsg m ''executedShares'');
        mn \<leftarrow> ld64 le buf (member OrderExecutedMsg m ''matchNumber'');
        on_order_executed e loc oid qty }) e s)"

definition handle_order_executed_price :: handler where
  "handle_order_executed_price le buf p len e s =
     (let m = checked_cast OrderExecutedWithPriceMsg p len in if_ok m (\<lambda>m. do {
        loc \<leftarrow> ld16 le buf (member OrderExecutedWithPriceMsg m ''stockLocateHi'');
        oid \<leftarrow> ld64 le buf (member OrderExecutedWithPriceMsg m ''orderReferenceNumber'');
        qty \<leftarrow> ld32 le buf (member OrderExecutedWithPriceMsg m ''executedShares'');
        mn \<leftarrow> ld64 le buf (member OrderExecutedWithPriceMsg m ''matchNumber'');
        printable \<leftarrow> rd8 buf (member OrderExecutedWithPriceMsg m ''printable'');
        xpx \<leftarrow> ld32 le buf (member OrderExecutedWithPriceMsg m ''executionPrice'');
        on_order_executed_with_price e loc oid qty }) e s)"

definition handle_order_cancel :: handler where
  "handle_order_cancel le buf p len e s =
     (let m = checked_cast OrderCancelMsg p len in if_ok m (\<lambda>m. do {
        loc \<leftarrow> ld16 le buf (member OrderCancelMsg m ''stockLocateHi'');
        oid \<leftarrow> ld64 le buf (member OrderCancelMsg m ''orderReferenceNumber'');
        qty \<leftarrow> ld32 le buf (member OrderCancelMsg m ''cancelledShares'');
        on_order_cancel e loc oid qty }) e s)"

definition handle_order_delete :: handler where
  "handle_order_delete le buf p len e s =
     (let m = checked_cast OrderDeleteMsg p len in if_ok m (\<lambda>m. do {
        loc \<leftarrow> ld16 le buf (member OrderDeleteMsg m ''stockLocateHi'');
        oid \<leftarrow> ld64 le buf (member OrderDeleteMsg m ''orderReferenceNumber'');
        on_order_delete e loc oid }) e s)"

definition handle_order_replace :: handler where
  "handle_order_replace le buf p len e s =
     (let m = checked_cast OrderReplaceMsg p len in if_ok m (\<lambda>m. do {
        loc \<leftarrow> ld16 le buf (member OrderReplaceMsg m ''stockLocateHi'');
        old \<leftarrow> ld64 le buf (member OrderReplaceMsg m ''originalOrderReferenceNumber'');
        new \<leftarrow> ld64 le buf (member OrderReplaceMsg m ''newOrderReferenceNumber'');
        qty \<leftarrow> ld32 le buf (member OrderReplaceMsg m ''shares'');
        px \<leftarrow> ld32 le buf (member OrderReplaceMsg m ''price'');
        ts \<leftarrow> ld48 buf (member OrderReplaceMsg m ''ts'');
        on_order_replace e loc old new qty px ts }) e s)"

definition handle_non_cross_trade :: handler where
  "handle_non_cross_trade le buf p len e s =
     (let m = checked_cast NonCrossTradeMsg p len in if_ok m (\<lambda>m. do {
        loc \<leftarrow> ld16 le buf (member NonCrossTradeMsg m ''stockLocateHi'');
        qty \<leftarrow> ld32 le buf (member NonCrossTradeMsg m ''shares'');
        px \<leftarrow> ld32 le buf (member NonCrossTradeMsg m ''price'');
        mn \<leftarrow> ld64 le buf (member NonCrossTradeMsg m ''matchNumber'');
        Some (on_non_cross_trade e) }) e s)"

definition handle_cross_trade :: handler where
  "handle_cross_trade le buf p len e s =
     (let m = checked_cast CrossTradeMsg p len in if_ok m (\<lambda>m. do {
        loc \<leftarrow> ld16 le buf (member CrossTradeMsg m ''stockLocateHi'');
        xtype \<leftarrow> rd8 buf (member CrossTradeMsg m ''crossType'');
        on_cross_trade e loc xtype }) e s)"

definition handle_broken_trade :: handler where
  "handle_broken_trade le buf p len e s =
     (let m = checked_cast BrokenTradeMsg p len in if_ok m (\<lambda>m. do {
        loc \<leftarrow> ld16 le buf (member BrokenTradeMsg m ''stockLocateHi'');
        mn \<leftarrow> ld64 le buf (member BrokenTradeMsg m ''matchNumber'');
        Some (on_broken_trade e) }) e s)"

definition handle_noii :: handler where
  "handle_noii le buf p len e s =
     (let m = checked_cast NOIIMsg p len in if_ok m (\<lambda>m. Some e) e s)"

definition handle_rpii :: handler where
  "handle_rpii le buf p len e s =
     (let m = checked_cast RetailPriceImprovementIndicatorMsg p len in if_ok m (\<lambda>m. Some e) e s)"

definition handle_dlcr :: handler where
  "handle_dlcr le buf p len e s =
     (let m = checked_cast DLCRMsg p len in if_ok m (\<lambda>m. Some e) e s)"

section \<open>Dispatch on the message type\<close>

definition dispatch :: "byte \<Rightarrow> handler" where
  "dispatch type le buf p len e s =
    (let s = on_message type (ucast len) s in
     if type = ascii (CHR ''S'') then handle_system_event le buf p len e s
     else if type = ascii (CHR ''R'') then handle_stock_directory le buf p len e s
     else if type = ascii (CHR ''H'') then handle_stock_trading_action le buf p len e s
     else if type = ascii (CHR ''Y'') then handle_reg_sho le buf p len e s
     else if type = ascii (CHR ''L'') then handle_market_participant le buf p len e s
     else if type = ascii (CHR ''V'') then handle_mwcb_decline le buf p len e s
     else if type = ascii (CHR ''W'') then handle_mwcb_status le buf p len e s
     else if type = ascii (CHR ''K'') then handle_ipo_quoting_period le buf p len e s
     else if type = ascii (CHR ''J'') then handle_luld_auction_collar le buf p len e s
     else if type = ascii (CHR ''h'') then handle_operational_halt le buf p len e s
     else if type = ascii (CHR ''A'') then handle_add_order False le buf p len e s
     else if type = ascii (CHR ''F'') then handle_add_order True le buf p len e s
     else if type = ascii (CHR ''E'') then handle_order_executed le buf p len e s
     else if type = ascii (CHR ''C'') then handle_order_executed_price le buf p len e s
     else if type = ascii (CHR ''X'') then handle_order_cancel le buf p len e s
     else if type = ascii (CHR ''D'') then handle_order_delete le buf p len e s
     else if type = ascii (CHR ''U'') then handle_order_replace le buf p len e s
     else if type = ascii (CHR ''P'') then handle_non_cross_trade le buf p len e s
     else if type = ascii (CHR ''Q'') then handle_cross_trade le buf p len e s
     else if type = ascii (CHR ''B'') then handle_broken_trade le buf p len e s
     else if type = ascii (CHR ''I'') then handle_noii le buf p len e s
     else if type = ascii (CHR ''N'') then handle_rpii le buf p len e s
     else if type = ascii (CHR ''O'') then handle_dlcr le buf p len e s
     else Some (e, on_parse_error s))"

section \<open>The loop over the frames\<close>

function run_from ::
  "bool \<Rightarrow> byte list \<Rightarrow> nat \<Rightarrow> nat \<Rightarrow> MatchingEngine \<Rightarrow> Stats \<Rightarrow> (nat \<times> MatchingEngine \<times> Stats) exec" where
  "run_from le buf end p e s =
     (if p + 2 \<le> end then do {
        payload_len \<leftarrow> ld16 le buf p;
        let p = p + 2;
        if p + unat payload_len > end then Some (p, e, on_parse_error s)
        else if payload_len = 0 then run_from le buf end p e (on_parse_error s)
        else do {
          type \<leftarrow> rd8 buf p;
          (e, s) \<leftarrow> dispatch type le buf p payload_len e s;
          run_from le buf end (p + unat payload_len) e s }}
      else Some (p, e, s))"
  by pat_completeness auto
termination
  by (relation "measure (\<lambda>(le, buf, end, p, e, s). end - p)") auto

definition run :: "bool \<Rightarrow> byte list \<Rightarrow> nat \<Rightarrow> MatchingEngine \<Rightarrow> Stats \<Rightarrow> (nat \<times> MatchingEngine \<times> Stats) exec" where
  "run le buf len e s = run_from le buf len 0 e s"

declare run_from.simps [simp del]

end
