(* ===== verification/Binary64.thy ===== *)
theory Binary64
  imports Complex_Main "HOL-Library.Log_Nat"
begin

text \<open>
  The type \<open>double\<close> of the reports: IEEE 754 binary64 with rounding to nearest, ties to even. A value is
  the rational number it stands for, and an operation is the exact operation followed by \<open>rnd\<close>. The
  reports compute with counters, durations and their quotients, whose magnitudes lie between
  \<open>2 ^ -140\<close> and \<open>2 ^ 140\<close> unless they are zero; at the ends of the format's range, with subnormal
  numbers and infinities, \<open>rnd\<close> would not be the format's rounding.
\<close>

section \<open>Rounding\<close>

type_synonym double = rat

text \<open>The nearest integer, the even one of two.\<close>

definition round_even :: "rat \<Rightarrow> int" where
  "round_even x =
     (let f = \<lfloor>x\<rfloor>; r = x - of_int f
      in if r < 1 / 2 then f else if r > 1 / 2 then f + 1 else if even f then f else f + 1)"

text \<open>The exponent of the leading bit of a positive number.\<close>

definition lead_exp :: "rat \<Rightarrow> int" where
  "lead_exp x =
     (case quotient_of x of (p, q) \<Rightarrow>
        let e = bitlen p - bitlen q in if 2 powi e \<le> x then e else e - 1)"

definition rnd :: "rat \<Rightarrow> double" where
  "rnd x = (if x = 0 then 0 else let u = 2 powi (lead_exp \<bar>x\<bar> - 52) in of_int (round_even (x / u)) * u)"

definition double_of_nat :: "nat \<Rightarrow> double" where "double_of_nat n = rnd (of_nat n)"
definition double_of_int :: "int \<Rightarrow> double" where "double_of_int n = rnd (of_int n)"
definition fmul :: "double \<Rightarrow> double \<Rightarrow> double" where "fmul x y = rnd (x * y)"
definition fdiv :: "double \<Rightarrow> double \<Rightarrow> double" where "fdiv x y = rnd (x / y)"

section \<open>The nearest integer\<close>

lemma round_even_error: "\<bar>of_int (round_even x) - x\<bar> \<le> 1 / 2"
proof -
  have "of_int \<lfloor>x\<rfloor> \<le> x" "x < of_int \<lfloor>x\<rfloor> + 1" by linarith+
  then show ?thesis by (auto simp: round_even_def Let_def abs_le_iff)
qed

lemma round_even_of_int [simp]: "round_even (of_int n) = n"
  by (simp add: round_even_def)

lemma round_even_mono:
  assumes "x \<le> y"
  shows "round_even x \<le> round_even y"
proof (cases "\<lfloor>x\<rfloor> = \<lfloor>y\<rfloor>")
  case True
  then show ?thesis using assms by (auto simp: round_even_def Let_def)
next
  case False
  then have "\<lfloor>x\<rfloor> + 1 \<le> \<lfloor>y\<rfloor>" using floor_mono [OF assms] by linarith
  moreover have "round_even x \<le> \<lfloor>x\<rfloor> + 1" "\<lfloor>y\<rfloor> \<le> round_even y" by (auto simp: round_even_def Let_def)
  ultimately show ?thesis by linarith
qed

lemma round_even_nonneg: "0 \<le> x \<Longrightarrow> 0 \<le> round_even x"
  using round_even_mono [of 0 x] round_even_of_int [of 0] by simp

section \<open>The leading bit\<close>

lemma bitlen_powi:
  assumes "0 < n"
  shows "2 powi (bitlen n - 1) \<le> (of_int n :: rat)" "(of_int n :: rat) < 2 powi bitlen n"
proof -
  have b: "2 ^ nat (bitlen n - 1) \<le> n" "n < 2 ^ nat (bitlen n)" "1 \<le> bitlen n"
    using bitlen_bounds [OF assms] bitlen_nonneg [of n] bitlen_eq_zero_iff [of n] assms by linarith+
  have "(of_int (2 ^ nat (bitlen n - 1)) :: rat) \<le> of_int n" "(of_int n :: rat) < of_int (2 ^ nat (bitlen n))"
    unfolding of_int_le_iff of_int_less_iff using b by auto
  then show "2 powi (bitlen n - 1) \<le> (of_int n :: rat)" "(of_int n :: rat) < 2 powi bitlen n"
    using b(3) by (simp_all add: power_int_def)
qed

lemma lead_exp_bounds:
  assumes "0 < x"
  shows "2 powi lead_exp x \<le> x" "x < 2 powi (lead_exp x + 1)"
proof -
  obtain p q where pq: "quotient_of x = (p, q)" by fastforce
  then have q: "0 < q" and x: "x = of_int p / of_int q" by (auto dest: quotient_of_denom_pos quotient_of_div)
  with assms have p: "0 < p" by (auto simp: zero_less_divide_iff)
  let ?P = "2 powi bitlen p :: rat" and ?Q = "2 powi bitlen q :: rat"
  have P: "?P / 2 \<le> of_int p" "of_int p < ?P" and Q: "?Q / 2 \<le> of_int q" "of_int q < ?Q"
    using bitlen_powi [OF p] bitlen_powi [OF q] by (simp_all add: power_int_diff)
  have pos: "0 < ?P" "0 < ?Q" "(0 :: rat) < of_int p" "(0 :: rat) < of_int q" using p q by simp_all
  have e: "2 powi (bitlen p - bitlen q) = ?P / ?Q" by (simp add: power_int_diff)
  have "x \<le> of_int p / (?Q / 2)" unfolding x using Q(1) pos by (intro divide_left_mono) auto
  also have "\<dots> < ?P / (?Q / 2)" using P(2) pos by (intro divide_strict_right_mono) auto
  finally have hi: "x < 2 powi (bitlen p - bitlen q + 1)" by (simp add: power_int_add e)
  have "(?P / 2) / ?Q < (?P / 2) / of_int q" using Q(2) pos by (intro divide_strict_left_mono) auto
  also have "\<dots> \<le> x" unfolding x using P(1) pos by (intro divide_right_mono) auto
  finally have lo: "2 powi (bitlen p - bitlen q - 1) \<le> x" by (simp add: power_int_diff e)
  show "2 powi lead_exp x \<le> x" "x < 2 powi (lead_exp x + 1)"
    using hi lo by (auto simp: lead_exp_def pq Let_def)
qed

lemma powi_mono: "a \<le> b \<Longrightarrow> (2 :: rat) powi a \<le> 2 powi b"
  by (simp add: power_int_increasing)

lemma powi_less_imp_less:
  assumes "(2 :: rat) powi a < 2 powi b"
  shows "a < b"
proof (rule ccontr)
  assume "\<not> a < b"
  then have "(2 :: rat) powi b \<le> 2 powi a" by (intro powi_mono) simp
  with assms show False by simp
qed

lemma lead_exp_mono:
  assumes "0 < x" "x \<le> y"
  shows "lead_exp x \<le> lead_exp y"
proof -
  have "0 < y" using assms by simp
  have "2 powi lead_exp x \<le> x" by (rule lead_exp_bounds [OF assms(1)])
  also have "\<dots> \<le> y" by fact
  also have "\<dots> < 2 powi (lead_exp y + 1)" by (rule lead_exp_bounds [OF \<open>0 < y\<close>])
  finally show ?thesis by (auto dest: powi_less_imp_less)
qed

section \<open>Rounding to the format\<close>

lemma rnd_0 [simp]: "rnd 0 = 0"
  by (simp add: rnd_def)

lemma rnd_pos_eq:
  assumes "0 < x"
  shows "rnd x = of_int (round_even (x / 2 powi (lead_exp x - 52))) * 2 powi (lead_exp x - 52)"
  using assms by (simp add: rnd_def Let_def)

text \<open>The relative error is at most one half of a unit in the last place.\<close>

lemma rnd_error:
  assumes "0 \<le> x"
  shows "\<bar>rnd x - x\<bar> \<le> x / 2 ^ 53"
proof (cases "x = 0")
  case False
  with assms have x: "0 < x" by simp
  define u where "u = (2 :: rat) powi (lead_exp x - 52)"
  have u: "0 < u" by (simp add: u_def)
  have "rnd x - x = (of_int (round_even (x / u)) - x / u) * u"
    using u by (simp add: rnd_pos_eq [OF x] u_def [symmetric] left_diff_distrib)
  then have "\<bar>rnd x - x\<bar> = \<bar>of_int (round_even (x / u)) - x / u\<bar> * u" using u by (simp add: abs_mult)
  also have "\<dots> \<le> 1 / 2 * u" using u by (intro mult_right_mono round_even_error) simp
  also have "\<dots> = 2 powi lead_exp x / 2 ^ 53" by (simp add: u_def power_int_diff)
  also have "\<dots> \<le> x / 2 ^ 53" using lead_exp_bounds(1) [OF x] by (intro divide_right_mono) auto
  finally show ?thesis .
qed simp

lemma rnd_bounds:
  assumes "0 < x"
  shows "2 powi lead_exp x \<le> rnd x" "rnd x \<le> 2 powi (lead_exp x + 1)"
proof -
  define u where "u = (2 :: rat) powi (lead_exp x - 52)"
  have u: "0 < u" by (simp add: u_def)
  have e: "2 powi lead_exp x = of_int (2 ^ 52) * u" "2 powi (lead_exp x + 1) = of_int (2 ^ 53) * u"
    by (simp_all add: u_def power_int_diff power_int_add)
  have "of_int (2 ^ 52) \<le> x / u" "x / u \<le> of_int (2 ^ 53)"
    using lead_exp_bounds [OF assms] u by (simp_all add: e pos_le_divide_eq pos_divide_le_eq)
  then have "round_even (of_int (2 ^ 52)) \<le> round_even (x / u)" "round_even (x / u) \<le> round_even (of_int (2 ^ 53))"
    by (auto intro: round_even_mono)
  then have "(of_int (2 ^ 52) :: rat) \<le> of_int (round_even (x / u))" "of_int (round_even (x / u)) \<le> (of_int (2 ^ 53) :: rat)"
    unfolding round_even_of_int of_int_le_iff .
  with u show "2 powi lead_exp x \<le> rnd x" "rnd x \<le> 2 powi (lead_exp x + 1)"
    unfolding e rnd_pos_eq [OF assms] u_def [symmetric] by (intro mult_right_mono; simp)+
qed

lemma rnd_pos: "0 < x \<Longrightarrow> 0 < rnd x"
  using rnd_bounds(1) [of x] by (metis less_le_trans zero_less_numeral zero_less_power_int)

lemma rnd_nonneg: "0 \<le> x \<Longrightarrow> 0 \<le> rnd x"
  using rnd_pos [of x] by (cases "x = 0") auto

lemma rnd_mono:
  assumes "0 \<le> x" "x \<le> y"
  shows "rnd x \<le> rnd y"
proof (cases "x = 0")
  case True
  then show ?thesis using assms by (simp add: rnd_nonneg)
next
  case False
  with assms have x: "0 < x" and y: "0 < y" by auto
  show ?thesis
  proof (cases "lead_exp x = lead_exp y")
    case True
    have "round_even (x / 2 powi (lead_exp y - 52)) \<le> round_even (y / 2 powi (lead_exp y - 52))"
      using assms(2) by (intro round_even_mono divide_right_mono) auto
    then show ?thesis unfolding rnd_pos_eq [OF x] rnd_pos_eq [OF y] True by (intro mult_right_mono) auto
  next
    case False
    then have "lead_exp x + 1 \<le> lead_exp y" using lead_exp_mono [OF x assms(2)] by simp
    then have "(2 :: rat) powi (lead_exp x + 1) \<le> 2 powi lead_exp y" by (rule powi_mono)
    then show ?thesis using rnd_bounds(2) [OF x] rnd_bounds(1) [OF y] by linarith
  qed
qed

text \<open>Integers of at most 53 bits, and these times a power of two, are values of the format.\<close>

lemma rnd_exact:
  assumes "n < 2 ^ 53"
  shows "rnd (of_nat n * 2 powi k) = of_nat n * 2 powi k"
proof (cases "n = 0")
  case False
  define x :: rat where "x = of_nat n * 2 powi k"
  have x: "0 < x" using False by (simp add: x_def)
  have "(of_nat n :: rat) < of_nat (2 ^ 53)" using assms unfolding of_nat_less_iff .
  then have "x < 2 powi (k + 53)" by (simp add: x_def power_int_add)
  with lead_exp_bounds(1) [OF x] have "lead_exp x < k + 53" by (intro powi_less_imp_less) (rule le_less_trans)
  then obtain j where j: "k = lead_exp x - 52 + int j" using zle_iff_zadd [of "lead_exp x - 52" k] by auto
  define u where "u = (2 :: rat) powi (lead_exp x - 52)"
  have "(2 :: rat) powi k = 2 ^ j * u" by (simp add: j u_def power_int_add)
  then have eq: "x = of_int (int n * 2 ^ j) * u" by (simp add: x_def)
  have "0 < u" by (simp add: u_def)
  with eq have "x / u = of_int (int n * 2 ^ j)" by simp
  then have "rnd x = of_int (int n * 2 ^ j) * u" by (simp only: rnd_pos_eq [OF x] u_def [symmetric] round_even_of_int)
  also have "\<dots> = x" using eq by simp
  finally show ?thesis by (simp add: x_def)
qed simp

lemma rnd_of_nat:
  assumes "n \<le> 2 ^ 53"
  shows "rnd (of_nat n) = of_nat n"
proof (cases "n = 2 ^ 53")
  case True
  then show ?thesis using rnd_exact [of "2 ^ 52" 1] by simp
next
  case False
  with assms rnd_exact [of n 0] show ?thesis by simp
qed

end
