(* ===== verification/Text_Format.thy ===== *)
theory Text_Format
  imports Binary64 Itch_Prelude "HOL-Library.Char_ord"
begin

text \<open>
  The part of \<open>std::format\<close> and \<open>std::println\<close> the program uses: replacement fields \<open>{}\<close> with an
  alignment, the zero flag, a width, a precision and a presentation type, for integers, characters,
  strings and doubles. The format strings are those of the source and are read here. A call that the
  compiler would reject (a bad format string, a type that does not fit the argument, an argument that is
  missing) is \<open>None\<close>. Widths count characters, which is right for ASCII text.
\<close>

section \<open>Numbers as text\<close>

definition is_digit :: "char \<Rightarrow> bool" where
  "is_digit c \<longleftrightarrow> c \<in> set ''0123456789''"

definition digits_value :: "string \<Rightarrow> nat" where
  "digits_value ds = foldl (\<lambda>n d. 10 * n + (of_char d - 48)) 0 ds"

definition digit_char :: "nat \<Rightarrow> char" where
  "digit_char d = (if d < 10 then char_of (48 + d) else char_of (55 + d))"

function digits_in :: "nat \<Rightarrow> nat \<Rightarrow> string" where
  "digits_in b n = (if b < 2 \<or> n < b then [digit_char n] else digits_in b (n div b) @ [digit_char (n mod b)])"
  by pat_completeness auto
termination
  by (relation "measure snd") auto

declare digits_in.simps [simp del]

abbreviation dec :: "nat \<Rightarrow> string" where "dec \<equiv> digits_in 10"

definition dec_int :: "int \<Rightarrow> string" where
  "dec_int n = (if n < 0 then CHR ''-'' # dec (nat (- n)) else dec (nat n))"

definition pad_left :: "char \<Rightarrow> nat \<Rightarrow> string \<Rightarrow> string" where
  "pad_left c w s = replicate (w - length s) c @ s"

definition pad_right :: "char \<Rightarrow> nat \<Rightarrow> string \<Rightarrow> string" where
  "pad_right c w s = s @ replicate (w - length s) c"

text \<open>Fixed notation is correctly rounded from the exact value of the double, ties to even.\<close>

definition fixed :: "nat \<Rightarrow> double \<Rightarrow> string" where
  "fixed prec x =
     (let n = nat (round_even (\<bar>x\<bar> * 10 ^ prec))
      in (if x < 0 then ''-'' else '''') @ dec (n div 10 ^ prec) @
         (if prec = 0 then '''' else CHR ''.'' # pad_left CHR ''0'' prec (dec (n mod 10 ^ prec))))"

section \<open>Replacement fields\<close>

datatype fmt_align = ALeft | ARight

record fmt_spec =
  fs_align :: "fmt_align option"
  fs_zero :: bool
  fs_width :: nat
  fs_prec :: "nat option"
  fs_type :: "char option"

datatype fmt_arg = FInt int | FChar char | FStr string | FDouble double

definition plain_spec :: fmt_spec where
  "plain_spec = \<lparr>fs_align = None, fs_zero = False, fs_width = 0, fs_prec = None, fs_type = None\<rparr>"

definition parse_spec :: "string \<Rightarrow> fmt_spec option" where
  "parse_spec s =
    (if s = [] then Some plain_spec
     else if hd s \<noteq> CHR '':'' then None
     else
       let s = tl s;
           al = (if s = [] then None else if hd s = CHR ''<'' then Some ALeft else if hd s = CHR ''>'' then Some ARight else None);
           s = (if al = None then s else tl s);
           zero = (s \<noteq> [] \<and> hd s = CHR ''0'');
           s = (if zero then tl s else s);
           width = digits_value (takeWhile is_digit s);
           s = dropWhile is_digit s;
           dot = (s \<noteq> [] \<and> hd s = CHR ''.'');
           prec = (if dot then Some (digits_value (takeWhile is_digit (tl s))) else None);
           s = (if dot then dropWhile is_digit (tl s) else s)
       in if length s > 1 then None
          else Some \<lparr>fs_align = al, fs_zero = zero, fs_width = width, fs_prec = prec,
            fs_type = (if s = [] then None else Some (hd s))\<rparr>)"

datatype piece = Lit char | Field fmt_spec

function parse_format :: "string \<Rightarrow> piece list option" where
  "parse_format [] = Some []"
| "parse_format (c # s) =
    (if c = CHR ''{'' then
       (case dropWhile (\<lambda>c. c \<noteq> CHR ''}'') s of
          [] \<Rightarrow> None
        | _ # rest \<Rightarrow> do {
            spec \<leftarrow> parse_spec (takeWhile (\<lambda>c. c \<noteq> CHR ''}'') s);
            ps \<leftarrow> parse_format rest;
            Some (Field spec # ps) })
     else if c = CHR ''}'' then None
     else do { ps \<leftarrow> parse_format s; Some (Lit c # ps) })"
  by pat_completeness auto
termination
proof (relation "measure length")
  fix c :: char and s x rest
  assume "dropWhile (\<lambda>c. c \<noteq> CHR ''}'') s = x # rest"
  then have "length (x # rest) \<le> length s" by (metis length_dropWhile_le)
  then show "(rest, c # s) \<in> measure length" by simp
qed auto

definition aligned :: "fmt_align \<Rightarrow> fmt_spec \<Rightarrow> string \<Rightarrow> string" where
  "aligned otherwise spec s =
     (case (case fs_align spec of None \<Rightarrow> otherwise | Some a \<Rightarrow> a) of
        ALeft \<Rightarrow> pad_right CHR '' '' (fs_width spec) s
      | ARight \<Rightarrow> pad_left CHR '' '' (fs_width spec) s)"

text \<open>The zero flag of a number without an alignment fills with zeros after the sign; the program uses
it for numbers that are not negative.\<close>

definition number_field :: "fmt_spec \<Rightarrow> string \<Rightarrow> string" where
  "number_field spec s =
     (if fs_zero spec \<and> fs_align spec = None then
        (if s \<noteq> [] \<and> hd s = CHR ''-'' then CHR ''-'' # pad_left CHR ''0'' (fs_width spec - 1) (tl s)
         else pad_left CHR ''0'' (fs_width spec) s)
      else aligned ARight spec s)"

fun format_arg :: "fmt_spec \<Rightarrow> fmt_arg \<Rightarrow> string option" where
  "format_arg spec (FInt n) =
    (if fs_prec spec \<noteq> None then None
     else if fs_type spec = None \<or> fs_type spec = Some CHR ''d'' then Some (number_field spec (dec_int n))
     else if fs_type spec = Some CHR ''X'' then
       Some (number_field spec ((if n < 0 then ''-'' else '''') @ digits_in 16 (nat \<bar>n\<bar>)))
     else None)"
| "format_arg spec (FChar c) =
    (if fs_prec spec \<noteq> None \<or> fs_zero spec \<or> fs_type spec \<noteq> None then None else Some (aligned ALeft spec [c]))"
| "format_arg spec (FStr s) =
    (if fs_prec spec \<noteq> None \<or> fs_zero spec \<or> fs_type spec \<noteq> None then None else Some (aligned ALeft spec s))"
| "format_arg spec (FDouble x) =
    (case (fs_type spec, fs_prec spec) of
       (Some c, Some p) \<Rightarrow> if c = CHR ''f'' then Some (number_field spec (fixed p x)) else None
     | _ \<Rightarrow> None)"

fun render :: "piece list \<Rightarrow> fmt_arg list \<Rightarrow> string option" where
  "render [] args = Some []"
| "render (Lit c # ps) args = do { t \<leftarrow> render ps args; Some (c # t) }"
| "render (Field spec # ps) [] = None"
| "render (Field spec # ps) (a # args) = do {
     f \<leftarrow> format_arg spec a;
     t \<leftarrow> render ps args;
     Some (f @ t) }"

definition newline :: char where "newline = CHR 0x0A"

definition println :: "string \<Rightarrow> fmt_arg list \<Rightarrow> string exec" where
  "println fmt args = do { ps \<leftarrow> parse_format fmt; t \<leftarrow> render ps args; Some (t @ [newline]) }"

text \<open>The lines of a string literal of several lines, with a newline between two of them.\<close>

fun text_lines :: "string list \<Rightarrow> string" where
  "text_lines [] = []"
| "text_lines [l] = l"
| "text_lines (l # ls) = l @ newline # text_lines ls"

definition unsigned_arg :: "'a::len word \<Rightarrow> fmt_arg" where "unsigned_arg n = FInt (int (unat n))"

section \<open>Reading numbers back\<close>

lemma digit_char_decimal:
  assumes "d < 10"
  shows "is_digit (digit_char d)" "(of_char (digit_char d) :: nat) = 48 + d"
proof -
  have "\<forall>d\<in>set [0..<10]. is_digit (digit_char d)" by code_simp
  then show "is_digit (digit_char d)" using assms by simp
  show "(of_char (digit_char d) :: nat) = 48 + d" using assms by (simp add: digit_char_def)
qed

lemma dec_digit: "c \<in> set (dec n) \<Longrightarrow> is_digit c"
proof (induction "10 :: nat" n rule: digits_in.induct)
  case (1 n)
  then show ?case by (subst (asm) (2) digits_in.simps) (auto simp: digit_char_decimal split: if_splits)
qed

lemma dec_nonempty [simp]: "digits_in b n \<noteq> []"
  by (subst digits_in.simps) simp

lemma digits_value_snoc: "digits_value (ds @ [c]) = 10 * digits_value ds + (of_char c - 48)"
  by (simp add: digits_value_def)

lemma digits_value_dec [simp]: "digits_value (dec n) = n"
proof (induction "10 :: nat" n rule: digits_in.induct)
  case (1 n)
  show ?case
  proof (cases "n < 10")
    case True
    then show ?thesis by (subst digits_in.simps) (simp add: digits_value_def digit_char_decimal)
  next
    case False
    with 1 show ?thesis by (subst digits_in.simps) (simp add: digits_value_snoc digit_char_decimal)
  qed
qed

lemma space_not_digit: "\<not> is_digit CHR '' ''"
  by (simp add: is_digit_def)

lemma minus_not_digit: "\<not> is_digit CHR ''-''"
  by (simp add: is_digit_def)

lemma hd_dec_digit: "is_digit (hd (dec n))"
  using dec_digit [of "hd (dec n)" n] hd_in_set [OF dec_nonempty] by blast

text \<open>A text that starts with a decimal number that ends where the digits end.\<close>

definition stops :: "string \<Rightarrow> bool" where
  "stops t \<longleftrightarrow> (t = [] \<or> \<not> is_digit (hd t))"

lemma takeWhile_dec:
  assumes "stops t"
  shows "takeWhile is_digit (dec n @ t) = dec n" "dropWhile is_digit (dec n @ t) = t"
proof -
  have "takeWhile is_digit t = []" "dropWhile is_digit t = t" using assms by (cases t; simp add: stops_def)+
  then show "takeWhile is_digit (dec n @ t) = dec n" "dropWhile is_digit (dec n @ t) = t"
    by (simp_all add: takeWhile_append2 dropWhile_append2 dec_digit)
qed

lemma dropWhile_spaces: "dropWhile (\<lambda>c. c = CHR '' '') (pad_left CHR '' '' w (dec n) @ t) = dec n @ t"
proof -
  have "hd (dec n @ t) \<noteq> CHR '' ''" using hd_dec_digit [of n] space_not_digit by (auto simp: hd_append)
  then have "dropWhile (\<lambda>c. c = CHR '' '') (dec n @ t) = dec n @ t" by (cases "dec n @ t") simp_all
  moreover have "dropWhile (\<lambda>c. c = CHR '' '') (replicate k CHR '' '' @ s) = dropWhile (\<lambda>c. c = CHR '' '') s" for k s
    by (induction k) simp_all
  ultimately show ?thesis by (simp add: pad_left_def)
qed

text \<open>
  The reader of a printed text: it follows the pieces of the format string, skips the spaces before a
  number and reads its digits.
\<close>

fun scan :: "piece list \<Rightarrow> string \<Rightarrow> nat list option" where
  "scan [] t = Some []"
| "scan (Lit c # ps) [] = None"
| "scan (Lit c # ps) (x # t) = (if x = c then scan ps t else None)"
| "scan (Field spec # ps) t =
    (let t = dropWhile (\<lambda>c. c = CHR '' '') t
     in if takeWhile is_digit t = [] then None
        else map_option (Cons (digits_value (takeWhile is_digit t))) (scan ps (dropWhile is_digit t)))"

definition number_spec :: "fmt_spec \<Rightarrow> bool" where
  "number_spec spec \<longleftrightarrow> fs_align spec = None \<and> \<not> fs_zero spec \<and> fs_prec spec = None \<and> fs_type spec = None"

fun separated :: "piece list \<Rightarrow> bool" where
  "separated [] = True"
| "separated (Lit c # ps) = separated ps"
| "separated (Field spec # ps) =
    (number_spec spec \<and> (case ps of [] \<Rightarrow> True | Lit c # _ \<Rightarrow> \<not> is_digit c | Field _ # _ \<Rightarrow> False) \<and> separated ps)"

fun field_specs :: "piece list \<Rightarrow> fmt_spec list" where
  "field_specs [] = []"
| "field_specs (Lit c # ps) = field_specs ps"
| "field_specs (Field spec # ps) = spec # field_specs ps"

definition nat_arg :: "nat \<Rightarrow> fmt_arg" where "nat_arg n = FInt (int n)"

lemma format_number: "number_spec spec \<Longrightarrow> format_arg spec (nat_arg n) = Some (pad_left CHR '' '' (fs_width spec) (dec n))"
  by (simp add: nat_arg_def number_spec_def dec_int_def number_field_def aligned_def)

lemma scan_render:
  assumes "separated ps" "length ns = length (field_specs ps)" "stops rest"
  shows "\<exists>t. render ps (map nat_arg ns) = Some t \<and> scan ps (t @ rest) = Some ns"
  using assms
proof (induction ps arbitrary: ns)
  case (Cons p ps)
  show ?case
  proof (cases p)
    case (Lit c)
    with Cons show ?thesis by fastforce
  next
    case (Field spec)
    with Cons.prems obtain n ns' where ns: "ns = n # ns'" by (cases ns) auto
    from Cons.prems Field have sep: "number_spec spec" "separated ps" by simp_all
    obtain t where t: "render ps (map nat_arg ns') = Some t" "scan ps (t @ rest) = Some ns'"
      using Cons.IH [OF sep(2), of ns'] Cons.prems ns Field by auto
    have "stops (t @ rest)"
    proof (cases ps)
      case Nil
      with t Cons.prems show ?thesis by simp
    next
      case (Cons q qs)
      with Cons.prems Field obtain c where "q = Lit c" "\<not> is_digit c" by (cases q) auto
      with Cons t show ?thesis by (cases "render qs (map nat_arg ns')") (auto simp: stops_def)
    qed
    from takeWhile_dec [OF this, of n] t format_number [OF sep(1), of n]
    have "render (p # ps) (map nat_arg ns) = Some (pad_left CHR '' '' (fs_width spec) (dec n) @ t)"
      "scan (p # ps) ((pad_left CHR '' '' (fs_width spec) (dec n) @ t) @ rest) = Some ns"
      by (simp_all add: Field ns dropWhile_spaces Let_def)
    then show ?thesis by blast
  qed
qed simp

text \<open>A format string of several lines is read line by line.\<close>

lemma parse_format_append:
  "parse_format l = Some ps \<Longrightarrow> parse_format (l @ s) = map_option ((@) ps) (parse_format s)"
proof (induction l arbitrary: ps rule: parse_format.induct)
  case 1
  then show ?case by (cases "parse_format s") simp_all
next
  case (2 c l)
  show ?case
  proof (cases "c = CHR ''{''")
    case True
    with "2.prems" obtain x rest spec qs where close: "dropWhile (\<lambda>c. c \<noteq> CHR ''}'') l = x # rest"
      and spec: "parse_spec (takeWhile (\<lambda>c. c \<noteq> CHR ''}'') l) = Some spec" and qs: "parse_format rest = Some qs" "ps = Field spec # qs"
      by (auto split: list.splits Option.bind_splits)
    have "CHR ''}'' \<in> set l" using close dropWhile_eq_Nil_conv [of "\<lambda>c. c \<noteq> CHR ''}''" l] by (metis list.distinct(1))
    then have "takeWhile (\<lambda>c. c \<noteq> CHR ''}'') (l @ s) = takeWhile (\<lambda>c. c \<noteq> CHR ''}'') l"
      "dropWhile (\<lambda>c. c \<noteq> CHR ''}'') (l @ s) = x # rest @ s"
      using takeWhile_append1 [of "CHR ''}''" l "\<lambda>c. c \<noteq> CHR ''}''" s] dropWhile_append1 [of "CHR ''}''" l "\<lambda>c. c \<noteq> CHR ''}''" s] close by simp_all
    with True spec qs "2.IH"(1) [OF True close spec qs(1)] show ?thesis by (cases "parse_format s") simp_all
  next
    case False
    with "2.prems" obtain qs where "c \<noteq> CHR ''}''" "parse_format l = Some qs" "ps = Lit c # qs"
      by (auto split: if_splits Option.bind_splits)
    with False "2.IH"(2) [OF False this(1,2)] show ?thesis by (cases "parse_format s") simp_all
  qed
qed

lemma field_specs_append: "field_specs (ps @ qs) = field_specs ps @ field_specs qs"
  by (induction ps rule: field_specs.induct) simp_all

lemma separated_append: "separated ps \<Longrightarrow> separated qs \<Longrightarrow> \<not> is_digit c \<Longrightarrow> separated (ps @ Lit c # qs)"
proof (induction ps rule: separated.induct)
  case (3 spec ps)
  then show ?case by (cases ps) (auto split: piece.splits)
qed simp_all

definition line_summary :: "string \<Rightarrow> (fmt_spec list \<times> bool) option" where
  "line_summary l = map_option (\<lambda>ps. (field_specs ps, separated ps)) (parse_format l)"

lemma text_lines_pieces:
  "list_all2 (\<lambda>l fs. line_summary l = Some (fs, True)) ls fss \<Longrightarrow>
   \<exists>ps. parse_format (text_lines ls) = Some ps \<and> field_specs ps = concat fss \<and> separated ps"
proof (induction ls arbitrary: fss rule: text_lines.induct)
  case (2 l)
  then show ?case by (auto simp: list_all2_Cons1 line_summary_def)
next
  case (3 l l' ls)
  from "3.prems" obtain fs fss' where fss: "fss = fs # fss'" "line_summary l = Some (fs, True)"
    "list_all2 (\<lambda>l fs. line_summary l = Some (fs, True)) (l' # ls) fss'" by (auto simp: list_all2_Cons1)
  from "3.IH" [OF fss(3)] obtain qs where qs: "parse_format (text_lines (l' # ls)) = Some qs"
    "field_specs qs = concat fss'" "separated qs" by blast
  from fss(2) obtain ps where ps: "parse_format l = Some ps" "field_specs ps = fs" "separated ps"
    by (auto simp: line_summary_def)
  have "parse_format (text_lines (l # l' # ls)) = Some (ps @ Lit newline # qs)"
    using parse_format_append [OF ps(1), of "newline # text_lines (l' # ls)"] qs(1) by (simp add: newline_def)
  then show ?case using ps qs fss(1) separated_append [OF ps(3) qs(3), of newline]
    by (simp add: field_specs_append newline_def is_digit_def)
qed simp

text \<open>A call is well formed when every field has an argument it can print.\<close>

definition fits :: "fmt_spec \<Rightarrow> fmt_arg \<Rightarrow> bool" where
  "fits spec a \<longleftrightarrow> format_arg spec a \<noteq> None"

lemma render_total:
  "list_all2 fits (field_specs ps) args \<Longrightarrow> \<exists>t. render ps args = Some t"
proof (induction ps args rule: render.induct)
  case (4 spec ps a args)
  then show ?case by (auto simp: fits_def)
qed auto

lemma println_total:
  assumes "map_option field_specs (parse_format f) = Some specs" "list_all2 fits specs args"
  shows "\<exists>t. println f args = Some t"
proof -
  from assms obtain ps where ps: "parse_format f = Some ps" "field_specs ps = specs" by auto
  with assms render_total [of ps args] obtain t where "render ps args = Some t" by auto
  with ps show ?thesis by (simp add: println_def)
qed

lemma fits_plain [simp]: "fits plain_spec (FInt n)" "fits plain_spec (FStr s)" "fits plain_spec (FChar c)"
  by (simp_all add: fits_def plain_spec_def)

end
