(* ===== verification/Stats_Report.thy ===== *)
theory Stats_Report
  imports Stats Text_Format
begin

text \<open>
  The rates of \<open>include/Stats.hpp\<close> and the text its \<open>print_report\<close> writes. A time point counts the
  nanoseconds of \<open>steady_clock\<close>; \<open>duration<double>\<close> divides their number, as a double, by \<open>1e9\<close>.
\<close>

section \<open>Rates\<close>

definition elapsed_seconds :: "Stats \<Rightarrow> double" where
  "elapsed_seconds s = fdiv (double_of_int (uint (end_time s) - uint (start_time s))) (10 ^ 9)"

definition msgs_per_sec :: "Stats \<Rightarrow> double" where
  "msgs_per_sec s =
     (let t = elapsed_seconds s in if t > 0 then fdiv (double_of_nat (unat (total_messages s))) t else 0)"

definition mb_per_sec :: "Stats \<Rightarrow> double" where
  "mb_per_sec s =
     (let t = elapsed_seconds s
      in if t \<le> 0 then 0
         else let bytes = double_of_nat (unat (total_bytes s + total_framing_bytes s))
              in fdiv (fdiv bytes (fmul 1024 1024)) t)"

definition percentage :: "Stats \<Rightarrow> u64 \<Rightarrow> double" where
  "percentage s n =
     (if total_messages s > 0
      then fdiv (fmul 100 (double_of_nat (unat n))) (double_of_nat (unat (total_messages s)))
      else 0)"

section \<open>The text of the report\<close>

definition double_rule :: string where "double_rule = replicate 64 CHR ''=''"
definition single_rule :: string where "single_rule = replicate 64 CHR ''-''"

definition stats_format :: string where
  "stats_format = text_lines
     [double_rule,
      ''ITCH Parser Run Report'',
      double_rule,
      ''  Elapsed wall-clock      : {:.3f} s'',
      ''  Total messages          : {}'',
      ''  Total payload bytes     : {} ({:.2f} MiB)'',
      ''  Total framing bytes     : {}'',
      ''  Throughput (msgs/sec)   : {:.2f} M'',
      ''  Throughput (MiB/sec)    : {:.2f}'',
      ''  Parse errors            : {}'',
      ''  Truncated messages      : {}'',
      single_rule,
      ''Per-message-type breakdown:'']"

definition stats_args :: "Stats \<Rightarrow> fmt_arg list" where
  "stats_args s =
     [FDouble (elapsed_seconds s),
      unsigned_arg (total_messages s),
      unsigned_arg (total_bytes s),
      FDouble (fdiv (double_of_nat (unat (total_bytes s))) (fmul 1024 1024)),
      unsigned_arg (total_framing_bytes s),
      FDouble (fdiv (msgs_per_sec s) (10 ^ 6)),
      FDouble (mb_per_sec s),
      unsigned_arg (parse_errors s),
      unsigned_arg (truncated_messages s)]"

definition char_of_byte :: "byte \<Rightarrow> char" where "char_of_byte b = char_of (unat b)"

definition row_format :: string where
  "row_format = ''  '{}' (0x{:02X}) {:<30} : {:12}  ({:5.2f}%)''"

fun print_rows :: "Stats \<Rightarrow> (byte \<times> byte \<times> string \<times> u64) list \<Rightarrow> string exec" where
  "print_rows s [] = Some []"
| "print_rows s ((tag, type, name, n) # rows) = do {
     line \<leftarrow> println row_format
       [FChar (char_of_byte tag), FInt (int (unat type)), FStr name, unsigned_arg n, FDouble (percentage s n)];
     rest \<leftarrow> print_rows s rows;
     Some (line @ rest) }"

definition print_report :: "Stats \<Rightarrow> string exec" where
  "print_report s = do {
     header \<leftarrow> println stats_format (stats_args s);
     rows \<leftarrow> print_rows s (report_lines s);
     footer \<leftarrow> println double_rule [];
     Some (header @ rows @ footer) }"

section \<open>Every call of the report is well formed\<close>

lemma stats_fields:
  "map_option field_specs (parse_format stats_format) = Some
     (let d3 = plain_spec\<lparr>fs_prec := Some 3, fs_type := Some CHR ''f''\<rparr>; d2 = plain_spec\<lparr>fs_prec := Some 2, fs_type := Some CHR ''f''\<rparr>
      in [d3, plain_spec, plain_spec, d2, plain_spec, d2, d2, plain_spec, plain_spec])"
  by code_simp

lemma row_fields:
  "map_option field_specs (parse_format row_format) = Some
     [plain_spec, plain_spec\<lparr>fs_zero := True, fs_width := 2, fs_type := Some CHR ''X''\<rparr>,
      plain_spec\<lparr>fs_align := Some ALeft, fs_width := 30\<rparr>, plain_spec\<lparr>fs_width := 12\<rparr>,
      plain_spec\<lparr>fs_width := 5, fs_prec := Some 2, fs_type := Some CHR ''f''\<rparr>]"
  by code_simp

lemma rule_fields: "map_option field_specs (parse_format double_rule) = Some []" "map_option field_specs (parse_format single_rule) = Some []"
  by code_simp+

lemma print_report_total: "\<exists>t. print_report s = Some t"
proof -
  have "\<exists>t. println stats_format (stats_args s) = Some t"
    by (rule println_total [OF stats_fields]) (simp add: stats_args_def fits_def plain_spec_def unsigned_arg_def Let_def)
  moreover have "\<exists>t. print_rows s rows = Some t" for rows
  proof (induction rows)
    case (Cons r rows)
    obtain tag type name n where r: "r = (tag, type, name, n)" by (cases r)
    have "\<exists>t. println row_format [FChar (char_of_byte tag), FInt (int (unat type)), FStr name, unsigned_arg n, FDouble (percentage s n)] = Some t"
      by (rule println_total [OF row_fields]) (simp add: fits_def plain_spec_def unsigned_arg_def)
    with Cons r show ?case by auto
  qed simp
  moreover have "\<exists>t. println double_rule [] = Some t" by (rule println_total [OF rule_fields(1)]) simp
  ultimately obtain h r f where "println stats_format (stats_args s) = Some h" "print_rows s (report_lines s) = Some r"
    "println double_rule [] = Some f" by metis
  then show ?thesis by (simp add: print_report_def)
qed

section \<open>Accuracy of the rates\<close>

text \<open>A double is within a relative error of the exact, nonnegative value.\<close>

definition close :: "rat \<Rightarrow> double \<Rightarrow> rat \<Rightarrow> bool" where
  "close e x y \<longleftrightarrow> 0 \<le> y \<and> \<bar>x - y\<bar> \<le> e * y"

lemma close_exact: "0 \<le> y \<Longrightarrow> close 0 y y"
  by (simp add: close_def)

lemma close_bounds:
  assumes "close e x y"
  shows "(1 - e) * y \<le> x" "x \<le> (1 + e) * y" "0 \<le> y"
  using assms by (auto simp: close_def abs_le_iff algebra_simps)

lemma closeI:
  assumes "0 \<le> y" "(1 - e) * y \<le> x" "x \<le> (1 + e) * y"
  shows "close e x y"
  using assms by (simp add: close_def abs_le_iff algebra_simps)

lemma close_rnd:
  assumes "close e x y" "0 \<le> e" "e \<le> 1"
  shows "close (e + (1 + e) / 2 ^ 53) (rnd x) y"
proof -
  note b = close_bounds [OF assms(1)]
  have "0 \<le> (1 - e) * y" using assms b(3) by (intro mult_nonneg_nonneg) auto
  with b have x: "0 \<le> x" by linarith
  have "\<bar>rnd x - x\<bar> \<le> x / 2 ^ 53" by (rule rnd_error [OF x])
  also have "\<dots> \<le> (1 + e) * y / 2 ^ 53" using b(2) by (rule divide_right_mono) simp
  finally have "\<bar>rnd x - y\<bar> \<le> (1 + e) * y / 2 ^ 53 + e * y" using assms(1) unfolding close_def by linarith
  then show ?thesis using b(3) by (simp add: close_def algebra_simps add_divide_distrib)
qed

lemma close_divide:
  assumes x: "close a x y" and z: "close b z w" and "0 < w" "0 \<le> a" "a \<le> 1" "0 \<le> b" "b < 1"
  shows "close ((a + b) / (1 - b)) (x / z) (y / w)"
proof -
  note X = close_bounds [OF x] and Z = close_bounds [OF z]
  have pos: "0 < (1 - b) * w" "0 < 1 - b" using assms by simp_all
  then have z: "0 < z" using Z by linarith
  have y: "0 \<le> y" by (rule X)
  show ?thesis
  proof (rule closeI)
    show "0 \<le> y / w" using y \<open>0 < w\<close> by simp
    have "x / z \<le> (1 + a) * y / ((1 - b) * w)"
      using X Z pos z y assms by (intro frac_le) auto
    also have "\<dots> = (1 + (a + b) / (1 - b)) * (y / w)" using pos \<open>0 < w\<close> by (simp add: field_simps)
    finally show "x / z \<le> (1 + (a + b) / (1 - b)) * (y / w)" .
    have "(1 - (a + b) / (1 - b)) * (y / w) \<le> (1 - a) * y / ((1 + b) * w)"
    proof -
      have "(1 - (a + b) / (1 - b)) \<le> (1 - a) / (1 + b)"
      proof -
        have "(1 - b - (a + b)) * (1 + b) \<le> (1 - a) * (1 - b)"
          using assms mult_nonneg_nonneg [of a b] mult_nonneg_nonneg [of b b] by (simp add: algebra_simps)
        then show ?thesis using pos assms by (simp add: field_simps)
      qed
      from mult_right_mono [OF this, of "y / w"] show ?thesis using y \<open>0 < w\<close> by simp
    qed
    also have "\<dots> \<le> x / z"
      using X Z z y assms mult_nonneg_nonneg [of "1 - a" y] by (intro frac_le) linarith+
    finally show "(1 - (a + b) / (1 - b)) * (y / w) \<le> x / z" .
  qed
qed

lemma close_weaken: "close e x y \<Longrightarrow> e \<le> e' \<Longrightarrow> close e' x y"
  unfolding close_def by (meson mult_right_mono order_trans)

lemma close_of_nat: "close (1 / 2 ^ 53) (double_of_nat n) (of_nat n)"
  using close_rnd [OF close_exact [of "of_nat n"]] by (simp add: double_of_nat_def)

lemma close_fdiv:
  assumes "close a x y" "close b z w" "0 < w" "0 \<le> a" "0 \<le> b" "a + b \<le> 1 / 2 ^ 50"
  shows "close (a + b + 2 / 2 ^ 53) (fdiv x z) (y / w)"
proof -
  have small: "a \<le> 1 / 2 ^ 50" "b \<le> 1 / 2 ^ 50" using assms by simp_all
  have "(a + b) / (1 - b) \<le> (a + b) + 1 / (2 * 2 ^ 53)"
  proof -
    have "(a + b) * b \<le> (1 / 2 ^ 50) * (1 / 2 ^ 50)" using assms small by (intro mult_mono) auto
    moreover have "b / (2 * 2 ^ 53) \<le> (1 / 2 ^ 50) / (2 * 2 ^ 53)" using small by (intro divide_right_mono) auto
    ultimately have "a + b \<le> ((a + b) + 1 / (2 * 2 ^ 53)) * (1 - b)" by (simp add: algebra_simps)
    then show ?thesis using small by (simp add: pos_divide_le_eq)
  qed
  moreover have "close ((a + b) / (1 - b)) (x / z) (y / w)" using assms small by (intro close_divide) auto
  ultimately have c: "close (a + b + 1 / (2 * 2 ^ 53)) (x / z) (y / w)" by (rule close_weaken [rotated])
  have "close (a + b + 1 / (2 * 2 ^ 53) + (1 + (a + b + 1 / (2 * 2 ^ 53))) / 2 ^ 53) (fdiv x z) (y / w)"
    unfolding fdiv_def using assms by (intro close_rnd [OF c]) auto
  moreover have "a + b + 1 / (2 * 2 ^ 53) + (1 + (a + b + 1 / (2 * 2 ^ 53))) / 2 ^ 53 \<le> a + b + 2 / 2 ^ 53"
  proof -
    have "(1 + (a + b + 1 / (2 * 2 ^ 53))) / 2 ^ 53 \<le> (3 / 2) / 2 ^ 53" using assms by (intro divide_right_mono) auto
    moreover have "(3 / 2 :: rat) / 2 ^ 53 + 1 / (2 * 2 ^ 53) = 2 / 2 ^ 53" by simp
    ultimately show ?thesis by linarith
  qed
  ultimately show ?thesis by (rule close_weaken)
qed

lemma rnd_nonpos: "x \<le> 0 \<Longrightarrow> rnd x \<le> 0"
proof -
  assume x: "x \<le> 0"
  have "round_even (x / u) \<le> 0" if "0 < u" for u
    using round_even_mono [of "x / u" 0] round_even_of_int [of 0] x that by (simp add: divide_nonpos_pos)
  then show "rnd x \<le> 0" by (auto simp: rnd_def Let_def intro: mult_nonpos_nonneg)
qed

lemma elapsed_close:
  assumes "start_time s \<le> end_time s"
  shows "close (3 / 2 ^ 53) (elapsed_seconds s) (of_int (uint (end_time s) - uint (start_time s)) / 10 ^ 9)"
proof -
  define d where "d = uint (end_time s) - uint (start_time s)"
  have "0 \<le> d" using assms unfolding d_def word_le_def by linarith
  then have "close (1 / 2 ^ 53) (double_of_int d) (of_int d)"
    using close_rnd [OF close_exact [of "of_int d"]] by (simp add: double_of_int_def)
  from close_fdiv [OF this close_exact [of "10 ^ 9"]] show ?thesis
    unfolding elapsed_seconds_def d_def [symmetric] by simp
qed

lemma elapsed_pos_iff: "0 < elapsed_seconds s \<longleftrightarrow> start_time s < end_time s"
proof -
  define d where "d = uint (end_time s) - uint (start_time s)"
  have "0 < elapsed_seconds s" if "0 < d"
    unfolding elapsed_seconds_def d_def [symmetric] fdiv_def double_of_int_def
    using that by (intro rnd_pos divide_pos_pos) simp_all
  moreover have "elapsed_seconds s \<le> 0" if "d \<le> 0"
    unfolding elapsed_seconds_def d_def [symmetric] fdiv_def double_of_int_def
    using that by (intro rnd_nonpos divide_nonpos_nonneg) simp_all
  moreover have "start_time s < end_time s \<longleftrightarrow> 0 < d" unfolding word_less_def d_def by linarith
  ultimately show ?thesis by force
qed

text \<open>
  C36. The rates of a run: without elapsed time both are zero, and nothing is divided by zero; otherwise
  they are the quotients of the counters by the elapsed time, with a relative error of at most
  \<open>2 ^ -50\<close> through all the roundings of the double arithmetic.
\<close>

theorem rates_accurate:
  "(end_time s \<le> start_time s \<longrightarrow> msgs_per_sec s = 0 \<and> mb_per_sec s = 0) \<and>
   (start_time s < end_time s \<longrightarrow>
     (let seconds = of_int (uint (end_time s) - uint (start_time s)) / 10 ^ 9;
          rate = of_nat (unat (total_messages s)) / seconds;
          mib = of_nat (unat (total_bytes s + total_framing_bytes s)) / 2 ^ 20 / seconds
      in 0 < elapsed_seconds s \<and> \<bar>elapsed_seconds s - seconds\<bar> \<le> seconds / 2 ^ 50 \<and>
         \<bar>msgs_per_sec s - rate\<bar> \<le> rate / 2 ^ 50 \<and> \<bar>mb_per_sec s - mib\<bar> \<le> mib / 2 ^ 50))"
proof (intro conjI impI)
  assume "end_time s \<le> start_time s"
  with elapsed_pos_iff [of s] have "elapsed_seconds s \<le> 0" by (simp add: not_less [symmetric])
  then show "msgs_per_sec s = 0" "mb_per_sec s = 0" by (simp_all add: msgs_per_sec_def mb_per_sec_def Let_def)
next
  assume t: "start_time s < end_time s"
  define seconds :: rat where "seconds = of_int (uint (end_time s) - uint (start_time s)) / 10 ^ 9"
  have sec: "0 < seconds" using t unfolding seconds_def word_less_def by (intro divide_pos_pos) (simp_all del: of_int_diff)
  have el: "close (3 / 2 ^ 53) (elapsed_seconds s) seconds" using elapsed_close [of s] t by (simp add: seconds_def)
  have pos: "0 < elapsed_seconds s" using t by (simp add: elapsed_pos_iff)
  have "close (6 / 2 ^ 53) (msgs_per_sec s) (of_nat (unat (total_messages s)) / seconds)"
    using close_fdiv [OF close_of_nat el sec] pos by (simp add: msgs_per_sec_def Let_def del: of_nat_unat)
  then have rate: "close (1 / 2 ^ 50) (msgs_per_sec s) (of_nat (unat (total_messages s)) / seconds)" by (rule close_weaken) simp
  have "fmul 1024 1024 = 2 ^ 20" using rnd_of_nat [of "2 ^ 20"] by (simp add: fmul_def)
  then have "close (3 / 2 ^ 53) (fdiv (double_of_nat n) (fmul 1024 1024)) (of_nat n / 2 ^ 20)" for n
    using close_fdiv [OF close_of_nat close_exact [of "2 ^ 20"]] by simp
  from close_fdiv [OF this el sec, of "unat (total_bytes s + total_framing_bytes s)"]
  have "close (8 / 2 ^ 53) (mb_per_sec s) (of_nat (unat (total_bytes s + total_framing_bytes s)) / 2 ^ 20 / seconds)"
    using pos by (simp add: mb_per_sec_def Let_def del: of_nat_unat)
  then have "close (1 / 2 ^ 50) (mb_per_sec s) (of_nat (unat (total_bytes s + total_framing_bytes s)) / 2 ^ 20 / seconds)" by (rule close_weaken) simp
  with rate close_weaken [OF el, of "1 / 2 ^ 50"] pos
  show "let seconds = of_int (uint (end_time s) - uint (start_time s)) / 10 ^ 9;
          rate = of_nat (unat (total_messages s)) / seconds;
          mib = of_nat (unat (total_bytes s + total_framing_bytes s)) / 2 ^ 20 / seconds
      in 0 < elapsed_seconds s \<and> \<bar>elapsed_seconds s - seconds\<bar> \<le> seconds / 2 ^ 50 \<and>
         \<bar>msgs_per_sec s - rate\<bar> \<le> rate / 2 ^ 50 \<and> \<bar>mb_per_sec s - mib\<bar> \<le> mib / 2 ^ 50"
    unfolding Let_def seconds_def [symmetric] by (simp add: close_def)
qed

definition demo_stats :: Stats where
  "demo_stats = Stats_init\<lparr>per_type := (\<lambda>_. 0)(65 := 3, 68 := 1), total_messages := 4, total_bytes := 127,
     total_framing_bytes := 8, end_time := 5000000\<rparr>"

theorem rates_accurate_witness:
  "0 < elapsed_seconds demo_stats \<and> \<bar>msgs_per_sec demo_stats - 800\<bar> \<le> 800 / 2 ^ 50"
  using rates_accurate [of demo_stats] by (simp add: demo_stats_def Stats_init_def Let_def)

section \<open>The printed percentages\<close>

lemma fixed_nonneg:
  assumes "0 \<le> x" "0 < p"
  shows "\<exists>k. fixed p x = dec (k div 10 ^ p) @ CHR ''.'' # pad_left CHR ''0'' p (dec (k mod 10 ^ p)) \<and>
    \<bar>of_nat k / 10 ^ p - x\<bar> \<le> 1 / (2 * 10 ^ p) \<and> int k = round_even (x * 10 ^ p)"
proof -
  define k where "k = nat (round_even (x * 10 ^ p))"
  have k: "int k = round_even (x * 10 ^ p)" using assms round_even_nonneg [of "x * 10 ^ p"] by (simp add: k_def)
  have "(of_nat k :: rat) = of_int (round_even (x * 10 ^ p))" unfolding k [symmetric] by simp
  then have "\<bar>of_nat k - x * 10 ^ p\<bar> \<le> 1 / 2" using round_even_error [of "x * 10 ^ p"] by simp
  then have "\<bar>of_nat k - x * 10 ^ p\<bar> / 10 ^ p \<le> (1 / 2) / 10 ^ p" by (rule divide_right_mono) simp
  moreover have "\<bar>of_nat k / 10 ^ p - x\<bar> = \<bar>of_nat k - x * 10 ^ p\<bar> / 10 ^ p"
  proof -
    have "of_nat k / 10 ^ p - x = (of_nat k - x * 10 ^ p) / 10 ^ p" by (simp add: diff_divide_distrib)
    then show ?thesis by (simp add: abs_divide)
  qed
  ultimately have "\<bar>of_nat k / 10 ^ p - x\<bar> \<le> 1 / (2 * 10 ^ p)" by simp
  moreover have "fixed p x = dec (k div 10 ^ p) @ CHR ''.'' # pad_left CHR ''0'' p (dec (k mod 10 ^ p))"
    using assms unfolding fixed_def k_def Let_def by (simp only: abs_of_nonneg not_less if_False append_Nil) simp
  ultimately show ?thesis using k by blast
qed

text \<open>The row of a message type as text, spelled out.\<close>

definition row_text :: "byte \<Rightarrow> byte \<Rightarrow> string \<Rightarrow> nat \<Rightarrow> nat \<Rightarrow> string" where
  "row_text tag type name n k =
     ''  '' @ [CHR 0x27, char_of_byte tag, CHR 0x27] @ '' (0x'' @
     [digit_char (unat type div 16), digit_char (unat type mod 16)] @ '') '' @
     pad_right CHR '' '' 30 name @ '' : '' @ pad_left CHR '' '' 12 (dec n) @ ''  ('' @
     pad_left CHR '' '' 5 (dec (k div 100) @ [CHR ''.'', digit_char (k mod 100 div 10), digit_char (k mod 10)]) @
     ''%)'' @ [newline]"

definition hundredths :: "Stats \<Rightarrow> u64 \<Rightarrow> nat" where
  "hundredths s n = nat (round_even (percentage s n * 100))"

lemma two_digits:
  "m < 100 \<Longrightarrow> pad_left CHR ''0'' 2 (dec m) = [digit_char (m div 10), digit_char (m mod 10)]"
  "m < 256 \<Longrightarrow> pad_left CHR ''0'' 2 (digits_in 16 m) = [digit_char (m div 16), digit_char (m mod 16)]"
proof -
  have two: "pad_left CHR ''0'' 2 (digits_in b m) = [digit_char (m div b), digit_char (m mod b)]"
    if "2 \<le> b" "m < b * b" for b m :: nat
  proof (cases "m < b")
    case True
    have "digit_char 0 = CHR ''0''" by code_simp
    with True show ?thesis by (subst digits_in.simps) (simp add: pad_left_def)
  next
    case False
    have "m div b < b" using that by (simp add: less_mult_imp_div_less)
    then have "digits_in b (m div b) = [digit_char (m div b)]" by (subst digits_in.simps) simp
    with False that show ?thesis by (subst digits_in.simps) (simp add: pad_left_def)
  qed
  show "m < 100 \<Longrightarrow> pad_left CHR ''0'' 2 (dec m) = [digit_char (m div 10), digit_char (m mod 10)]"
    by (rule two) simp_all
  show "m < 256 \<Longrightarrow> pad_left CHR ''0'' 2 (digits_in 16 m) = [digit_char (m div 16), digit_char (m mod 16)]"
    by (rule two) simp_all
qed

lemma hd_digits_in: "hd (digits_in 16 n) \<noteq> CHR ''-''"
proof (induction "16 :: nat" n rule: digits_in.induct)
  case (1 n)
  have "\<forall>d\<in>set [0..<16]. digit_char d \<noteq> CHR ''-''" by code_simp
  then have "digit_char d \<noteq> CHR ''-''" if "d < 16" for d using that by simp
  with 1 show ?case by (subst digits_in.simps) (auto simp: hd_append)
qed

lemma percentage_exact:
  assumes "n \<le> total_messages s" "unat (total_messages s) \<le> 2 ^ 46" "0 < total_messages s"
  shows "percentage s n = rnd (100 * of_nat (unat n) / of_nat (unat (total_messages s)))"
proof -
  have "unat n \<le> unat (total_messages s)" using assms(1) by (simp add: word_le_nat_alt)
  then have "100 * unat n \<le> 2 ^ 53" "unat n \<le> 2 ^ 53" "unat (total_messages s) \<le> 2 ^ 53" using assms(2) by simp_all
  then show ?thesis
    using rnd_of_nat [of "100 * unat n"] rnd_of_nat [of "unat n"] rnd_of_nat [of "unat (total_messages s)"] assms(3)
    by (simp add: percentage_def fdiv_def fmul_def double_of_nat_def del: of_nat_unat)
qed

lemma percentage_mono:
  assumes "m \<le> n" "n \<le> total_messages s" "unat (total_messages s) \<le> 2 ^ 46" "0 < total_messages s"
  shows "percentage s m \<le> percentage s n"
proof -
  have "unat m \<le> unat n" using assms(1) by (simp add: word_le_nat_alt)
  then show ?thesis
    unfolding percentage_exact [OF assms(2-4)] percentage_exact [OF order_trans [OF assms(1,2)] assms(3,4)]
    by (intro rnd_mono divide_right_mono) (simp_all del: of_nat_unat)
qed

lemma hundredths_close:
  assumes "n \<le> total_messages s" "unat (total_messages s) \<le> 2 ^ 46" "0 < total_messages s"
  shows "0 \<le> percentage s n" "hundredths s n \<le> 10000"
    "\<bar>of_nat (hundredths s n) / 100 - 100 * of_nat (unat n) / of_nat (unat (total_messages s))\<bar> \<le> (1 / 200 + 1 / 2 ^ 46 :: rat)"
    "fixed 2 (percentage s n) =
       dec (hundredths s n div 100) @ [CHR ''.'', digit_char (hundredths s n mod 100 div 10), digit_char (hundredths s n mod 10)]"
proof -
  let ?T = "unat (total_messages s)"
  have T: "0 < ?T" "unat n \<le> ?T" using assms by (simp_all add: word_less_nat_alt word_le_nat_alt)
  note pct = percentage_exact [OF assms]
  let ?x = "100 * of_nat (unat n) / of_nat ?T :: rat"
  have x: "0 \<le> ?x" "?x \<le> 100" using T by (simp_all add: pos_divide_le_eq del: of_nat_unat)
  have p: "0 \<le> percentage s n" "percentage s n \<le> 100"
    using rnd_nonneg [OF x(1)] rnd_mono [OF x] rnd_of_nat [of 100] by (simp_all add: pct del: of_nat_unat)
  have "\<bar>percentage s n - ?x\<bar> \<le> ?x / 2 ^ 53" unfolding pct by (rule rnd_error [OF x(1)])
  also have "\<dots> \<le> 100 / 2 ^ 53" using x(2) by (rule divide_right_mono) simp
  also have "\<dots> \<le> 1 / 2 ^ 46" by simp
  finally have err: "\<bar>percentage s n - ?x\<bar> \<le> 1 / 2 ^ 46" .
  from fixed_nonneg [OF p(1), of 2] obtain k where k:
    "fixed 2 (percentage s n) = dec (k div 100) @ CHR ''.'' # pad_left CHR ''0'' 2 (dec (k mod 100))"
    "\<bar>of_nat k / 100 - percentage s n\<bar> \<le> 1 / 200" "int k = round_even (percentage s n * 100)" by auto
  have eq: "hundredths s n = k" unfolding hundredths_def k(3) [symmetric] by simp
  have "round_even (percentage s n * 100) \<le> round_even (of_int 10000)" using p(2) by (intro round_even_mono) simp
  with k(3) show "hundredths s n \<le> 10000" unfolding eq by (simp only: round_even_of_int)
  show "\<bar>of_nat (hundredths s n) / 100 - ?x\<bar> \<le> 1 / 200 + 1 / 2 ^ 46" unfolding eq using k(2) err by linarith
  have "k mod 100 mod 10 = k mod 10" by (simp add: mod_mod_cancel)
  then show "fixed 2 (percentage s n) =
      dec (hundredths s n div 100) @ [CHR ''.'', digit_char (hundredths s n mod 100 div 10), digit_char (hundredths s n mod 10)]"
    unfolding eq k(1) using two_digits(1) [of "k mod 100"] by simp
  show "0 \<le> percentage s n" by (rule p)
qed

lemma hundredths_mono:
  assumes "m \<le> n" "n \<le> total_messages s" "unat (total_messages s) \<le> 2 ^ 46" "0 < total_messages s"
  shows "hundredths s m \<le> hundredths s n"
  unfolding hundredths_def by (intro nat_mono round_even_mono mult_right_mono percentage_mono assms) simp

text \<open>The pieces of the format string of a row, as read from it.\<close>

lemma row_pieces:
  "parse_format row_format = Some
     ([Lit CHR '' '', Lit CHR '' '', Lit CHR 0x27, Field plain_spec, Lit CHR 0x27, Lit CHR '' '', Lit CHR ''('', Lit CHR ''0'', Lit CHR ''x'',
       Field (plain_spec\<lparr>fs_zero := True, fs_width := 2, fs_type := Some CHR ''X''\<rparr>), Lit CHR '')'', Lit CHR '' '',
       Field (plain_spec\<lparr>fs_align := Some ALeft, fs_width := 30\<rparr>), Lit CHR '' '', Lit CHR '':'', Lit CHR '' '',
       Field (plain_spec\<lparr>fs_width := 12\<rparr>), Lit CHR '' '', Lit CHR '' '', Lit CHR ''('',
       Field (plain_spec\<lparr>fs_width := 5, fs_prec := Some 2, fs_type := Some CHR ''f''\<rparr>), Lit CHR ''%'', Lit CHR '')''])"
  by code_simp

lemma print_row:
  assumes "n \<le> total_messages s" "unat (total_messages s) \<le> 2 ^ 46" "0 < total_messages s"
  shows "println row_format
      [FChar (char_of_byte tag), FInt (int (unat type)), FStr name, unsigned_arg n, FDouble (percentage s n)] =
    Some (row_text tag type name (unat n) (hundredths s n))"
proof -
  have hex: "digits_in 16 (unat type) \<noteq> [] \<and> hd (digits_in 16 (unat type)) \<noteq> CHR ''-''"
    using hd_digits_in [of "unat type"] by simp
  have "unat type < 256" using unsigned_less [of type, where 'a = nat] by simp
  note two = two_digits(2) [OF this]
  show ?thesis
    unfolding println_def row_pieces row_text_def
    using hundredths_close(1,4) [OF assms] hex two
    by (simp add: plain_spec_def aligned_def number_field_def unsigned_arg_def dec_int_def pad_right_def)
qed

lemma print_rows_text:
  assumes "\<And>tag type name n. (tag, type, name, n) \<in> set rows \<Longrightarrow> n \<le> total_messages s"
    "unat (total_messages s) \<le> 2 ^ 46" "0 < total_messages s"
  shows "print_rows s rows =
    Some (concat (map (\<lambda>(tag, type, name, n). row_text tag type name (unat n) (hundredths s n)) rows))"
  using assms(1)
proof (induction rows)
  case (Cons r rows)
  obtain tag type name n where r: "r = (tag, type, name, n)" by (cases r)
  with Cons.prems [of tag type name n] have "n \<le> total_messages s" by simp
  moreover have "print_rows s rows =
      Some (concat (map (\<lambda>(tag, type, name, n). row_text tag type name (unat n) (hundredths s n)) rows))"
    by (rule Cons.IH) (simp add: Cons.prems [OF list.set_intros(2)])
  ultimately show ?case using print_row [OF _ assms(2,3), of n tag type name] by (simp add: r)
qed simp

text \<open>
  C37. The breakdown that the report prints: under its header, for each message type seen, in the order of
  the counters, a row with the type's tag and code, its name, its exact count and a percentage; then the
  closing rule. The percentage is a number of hundredths between 0.00 and 100.00 within half a hundredth
  plus \<open>2 ^ -46\<close> (the double arithmetic) of the exact share, and a type with more messages does not get
  a smaller one. It holds for up to \<open>2 ^ 46\<close> messages and at least one, with no counter of a type above
  the total, as the parser keeps them.
\<close>

theorem percentages_printed:
  assumes "0 < total_messages s" "unat (total_messages s) \<le> 2 ^ 46" "\<forall>t. per_type s t \<le> total_messages s"
  shows "\<exists>header k. println stats_format (stats_args s) = Some header \<and>
    print_report s = Some (header @
      concat (map (\<lambda>(tag, type, name, n). row_text tag type name (unat n) (k type)) (report_lines s)) @
      replicate 64 CHR ''='' @ [newline]) \<and>
    (\<forall>t. k t \<le> 10000 \<and>
      \<bar>of_nat (k t) / 100 - 100 * of_nat (unat (per_type s t)) / of_nat (unat (total_messages s))\<bar> \<le> (1 / 200 + 1 / 2 ^ 46 :: rat)) \<and>
    (\<forall>t t'. per_type s t \<le> per_type s t' \<longrightarrow> k t \<le> k t')"
proof -
  let ?k = "\<lambda>t. hundredths s (per_type s t)"
  from print_report_total [of s] obtain header where h: "println stats_format (stats_args s) = Some header"
    by (auto simp: print_report_def split: Option.bind_splits)
  have row: "n = per_type s type" if "(tag, type, name, n) \<in> set (report_lines s)" for tag type name n
    using report_lines_row [OF that] by simp
  have rows: "map (\<lambda>(tag, type, name, n). row_text tag type name (unat n) (hundredths s n)) (report_lines s) =
      map (\<lambda>(tag, type, name, n). row_text tag type name (unat n) (?k type)) (report_lines s)"
    by (rule map_cong [OF refl]) (auto dest: row)
  have total: "n \<le> total_messages s" if "(tag, type, name, n) \<in> set (report_lines s)" for tag type name n
    using row [OF that] assms(3) by simp
  have "print_rows s (report_lines s) =
      Some (concat (map (\<lambda>(tag, type, name, n). row_text tag type name (unat n) (?k type)) (report_lines s)))"
    unfolding rows [symmetric] by (rule print_rows_text [OF total assms(2,1)])
  moreover have "println double_rule [] = Some (replicate 64 CHR ''='' @ [newline])" by code_simp
  ultimately have "print_report s = Some (header @
      concat (map (\<lambda>(tag, type, name, n). row_text tag type name (unat n) (?k type)) (report_lines s)) @
      replicate 64 CHR ''='' @ [newline])" using h by (simp add: print_report_def)
  note printed = h this
  have bounds: "?k t \<le> 10000 \<and>
      \<bar>of_nat (?k t) / 100 - 100 * of_nat (unat (per_type s t)) / of_nat (unat (total_messages s))\<bar> \<le> (1 / 200 + 1 / 2 ^ 46 :: rat)" for t
    using hundredths_close(2,3) [OF assms(3) [rule_format] assms(2,1)] by blast
  have mono: "?k t \<le> ?k t'" if "per_type s t \<le> per_type s t'" for t t'
    by (rule hundredths_mono [OF that assms(3) [rule_format] assms(2,1)])
  show ?thesis
    by (rule exI [of _ header], rule exI [of _ ?k]) (intro conjI allI impI printed bounds [THEN conjunct1] bounds [THEN conjunct2] mono)
qed

theorem percentages_printed_witness:
  "\<exists>header k. print_report demo_stats = Some (header @
      concat (map (\<lambda>(tag, type, name, n). row_text tag type name (unat n) (k type)) (report_lines demo_stats)) @
      replicate 64 CHR ''='' @ [newline]) \<and>
    \<bar>of_nat (k 65) / 100 - 75\<bar> \<le> (1 / 200 + 1 / 2 ^ 46 :: rat)"
proof -
  have c: "0 < total_messages demo_stats" "unat (total_messages demo_stats) \<le> 2 ^ 46"
    "\<forall>t. per_type demo_stats t \<le> total_messages demo_stats"
    by (simp_all add: demo_stats_def Stats_init_def)
  from percentages_printed [OF c] obtain header k where "print_report demo_stats = Some (header @
      concat (map (\<lambda>(tag, type, name, n). row_text tag type name (unat n) (k type)) (report_lines demo_stats)) @
      replicate 64 CHR ''='' @ [newline])"
    "\<forall>t. \<bar>of_nat (k t) / 100 - 100 * of_nat (unat (per_type demo_stats t)) / of_nat (unat (total_messages demo_stats))\<bar>
      \<le> (1 / 200 + 1 / 2 ^ 46 :: rat)" by blast
  moreover from this(2) [rule_format, of 65] have "\<bar>of_nat (k 65) / 100 - 75\<bar> \<le> (1 / 200 + 1 / 2 ^ 46 :: rat)"
    by (simp add: demo_stats_def Stats_init_def)
  ultimately show ?thesis by blast
qed

end
