(* ===== verification/Engine_Report.thy ===== *)
theory Engine_Report
  imports Matching_Engine Stats_Report
begin

text \<open>
  The report of the matching engine that \<open>main\<close> and \<open>ITCHProcessor::print_engine_report\<close> print: the
  values in the order of the arguments, the check of the order pool against the live counter, the sample
  of the first ten books with live orders, and the text. The two copies of the code differ in one dash.
\<close>

section \<open>Values\<close>

definition engine_values :: "MatchingEngine \<Rightarrow> u64 list exec" where
  "engine_values e = do {
     let es = me_stats e;
     let op_cap = of_nat (order_pool_capacity e);
     let lp_cap = of_nat (level_pool_capacity e);
     op_free \<leftarrow> order_pool_free e;
     lp_free \<leftarrow> level_pool_free e;
     Some
      [st_instruments_registered es,
       st_add_orders es + st_add_orders_with_mpid es,
       st_add_orders es,
       st_add_orders_with_mpid es,
       st_order_executed es,
       st_order_executed_with_price es,
       st_order_cancel es,
       st_order_delete es,
       st_order_replace es,
       st_non_cross_trades es,
       st_cross_trades es,
       st_broken_trades es,
       st_add_rejected_pool_exhausted es,
       st_add_rejected_level_pool_exhausted es,
       st_replace_rejected_pool_exhausted es,
       st_duplicate_adds es,
       st_locate_mismatches es,
       st_level_missing es,
       st_unknown_order_events es,
       st_pool_exhausted es,
       op_free, op_cap,
       st_peak_live_orders es,
       lp_free, lp_cap,
       st_peak_live_levels es,
       st_live_orders es,
       st_live_levels es,
       order_index_size e, ix_kCapacity,
       of_nat (order_index_overflow e),
       order_index_collisions e] }"

datatype pool_verdict = AccountingBug u64 | Leak u64 | PoolsOk

definition leak_check :: "MatchingEngine \<Rightarrow> pool_verdict exec" where
  "leak_check e = do {
     let live = st_live_orders (me_stats e);
     let op_cap = of_nat (order_pool_capacity e);
     op_free \<leftarrow> order_pool_free e;
     Some (if live \<noteq> 0 \<and> op_free = op_cap then AccountingBug live
           else if live = 0 \<and> op_free < op_cap then Leak (op_cap - op_free)
           else PoolsOk) }"

text \<open>The callback of the top-of-book sample, run on the instruments in the order of the map.\<close>

type_synonym quote = "Price \<times> u64 \<times> Price \<times> u64 \<times> u64"

definition quote_of :: "OrderBook \<Rightarrow> arena \<Rightarrow> quote exec" where
  "quote_of b ar = do {
     bid \<leftarrow> best_bid_price b ar;
     bid_shares \<leftarrow> best_bid_shares b ar;
     ask \<leftarrow> best_ask_price b ar;
     ask_shares \<leftarrow> best_ask_shares b ar;
     Some (bid, bid_shares, ask, ask_shares, live_orders b) }"

definition sample_symbol :: "Instrument \<Rightarrow> byte list" where
  "sample_symbol inst = takeWhile (\<lambda>c. c \<noteq> 0) (take 8 (in_symbol inst) @ [0])"

fun sample_rows :: "arena \<Rightarrow> nat \<Rightarrow> Instrument list \<Rightarrow> (byte list \<times> quote) list exec" where
  "sample_rows ar shown [] = Some []"
| "sample_rows ar shown (inst # rest) =
    (if shown \<ge> 10 then sample_rows ar shown rest
     else (case in_book inst of
         None \<Rightarrow> sample_rows ar shown rest
       | Some b \<Rightarrow>
           if live_orders b = 0 then sample_rows ar shown rest
           else do {
             q \<leftarrow> quote_of b ar;
             rows \<leftarrow> sample_rows ar (shown + 1) rest;
             Some ((sample_symbol inst, q) # rows) }))"

definition top_of_book :: "MatchingEngine \<Rightarrow> (byte list \<times> quote) list exec" where
  "top_of_book e = sample_rows (me_arena e) 0 (im_for_each (me_instruments e))"

section \<open>The text\<close>

definition engine_format :: string where
  "engine_format = text_lines
     [double_rule,
      ''Matching Engine Report'',
      double_rule,
      ''  Instruments registered   : {}'',
      [],
      ''  ---- Accepted events (mutated the book) ----'',
      ''  Add-Order events         : {}  (no MPID: {}, with MPID: {})'',
      ''  Order-Executed events    : {}'',
      ''  Order-Executed w/ Price  : {}'',
      ''  Order-Cancel events      : {}'',
      ''  Order-Delete events      : {}'',
      ''  Order-Replace events     : {}'',
      ''  Non-Cross Trade events   : {}  (informational)'',
      ''  Cross Trade events       : {}  (clears the book)'',
      ''  Broken Trade events      : {}  (informational)'',
      [],
      ''  ---- Rejected events (did NOT mutate the book) ----'',
      ''  Add-Order rejected (order pool exhausted)     : {}'',
      ''  Add-Order rejected (level pool/map exhausted) : {}'',
      ''  Replace rejected (order pool exhausted)       : {}'',
      ''  Duplicate Add (id already live)               : {}'',
      ''  Locate mismatch (E/X/D/U vs home)             : {}'',
      ''  Level missing (order found, level gone)       : {}'',
      ''  Unknown-order events (E/X/D/U on missing id)  : {}'',
      ''  Total pool-exhausted events                   : {}'',
      [],
      ''  ---- Pool lifecycle diagnostics ----'',
      ''  Order pool      : {:10} / {:10} free  (peak live: {})'',
      ''  Level pool      : {:10} / {:10} free  (peak live: {})'',
      ''  Live orders now : {}   (should be ~0 after end-of-day cross)'',
      ''  Live levels now : {}'',
      ''  Order index     : {} live / {} slots  (overflow: {}, collisions: {})'',
      single_rule]"

text \<open>The UTF-8 bytes of the long dash.\<close>

definition em_dash :: string where "em_dash = [CHR 0xE2, CHR 0x80, CHR 0x94]"

definition accounting_format :: "string \<Rightarrow> string" where
  "accounting_format dash = text_lines
     [''  WARNING: live_orders={} but order pool is fully free '' @ dash,
      ''           this indicates an accounting bug in the matching engine.'']"

definition leak_format :: string where
  "leak_format = text_lines
     [''  WARNING: live_orders=0 but order pool has {} slots in use '' @ em_dash,
      ''           this indicates an Order was acquired but never released'',
      ''           (a leak in the matching engine).'']"

fun verdict_text :: "string \<Rightarrow> pool_verdict \<Rightarrow> string exec" where
  "verdict_text dash (AccountingBug live) = println (accounting_format dash) [unsigned_arg live]"
| "verdict_text dash (Leak n) = println leak_format [unsigned_arg n]"
| "verdict_text dash PoolsOk = println ''  Pool lifecycle: OK (live_orders counter matches pool state).'' []"

definition sample_format :: string where
  "sample_format = ''  {:<8}  bid={} x {}   ask={} x {}   live_orders={}''"

fun sample_text :: "(byte list \<times> quote) list \<Rightarrow> string exec" where
  "sample_text [] = Some []"
| "sample_text ((symb, bid, bid_shares, ask, ask_shares, live) # rows) = do {
     line \<leftarrow> println sample_format
       [FStr (map char_of_byte symb), unsigned_arg bid, unsigned_arg bid_shares, unsigned_arg ask, unsigned_arg ask_shares,
        unsigned_arg live];
     rest \<leftarrow> sample_text rows;
     Some (line @ rest) }"

definition report_text :: "string \<Rightarrow> u64 list \<Rightarrow> pool_verdict \<Rightarrow> (byte list \<times> quote) list \<Rightarrow> string exec" where
  "report_text dash vs verdict rows = do {
     header \<leftarrow> println engine_format (map unsigned_arg vs);
     pools \<leftarrow> verdict_text dash verdict;
     rule \<leftarrow> println single_rule [];
     caption \<leftarrow> println ''Top-of-book sample (first 10 instruments with live orders):'' [];
     sample \<leftarrow> sample_text rows;
     last_rule \<leftarrow> println double_rule [];
     Some (header @ pools @ rule @ caption @ sample @ last_rule) }"

definition engine_report_text :: "string \<Rightarrow> MatchingEngine \<Rightarrow> string exec" where
  "engine_report_text dash e = do {
     vs \<leftarrow> engine_values e;
     verdict \<leftarrow> leak_check e;
     rows \<leftarrow> top_of_book e;
     report_text dash vs verdict rows }"

definition print_engine_report :: "MatchingEngine \<Rightarrow> string exec" where
  "print_engine_report e = engine_report_text em_dash e"

section \<open>Every call is well formed, and the numbers can be read back\<close>

lemma engine_pieces:
  "\<exists>ps. parse_format engine_format = Some ps \<and> length (field_specs ps) = 32 \<and> separated ps"
proof -
  let ?p = plain_spec and ?w = "plain_spec\<lparr>fs_width := 10\<rparr>"
  let ?one = "[?p]" and ?pool = "[?w, ?w, ?p]"
  let ?specs = "[[], [], [], ?one, [], [], [?p, ?p, ?p], ?one, ?one, ?one, ?one, ?one, ?one, ?one, ?one, [], [],
    ?one, ?one, ?one, ?one, ?one, ?one, ?one, ?one, [], [], ?pool, ?pool, ?one, ?one, [?p, ?p, ?p, ?p], []]"
  have lit: "line_summary double_rule = Some ([], True)" "line_summary single_rule = Some ([], True)" "line_summary [] = Some ([], True)"
    by code_simp+
  have "\<exists>ps. parse_format engine_format = Some ps \<and> field_specs ps = concat ?specs \<and> separated ps"
    unfolding engine_format_def
    by (intro text_lines_pieces list_all2_Cons [THEN iffD2] conjI list_all2_Nil [THEN iffD2] TrueI lit) code_simp+
  then show ?thesis by fastforce
qed

lemma verdict_fields:
  "map_option field_specs (parse_format (accounting_format ''-'')) = Some [plain_spec]"
  "map_option field_specs (parse_format (accounting_format em_dash)) = Some [plain_spec]"
  "map_option field_specs (parse_format leak_format) = Some [plain_spec]"
  "map_option field_specs (parse_format ''  Pool lifecycle: OK (live_orders counter matches pool state).'') = Some []"
  by code_simp+

lemma sample_fields:
  "map_option field_specs (parse_format sample_format) = Some
     [plain_spec\<lparr>fs_align := Some ALeft, fs_width := 8\<rparr>, plain_spec, plain_spec, plain_spec, plain_spec, plain_spec]"
  by code_simp

lemma caption_fields:
  "map_option field_specs (parse_format ''Top-of-book sample (first 10 instruments with live orders):'') = Some []"
  by code_simp

lemma sample_text_total: "\<exists>t. sample_text rows = Some t"
proof (induction rows)
  case (Cons r rows)
  obtain symb bid bid_shares ask ask_shares live where r: "r = (symb, bid, bid_shares, ask, ask_shares, live)" by (cases r)
  have "\<exists>t. println sample_format [FStr (map char_of_byte symb), unsigned_arg bid, unsigned_arg bid_shares, unsigned_arg ask,
      unsigned_arg ask_shares, unsigned_arg live] = Some t"
    by (rule println_total [OF sample_fields]) (simp add: unsigned_arg_def, simp add: fits_def plain_spec_def)
  with Cons r show ?case by auto
qed simp

lemma verdict_text_total:
  assumes "dash = ''-'' \<or> dash = em_dash"
  shows "\<exists>t. verdict_text dash v = Some t"
  using assms
  by (cases v) (auto intro!: println_total [OF verdict_fields(1)] println_total [OF verdict_fields(2)]
      println_total [OF verdict_fields(3)] println_total [OF verdict_fields(4)] simp: unsigned_arg_def)

lemma report_text_total:
  assumes "dash = ''-'' \<or> dash = em_dash" "length vs = 32"
  shows "\<exists>t ps. report_text dash vs verdict rows = Some t \<and> parse_format engine_format = Some ps \<and>
    scan ps (t @ tail) = Some (map unat vs)"
proof -
  obtain ps where ps: "parse_format engine_format = Some ps" "length (field_specs ps) = 32" "separated ps"
    using engine_pieces by blast
  obtain v where v: "verdict_text dash verdict = Some v" using verdict_text_total [OF assms(1)] by blast
  obtain s where s: "sample_text rows = Some s" using sample_text_total by blast
  obtain r where r: "println single_rule [] = Some r" using println_total [OF rule_fields(2)] by fastforce
  obtain c where c: "println ''Top-of-book sample (first 10 instruments with live orders):'' [] = Some c"
    using println_total [OF caption_fields] by fastforce
  obtain f where f: "println double_rule [] = Some f" using println_total [OF rule_fields(1)] by fastforce
  have args: "map unsigned_arg vs = map nat_arg (map unat vs)" by (simp add: unsigned_arg_def nat_arg_def)
  define rest where "rest = newline # v @ r @ c @ s @ f @ tail"
  have "stops rest" by (simp add: rest_def stops_def newline_def is_digit_def)
  from scan_render [OF ps(3) _ this, of "map unat vs"] assms(2) ps(2) obtain h where
    h: "render ps (map unsigned_arg vs) = Some h" "scan ps (h @ rest) = Some (map unat vs)" unfolding args by auto
  have "report_text dash vs verdict rows = Some ((h @ [newline]) @ v @ r @ c @ s @ f)"
    unfolding report_text_def v s r c f by (simp add: println_def ps(1) h(1))
  moreover have "((h @ [newline]) @ v @ r @ c @ s @ f) @ tail = h @ rest" by (simp add: rest_def)
  ultimately show ?thesis using ps(1) h(2) by metis
qed

end
