(* ===== verification/MMap_File.thy ===== *)
theory MMap_File
  imports Itch_Types Text_Format
begin

text \<open>
  The owner of the mapped input file, \<open>include/MMapFile.hpp\<close> and \<open>src/MMapFile.cpp\<close>, and the part of the
  kernel it talks to. The kernel's answers to \<open>open\<close>, \<open>fstat\<close> and \<open>mmap\<close> and the texts of \<open>strerror\<close> are
  parameters; what is modelled of the kernel is which descriptors are open and which ranges are mapped,
  the text written to the two standard streams, the advice given and the addresses read to fault pages
  in. Closing a descriptor that is not open, unmapping a range that is not mapped and reading an address
  that is not mapped are undefined.
\<close>

section \<open>The kernel\<close>

datatype advice = MADV_SEQUENTIAL | MADV_WILLNEED | MADV_HUGEPAGE

record kernel =
  k_fds :: "int set"
  k_maps :: "(nat \<times> u64) set"
  k_out :: string
  k_err :: string
  k_advice :: "(nat \<times> u64 \<times> advice) list"
  k_reads :: "nat list"

record answers =
  an_open :: int
  an_open_errno :: int
  an_fstat :: "int + bool \<times> int"
  an_mmap :: "int + nat"
  an_strerror :: "int \<Rightarrow> string option"

definition sys_open :: "answers \<Rightarrow> kernel \<Rightarrow> kernel" where
  "sys_open a k = (if an_open a < 0 then k else k\<lparr>k_fds := insert (an_open a) (k_fds k)\<rparr>)"

definition sys_close :: "int \<Rightarrow> kernel \<Rightarrow> kernel exec" where
  "sys_close fd k = (if fd \<in> k_fds k then Some (k\<lparr>k_fds := k_fds k - {fd}\<rparr>) else None)"

definition sys_munmap :: "nat \<Rightarrow> u64 \<Rightarrow> kernel \<Rightarrow> kernel exec" where
  "sys_munmap p n k = (if (p, n) \<in> k_maps k then Some (k\<lparr>k_maps := k_maps k - {(p, n)}\<rparr>) else None)"

definition sys_madvise :: "nat \<Rightarrow> u64 \<Rightarrow> advice \<Rightarrow> kernel \<Rightarrow> kernel" where
  "sys_madvise p n adv k = k\<lparr>k_advice := k_advice k @ [(p, n, adv)]\<rparr>"

definition read_byte :: "nat \<Rightarrow> kernel \<Rightarrow> kernel exec" where
  "read_byte addr k =
     (if \<exists>(p, n) \<in> k_maps k. p \<le> addr \<and> addr < p + unat n then Some (k\<lparr>k_reads := k_reads k @ [addr]\<rparr>) else None)"

definition println_err :: "string \<Rightarrow> fmt_arg list \<Rightarrow> kernel \<Rightarrow> kernel exec" where
  "println_err fmt args k = do { t \<leftarrow> println fmt args; Some (k\<lparr>k_err := k_err k @ t\<rparr>) }"

definition println_out :: "string \<Rightarrow> fmt_arg list \<Rightarrow> kernel \<Rightarrow> kernel exec" where
  "println_out fmt args k = do { t \<leftarrow> println fmt args; Some (k\<lparr>k_out := k_out k @ t\<rparr>) }"

section \<open>The class\<close>

record MMapFile =
  mf_data :: ptr
  mf_size :: u64
  mf_fd :: int

definition MMapFile_init :: MMapFile where
  "MMapFile_init = \<lparr>mf_data = None, mf_size = 0, mf_fd = - 1\<rparr>"

definition EINVAL :: int where "EINVAL = 22"

definition log_syserr :: "answers \<Rightarrow> string \<Rightarrow> int \<Rightarrow> kernel \<Rightarrow> kernel exec" where
  "log_syserr a what err =
     println_err ''[MMapFile] {} failed: {} (errno={})''
       [FStr what, FStr (case an_strerror a err of Some msg \<Rightarrow> msg | None \<Rightarrow> ''?''), FInt err]"

definition open_into :: "string \<Rightarrow> answers \<Rightarrow> MMapFile \<Rightarrow> kernel \<Rightarrow> (int \<times> MMapFile \<times> kernel) exec" where
  "open_into path a f k =
     (let fd = an_open a; k = sys_open a k; f = f\<lparr>mf_fd := fd\<rparr>
      in if fd < 0 then do { k \<leftarrow> log_syserr a ''open'' (an_open_errno a) k; Some (an_open_errno a, f, k) }
         else (case an_fstat a of
             Inl e \<Rightarrow> do {
               k \<leftarrow> log_syserr a ''fstat'' e k;
               k \<leftarrow> sys_close fd k;
               Some (e, f\<lparr>mf_fd := - 1\<rparr>, k) }
           | Inr (regular, st_size) \<Rightarrow>
               if \<not> regular then do {
                 k \<leftarrow> println_err ''[MMapFile] not a regular file: {}'' [FStr path] k;
                 k \<leftarrow> sys_close fd k;
                 Some (EINVAL, f\<lparr>mf_fd := - 1\<rparr>, k) }
               else if st_size \<le> 0 then do {
                 k \<leftarrow> println_err ''[MMapFile] empty file: {}'' [FStr path] k;
                 k \<leftarrow> sys_close fd k;
                 Some (EINVAL, f\<lparr>mf_fd := - 1\<rparr>, k) }
               else let f = f\<lparr>mf_size := of_int st_size\<rparr> in (case an_mmap a of
                   Inl e \<Rightarrow> do {
                     k \<leftarrow> log_syserr a ''mmap'' e k;
                     k \<leftarrow> sys_close fd k;
                     Some (e, f\<lparr>mf_fd := - 1\<rparr>, k) }
                 | Inr p \<Rightarrow> Some (0, f\<lparr>mf_data := Some p\<rparr>, k\<lparr>k_maps := insert (p, mf_size f) (k_maps k)\<rparr>))))"

definition release_file :: "MMapFile \<Rightarrow> kernel \<Rightarrow> (MMapFile \<times> kernel) exec" where
  "release_file f k = do {
     (f, k) \<leftarrow> (case mf_data f of
         None \<Rightarrow> Some (f, k)
       | Some p \<Rightarrow> do { k \<leftarrow> sys_munmap p (mf_size f) k; Some (f\<lparr>mf_data := None\<rparr>, k) });
     (f, k) \<leftarrow> (if mf_fd f \<ge> 0 then do { k \<leftarrow> sys_close (mf_fd f) k; Some (f\<lparr>mf_fd := - 1\<rparr>, k) } else Some (f, k));
     Some (f\<lparr>mf_size := 0\<rparr>, k) }"

text \<open>The legacy constructor ignores the error code; the destructor releases.\<close>

definition construct_file :: "string \<Rightarrow> answers \<Rightarrow> kernel \<Rightarrow> (MMapFile \<times> kernel) exec" where
  "construct_file path a k = do { (ec, f, k) \<leftarrow> open_into path a MMapFile_init k; Some (f, k) }"

definition destroy_file :: "MMapFile \<Rightarrow> kernel \<Rightarrow> kernel exec" where
  "destroy_file f k = do { (f, k) \<leftarrow> release_file f k; Some k }"

definition move_construct :: "MMapFile \<Rightarrow> MMapFile \<times> MMapFile" where
  "move_construct other =
     (\<lparr>mf_data = mf_data other, mf_size = mf_size other, mf_fd = mf_fd other\<rparr>,
      other\<lparr>mf_data := None, mf_size := 0, mf_fd := - 1\<rparr>)"

text \<open>The move assignment; the first argument says whether the two objects are the same one.\<close>

definition move_assign :: "bool \<Rightarrow> MMapFile \<Rightarrow> MMapFile \<Rightarrow> kernel \<Rightarrow> (MMapFile \<times> MMapFile \<times> kernel) exec" where
  "move_assign same f other k =
     (if same then Some (f, other, k)
      else do {
        (f, k) \<leftarrow> release_file f k;
        Some (f\<lparr>mf_data := mf_data other, mf_size := mf_size other, mf_fd := mf_fd other\<rparr>,
          other\<lparr>mf_data := None, mf_size := 0, mf_fd := - 1\<rparr>, k) })"

definition valid_file :: "MMapFile \<Rightarrow> bool" where
  "valid_file f \<longleftrightarrow> mf_data f \<noteq> None"

definition file_span :: "MMapFile \<Rightarrow> ptr \<times> u64" where
  "file_span f = (mf_data f, mf_size f)"

text \<open>The factory: on success the local object is moved into the result and destroyed.\<close>

definition open_file :: "string \<Rightarrow> answers \<Rightarrow> kernel \<Rightarrow> ((int + MMapFile) \<times> kernel) exec" where
  "open_file path a k = do {
     (ec, m, k) \<leftarrow> open_into path a MMapFile_init k;
     if ec \<noteq> 0 then do { k \<leftarrow> destroy_file m k; Some (Inl ec, k) }
     else do {
       let (result, m) = move_construct m;
       k \<leftarrow> destroy_file m k;
       Some (Inr result, k) } }"

text \<open>The hints; the parameter says whether the platform has huge pages.\<close>

definition advise_sequential :: "bool \<Rightarrow> MMapFile \<Rightarrow> kernel \<Rightarrow> kernel" where
  "advise_sequential hugepages f k =
     (case mf_data f of
        None \<Rightarrow> k
      | Some p \<Rightarrow>
          let k = sys_madvise p (mf_size f) MADV_SEQUENTIAL k;
              k = sys_madvise p (mf_size f) MADV_WILLNEED k
          in if hugepages then sys_madvise p (mf_size f) MADV_HUGEPAGE k else k)"

text \<open>The loop of \<open>prefault\<close>, on the offset and the count; both wrap.\<close>

definition kPage :: u64 where "kPage = 4096"

partial_function (option) prefault_from :: "nat \<Rightarrow> u64 \<Rightarrow> u64 \<Rightarrow> u64 \<Rightarrow> kernel \<Rightarrow> (u64 \<times> kernel) exec" where
  "prefault_from p len off touched k =
     (if off < len then do {
        k \<leftarrow> read_byte (p + unat off) k;
        prefault_from p len (off + kPage) (touched + kPage) k }
      else Some (touched, k))"

definition prefault :: "MMapFile \<Rightarrow> kernel \<Rightarrow> (u64 \<times> kernel) exec" where
  "prefault f k = (case mf_data f of None \<Rightarrow> Some (0, k) | Some p \<Rightarrow> prefault_from p (mf_size f) 0 0 k)"

end
