(* ===== verification/Logger.thy ===== *)
theory Logger
  imports Itch_Types
begin

text \<open>
  The asynchronous logger of \<open>include/Logger.hpp\<close>: a ring of entries between one producer, the
  caller of \<open>log\<close>, and one consumer, the drain thread. The operations on the data are functions; the
  two threads are a step relation whose steps are the atomic accesses to the shared counters and the
  accesses to one ring slot, in every interleaving and with every value that the memory orders of the
  accesses let a load return.
\<close>

section \<open>Entries\<close>

datatype LogLevel = Trace | Debug | Info | Warn | Error | Fatal

definition level_num :: "LogLevel \<Rightarrow> u8" where
  "level_num l = (case l of Trace \<Rightarrow> 0 | Debug \<Rightarrow> 1 | Info \<Rightarrow> 2 | Warn \<Rightarrow> 3 | Error \<Rightarrow> 4 | Fatal \<Rightarrow> 5)"

text \<open>The levels are ordered by their numbers, as the comparison in \<open>log\<close> orders them.\<close>

instantiation LogLevel :: linorder
begin

definition less_eq_LogLevel :: "LogLevel \<Rightarrow> LogLevel \<Rightarrow> bool" where
  "less_eq_LogLevel l m \<longleftrightarrow> level_num l \<le> level_num m"

definition less_LogLevel :: "LogLevel \<Rightarrow> LogLevel \<Rightarrow> bool" where
  "less_LogLevel l m \<longleftrightarrow> level_num l < level_num m"

instance
proof
  fix l m n :: LogLevel
  show "l \<le> m \<Longrightarrow> m \<le> l \<Longrightarrow> l = m"
    by (cases l; cases m) (simp_all add: less_eq_LogLevel_def level_num_def word_le_nat_alt)
qed (auto simp: less_eq_LogLevel_def less_LogLevel_def)

end

record LogEntry =
  le_timestamp_ns :: u64
  le_level :: LogLevel
  le_tag :: "byte list"
  le_message :: "byte list"

definition sizeof_LogEntry :: nat where
  "sizeof_LogEntry = struct_size 64 [(8, 8), (1, 1), (7, 1), (240, 1)]"

text \<open>An entry of a ring that was just allocated: all bytes are zero.\<close>

definition LogEntry_zero :: LogEntry where
  "LogEntry_zero = \<lparr>le_timestamp_ns = 0, le_level = Trace, le_tag = replicate 7 0, le_message = replicate 240 0\<rparr>"

definition copy_tag :: "byte list \<Rightarrow> byte list" where
  "copy_tag src =
     (let kCopy = (if length src - 1 < 6 then length src - 1 else 6)
      in take kCopy src @ replicate (7 - kCopy) 0)"

definition copy_msg :: "byte list \<Rightarrow> byte list \<Rightarrow> byte list" where
  "copy_msg dst src =
     (let n = (if length src < 239 then length src else 239)
      in take n src @ [0] @ drop (n + 1) dst)"

definition fill_entry :: "u64 \<Rightarrow> LogLevel \<Rightarrow> byte list \<Rightarrow> byte list \<Rightarrow> LogEntry \<Rightarrow> LogEntry" where
  "fill_entry now level tag msg e =
     e\<lparr>le_timestamp_ns := now, le_level := level, le_tag := copy_tag tag, le_message := copy_msg (le_message e) msg\<rparr>"

definition level_to_str :: "LogLevel \<Rightarrow> byte list" where
  "level_to_str l = map ascii (case l of Trace \<Rightarrow> ''TRACE'' | Debug \<Rightarrow> ''DEBUG'' | Info \<Rightarrow> ''INFO ''
     | Warn \<Rightarrow> ''WARN '' | Error \<Rightarrow> ''ERROR'' | Fatal \<Rightarrow> ''FATAL'')"

text \<open>
  \<open>snprintf\<close> with the format of the drain loop: twenty decimal digits, the level, at most six bytes
  of the tag up to its NUL, and the message up to its NUL. It stores at most 255 bytes of the line and
  a NUL, and returns the length of the whole line; the loop advances by that length, at most by 256.
\<close>

definition c_str :: "nat \<Rightarrow> byte list \<Rightarrow> byte list" where
  "c_str prec bs = takeWhile (\<lambda>b. b \<noteq> 0) (take prec bs)"

definition digits20 :: "u64 \<Rightarrow> byte list" where
  "digits20 t = map (\<lambda>i. of_nat (48 + unat t div 10 ^ i mod 10)) (rev [0..<20])"

definition entry_line :: "LogEntry \<Rightarrow> byte list" where
  "entry_line e = digits20 (le_timestamp_ns e) @ map ascii '' '' @ level_to_str (le_level e) @ map ascii '' ['' @
     c_str 6 (le_tag e) @ map ascii ''] '' @ c_str 240 (le_message e) @ [10]"

definition entry_bytes :: "LogEntry \<Rightarrow> byte list" where
  "entry_bytes e =
     (let line = entry_line e;
          n = length line;
          stored = take 255 line @ [0]
      in if n \<le> 0 then [] else take (if n > 256 then 256 else n) stored)"

section \<open>The state\<close>

record logger =
  lg_capacity :: u64
  lg_mask :: u64
  lg_fd :: int
  lg_ring :: "LogEntry list"
  lg_head :: u64
  lg_tail :: u64
  lg_dropped :: u64
  lg_min_level :: u8
  lg_running :: bool

definition logger_init :: "u64 \<Rightarrow> logger option" where
  "logger_init capacity =
     (if capacity = 0 \<or> capacity AND (capacity - 1) \<noteq> 0 then None
      else Some \<lparr>lg_capacity = capacity, lg_mask = capacity - 1, lg_fd = - 1,
        lg_ring = replicate (unat capacity) LogEntry_zero, lg_head = 0, lg_tail = 0, lg_dropped = 0,
        lg_min_level = level_num Info, lg_running = False\<rparr>)"

definition lg_slot :: "logger \<Rightarrow> u64 \<Rightarrow> nat" where
  "lg_slot L i = unat (i AND lg_mask L)"

definition kBatch :: nat where "kBatch = 64"

text \<open>What \<open>write\<close> answers: the bytes it took, an interruption, or another error.\<close>

datatype write_result = Wrote nat | Interrupted | Failed

fun write_loop :: "write_result list \<Rightarrow> byte list \<Rightarrow> byte list" where
  "write_loop [] data = []"
| "write_loop (Wrote n # rs) data = (if data = [] then [] else take n data @ write_loop rs (drop n data))"
| "write_loop (Interrupted # rs) data = (if data = [] then [] else write_loop rs data)"
| "write_loop (Failed # rs) data = []"

definition write_batch :: "int \<Rightarrow> write_result list \<Rightarrow> byte list \<Rightarrow> byte list" where
  "write_batch fd rs data = (if data = [] \<or> fd < 0 then [] else write_loop rs data)"

section \<open>The two threads\<close>

text \<open>
  The producer is idle, has found room at position \<open>h\<close> and is about to fill the slot, or has filled
  it and is about to publish it. The consumer has no thread yet, is about to test \<open>running_\<close>, about to
  load the counters, formats entry \<open>i\<close> of a batch, or is about to store the tail; the flag tells the
  second loop, after \<open>stop\<close>, from the first.
\<close>

datatype producer =
    PIdle
  | PFill u64 u64 LogLevel "byte list" "byte list"
  | PPublish u64 LogEntry

datatype consumer =
    CNone
  | CTop
  | CLoad bool
  | CFormat bool u64 nat nat "byte list"
  | CStore bool u64 nat
  | CDone

text \<open>
  A load of an atomic need not return the value stored last. It returns that one or an older one, but
  none older than what the same thread has loaded before. For each atomic that one thread stores and
  another loads, the state has the values the loading thread can still get, oldest first: the heads and
  the flag \<open>running_\<close> for the drain thread, the tails and the level for the producer. A load that
  acquires what a release store has written also sees what was stored before it; with each value of the
  flag there is therefore the number of entries published before its store.

  The file is what \<open>write\<close> took. The last five components are history: the entries published so far,
  how many of them the consumer has taken, the number taken when the file was opened, the number of
  calls dropped, and whether a write was incomplete.
\<close>

record log_system =
  ls_log :: logger
  ls_prod :: producer
  ls_cons :: consumer
  ls_heads :: "u64 list"
  ls_tails :: "u64 list"
  ls_levels :: "u8 list"
  ls_flags :: "(bool \<times> nat) list"
  ls_file :: "byte list"
  ls_published :: "LogEntry list"
  ls_taken :: nat
  ls_base :: nat
  ls_lost :: nat
  ls_failed :: bool

definition log_system_init :: "logger \<Rightarrow> log_system" where
  "log_system_init L = \<lparr>ls_log = L, ls_prod = PIdle, ls_cons = CNone, ls_heads = [lg_head L],
     ls_tails = [lg_tail L], ls_levels = [lg_min_level L], ls_flags = [(lg_running L, 0)], ls_file = [], ls_published = [],
     ls_taken = 0, ls_base = 0, ls_lost = 0, ls_failed = False\<rparr>"

definition on_log :: "(logger \<Rightarrow> logger) \<Rightarrow> log_system \<Rightarrow> log_system" where
  "on_log f s = s\<lparr>ls_log := f (ls_log s)\<rparr>"

text \<open>\<open>log\<close>: the loads of the level and of the tail, each by the position of the value it returns, and the tests;
the store into the slot; the publication.\<close>

definition log_call :: "nat \<Rightarrow> nat \<Rightarrow> u64 \<Rightarrow> LogLevel \<Rightarrow> byte list \<Rightarrow> byte list \<Rightarrow> log_system \<Rightarrow> log_system" where
  "log_call i j now level tag msg s =
     (let L = ls_log s; min_level = ls_levels s ! i; s = s\<lparr>ls_levels := drop i (ls_levels s)\<rparr> in
      if level_num level < min_level then s
      else let h = lg_head L; t = ls_tails s ! j; s = s\<lparr>ls_tails := drop j (ls_tails s)\<rparr> in
      if h - t \<ge> lg_capacity L
      then on_log (\<lambda>L. L\<lparr>lg_dropped := lg_dropped L + 1\<rparr>) (s\<lparr>ls_lost := ls_lost s + 1\<rparr>)
      else s\<lparr>ls_prod := PFill h now level tag msg\<rparr>)"

definition log_fill :: "u64 \<Rightarrow> u64 \<Rightarrow> LogLevel \<Rightarrow> byte list \<Rightarrow> byte list \<Rightarrow> log_system \<Rightarrow> log_system" where
  "log_fill h now level tag msg s =
     (let L = ls_log s; i = lg_slot L h; e = fill_entry now level tag msg (lg_ring L ! i)
      in s\<lparr>ls_log := L\<lparr>lg_ring := (lg_ring L)[i := e]\<rparr>, ls_prod := PPublish h e\<rparr>)"

definition log_publish :: "u64 \<Rightarrow> LogEntry \<Rightarrow> log_system \<Rightarrow> log_system" where
  "log_publish h e s = on_log (\<lambda>L. L\<lparr>lg_head := h + 1\<rparr>)
     (s\<lparr>ls_prod := PIdle, ls_published := ls_published s @ [e], ls_heads := ls_heads s @ [h + 1]\<rparr>)"

definition set_min_level :: "LogLevel \<Rightarrow> log_system \<Rightarrow> log_system" where
  "set_min_level l s = on_log (\<lambda>L. L\<lparr>lg_min_level := level_num l\<rparr>) (s\<lparr>ls_levels := ls_levels s @ [level_num l]\<rparr>)"

definition log_info :: "nat \<Rightarrow> nat \<Rightarrow> u64 \<Rightarrow> byte list \<Rightarrow> byte list \<Rightarrow> log_system \<Rightarrow> log_system" where
  "log_info i j now tag msg = log_call i j now Info tag msg"
definition log_warn :: "nat \<Rightarrow> nat \<Rightarrow> u64 \<Rightarrow> byte list \<Rightarrow> byte list \<Rightarrow> log_system \<Rightarrow> log_system" where
  "log_warn i j now tag msg = log_call i j now Warn tag msg"
definition log_error :: "nat \<Rightarrow> nat \<Rightarrow> u64 \<Rightarrow> byte list \<Rightarrow> byte list \<Rightarrow> log_system \<Rightarrow> log_system" where
  "log_error i j now tag msg = log_call i j now Error tag msg"
definition log_debug :: "nat \<Rightarrow> nat \<Rightarrow> u64 \<Rightarrow> byte list \<Rightarrow> byte list \<Rightarrow> log_system \<Rightarrow> log_system" where
  "log_debug i j now tag msg = log_call i j now Debug tag msg"

definition lg_dropped_count :: "logger \<Rightarrow> u64" where "lg_dropped_count L = lg_dropped L"
definition lg_produced :: "logger \<Rightarrow> u64" where "lg_produced L = lg_head L"
definition lg_flushed :: "logger \<Rightarrow> u64" where "lg_flushed L = lg_tail L"

text \<open>\<open>start\<close>, with the answer of \<open>open\<close>, which truncates the file; \<open>stop\<close>, by a thread that comes after the
first \<open>k\<close> publications, all of them if it is the one that logs; its join and close.\<close>

definition log_start :: "int \<Rightarrow> log_system \<Rightarrow> log_system" where
  "log_start fd s =
     (if lg_running (ls_log s) then s
      else if fd < 0 then on_log (\<lambda>L. L\<lparr>lg_fd := fd\<rparr>) s
      else on_log (\<lambda>L. L\<lparr>lg_fd := fd, lg_running := True\<rparr>)
        (s\<lparr>ls_cons := CTop, ls_flags := [(True, 0)], ls_file := [], ls_base := ls_taken s, ls_failed := False\<rparr>))"

definition log_stop :: "nat \<Rightarrow> log_system \<Rightarrow> log_system" where
  "log_stop k s = on_log (\<lambda>L. L\<lparr>lg_running := False\<rparr>) (s\<lparr>ls_flags := ls_flags s @ [(False, k)]\<rparr>)"

definition log_join :: "log_system \<Rightarrow> log_system" where
  "log_join s = on_log (\<lambda>L. if lg_fd L \<ge> 0 then L\<lparr>lg_fd := - 1\<rparr> else L) (s\<lparr>ls_cons := CNone\<rparr>)"

text \<open>The drain loop. The loads of \<open>running_\<close> and of the head go by the position of the value they return; with a
value of the flag the thread sees the publications before its store.\<close>

definition see_heads :: "nat \<Rightarrow> log_system \<Rightarrow> u64 list" where
  "see_heads k s = drop (length (ls_heads s) - Suc (length (ls_published s) - k)) (ls_heads s)"

definition drain_test :: "nat \<Rightarrow> log_system \<Rightarrow> log_system" where
  "drain_test j s =
     (case ls_flags s ! j of (running, k) \<Rightarrow>
        s\<lparr>ls_cons := CLoad (\<not> running), ls_flags := drop j (ls_flags s), ls_heads := see_heads k s\<rparr>)"

definition drain_load :: "nat \<Rightarrow> bool \<Rightarrow> log_system \<Rightarrow> log_system" where
  "drain_load j stopping s =
     (let h = ls_heads s ! j; t = lg_tail (ls_log s)
      in s\<lparr>ls_heads := drop j (ls_heads s), ls_cons :=
          if t = h then (if stopping then CDone else CTop)
          else CFormat stopping t (min kBatch (unat (h - t))) 0 []\<rparr>)"

definition drain_format :: "bool \<Rightarrow> u64 \<Rightarrow> nat \<Rightarrow> nat \<Rightarrow> byte list \<Rightarrow> log_system \<Rightarrow> log_system" where
  "drain_format stopping t count i out s =
     (let e = lg_ring (ls_log s) ! lg_slot (ls_log s) (t + of_nat i)
      in s\<lparr>ls_cons := CFormat stopping t count (i + 1) (out @ entry_bytes e)\<rparr>)"

definition drain_write :: "write_result list \<Rightarrow> bool \<Rightarrow> u64 \<Rightarrow> nat \<Rightarrow> byte list \<Rightarrow> log_system \<Rightarrow> log_system" where
  "drain_write rs stopping t count out s =
     (let taken = write_batch (lg_fd (ls_log s)) rs out
      in s\<lparr>ls_cons := CStore stopping t count, ls_file := ls_file s @ taken,
          ls_failed := (ls_failed s \<or> taken \<noteq> out)\<rparr>)"

definition drain_store :: "bool \<Rightarrow> u64 \<Rightarrow> nat \<Rightarrow> log_system \<Rightarrow> log_system" where
  "drain_store stopping t count s = on_log (\<lambda>L. L\<lparr>lg_tail := t + of_nat count\<rparr>)
     (s\<lparr>ls_cons := (if stopping then CLoad True else CTop), ls_taken := ls_taken s + count,
       ls_tails := ls_tails s @ [t + of_nat count]\<rparr>)"

section \<open>Interleavings\<close>

inductive drain_step :: "log_system \<Rightarrow> log_system \<Rightarrow> bool" where
  test: "ls_cons s = CTop \<Longrightarrow> j < length (ls_flags s) \<Longrightarrow> drain_step s (drain_test j s)"
| load: "ls_cons s = CLoad stopping \<Longrightarrow> j < length (ls_heads s) \<Longrightarrow> drain_step s (drain_load j stopping s)"
| format: "ls_cons s = CFormat stopping t count i out \<Longrightarrow> i < count \<Longrightarrow> drain_step s (drain_format stopping t count i out s)"
| write_out: "ls_cons s = CFormat stopping t count count out \<Longrightarrow> drain_step s (drain_write rs stopping t count out s)"
| store: "ls_cons s = CStore stopping t count \<Longrightarrow> drain_step s (drain_store stopping t count s)"

inductive log_step :: "log_system \<Rightarrow> log_system \<Rightarrow> bool" where
  call: "ls_prod s = PIdle \<Longrightarrow> tag \<noteq> [] \<Longrightarrow> i < length (ls_levels s) \<Longrightarrow> j < length (ls_tails s) \<Longrightarrow>
     log_step s (log_call i j now level tag msg s)"
| fill: "ls_prod s = PFill h now level tag msg \<Longrightarrow> log_step s (log_fill h now level tag msg s)"
| publish: "ls_prod s = PPublish h e \<Longrightarrow> log_step s (log_publish h e s)"
| level: "log_step s (set_min_level l s)"
| start: "ls_cons s = CNone \<Longrightarrow> log_step s (log_start fd s)"
| stop: "lg_running (ls_log s) \<Longrightarrow> k \<le> length (ls_published s) \<Longrightarrow> log_step s (log_stop k s)"
| join: "ls_cons s = CDone \<Longrightarrow> log_step s (log_join s)"
| drain: "drain_step s s' \<Longrightarrow> log_step s s'"

inductive_cases drain_stepE: "drain_step s s'"
inductive_cases log_stepE: "log_step s s'"

text \<open>A call of \<open>log\<close> that loads the level set last is ignored exactly below it, with a full ring or not.\<close>

lemma log_call_ignored_iff:
  assumes "ls_prod s = PIdle"
  shows "log_call (length (ls_levels s)) j now level tag msg (set_min_level m s) =
      set_min_level m s\<lparr>ls_levels := [level_num m]\<rparr> \<longleftrightarrow> level < m"
  using assms
  by (auto simp: log_call_def set_min_level_def on_log_def less_LogLevel_def Let_def
      dest: arg_cong [of _ _ ls_lost] arg_cong [of _ _ ls_prod])

text \<open>The size of an entry, asserted in the code; the bytes of a line and the scratch buffer are cut to it.\<close>

lemma sizeof_LogEntry: "sizeof_LogEntry = 256" "length (entry_bytes e) \<le> sizeof_LogEntry"
proof -
  show "sizeof_LogEntry = 256" by code_simp
  then show "length (entry_bytes e) \<le> sizeof_LogEntry" by (simp add: entry_bytes_def Let_def)
qed

definition log_reachable :: "u64 \<Rightarrow> log_system \<Rightarrow> bool" where
  "log_reachable capacity s \<longleftrightarrow> (\<exists>L. logger_init capacity = Some L \<and> log_step\<^sup>*\<^sup>* (log_system_init L) s)"

end
