(* ===== verification/Driver.thy ===== *)
theory Driver
  imports Parser Engine_Report MMap_File Logger "HOL-Library.Sublist"
begin

text \<open>
  The program around the parser: \<open>src/main.cpp\<close> and \<open>include/ITCHProcessor.hpp\<close>. The command line, the
  diagnostics, and the two drivers, whole: they open, map and release the input, start and stop the
  logger, parse, and write the two reports. A run is a function from the arguments, the answers of the
  environment and the kernel's state to the exit code and the state after the exit.
\<close>

section \<open>The command line\<close>

definition is_space :: "char \<Rightarrow> bool" where
  "is_space c \<longleftrightarrow> c \<in> {CHR '' '', CHR 0x09, CHR 0x0A, CHR 0x0B, CHR 0x0C, CHR 0x0D}"

text \<open>\<open>strtoull\<close> in base ten: the value, the rest of the string after it, and whether it was out of
range. The rest is the whole string when there is no number; a minus sign negates modulo \<open>2 ^ 64\<close>.\<close>

definition strtoull :: "string \<Rightarrow> u64 \<times> string \<times> bool" where
  "strtoull s =
     (let s1 = dropWhile is_space s;
          neg = (s1 \<noteq> [] \<and> hd s1 = CHR ''-'');
          s2 = (if s1 \<noteq> [] \<and> (hd s1 = CHR ''-'' \<or> hd s1 = CHR ''+'') then tl s1 else s1);
          ds = takeWhile is_digit s2;
          v = digits_value ds
      in if ds = [] then (0, s, False)
         else if v \<ge> 2 ^ 64 then (- 1, dropWhile is_digit s2, True)
         else (if neg then - of_nat v else of_nat v, dropWhile is_digit s2, False))"

definition parse_size :: "string \<Rightarrow> u64 option" where
  "parse_size s =
     (case strtoull s of (v, rest, erange) \<Rightarrow>
        if erange \<or> rest = s \<or> rest \<noteq> [] \<or> v = 0 then None else Some v)"

definition is_pow2 :: "u64 \<Rightarrow> bool" where
  "is_pow2 n \<longleftrightarrow> n > 0 \<and> n AND (n - 1) = 0"

definition EXIT_SUCCESS :: int where "EXIT_SUCCESS = 0"
definition EXIT_FAILURE :: int where "EXIT_FAILURE = 1"

text \<open>The status of a process that an uncaught exception aborts, as a shell reports it.\<close>

definition ABORTED :: int where "ABORTED = 134"

record config =
  cf_path :: string
  cf_log_path :: string
  cf_order_pool_size :: u64
  cf_level_pool_size :: u64

definition default_config :: config where
  "default_config = \<lparr>cf_path = [], cf_log_path = ''itch.log'',
     cf_order_pool_size = of_nat kOrderPoolSize, cf_level_pool_size = of_nat kPriceLevelPoolSize\<rparr>"

text \<open>The loop over the arguments after the program name; \<open>Inl\<close> is a return from inside it.\<close>

datatype args_stop = Help | BadOrderPool | BadLevelPool | UnknownOption string

fun parse_args :: "config \<Rightarrow> string list \<Rightarrow> args_stop + config" where
  "parse_args c [] = Inr c"
| "parse_args c (arg # rest) =
    (if arg = ''-h'' \<or> arg = ''--help'' then Inl Help
     else if arg = ''--order-pool-size'' \<and> rest \<noteq> [] then
       (case parse_size (hd rest) of
          None \<Rightarrow> Inl BadOrderPool
        | Some n \<Rightarrow> if \<not> is_pow2 n then Inl BadOrderPool
                    else parse_args (c\<lparr>cf_order_pool_size := n\<rparr>) (tl rest))
     else if arg = ''--level-pool-size'' \<and> rest \<noteq> [] then
       (case parse_size (hd rest) of
          None \<Rightarrow> Inl BadLevelPool
        | Some n \<Rightarrow> if \<not> is_pow2 n then Inl BadLevelPool
                    else parse_args (c\<lparr>cf_level_pool_size := n\<rparr>) (tl rest))
     else if arg = ''--log-path'' \<and> rest \<noteq> [] then parse_args (c\<lparr>cf_log_path := hd rest\<rparr>) (tl rest)
     else if length arg \<ge> 2 \<and> arg ! 0 = CHR ''-'' \<and> arg ! 1 = CHR ''-'' then Inl (UnknownOption arg)
     else parse_args (c\<lparr>cf_path := arg\<rparr>) rest)"

section \<open>What the process talks to\<close>

text \<open>
  The answers of the kernel to the opens of the input and of the log file, by path; the bytes of a
  mapping; the message of an error code; whether a block of a pool can be allocated, by its size; the readings of the clock before and after the parse; the byte
  order of the host and whether it has huge pages.
\<close>

record environment =
  ev_program :: string
  ev_open :: "string \<Rightarrow> answers"
  ev_contents :: "nat \<Rightarrow> u64 \<Rightarrow> byte list"
  ev_log :: "string \<Rightarrow> answers"
  ev_message :: "int \<Rightarrow> string"
  ev_alloc :: "u64 \<Rightarrow> bool"
  ev_started :: time_point
  ev_finished :: time_point
  ev_little_endian :: bool
  ev_hugepages :: bool

definition print_out :: "string exec \<Rightarrow> kernel \<Rightarrow> kernel exec" where
  "print_out text k = do { t \<leftarrow> text; Some (k\<lparr>k_out := k_out k @ t\<rparr>) }"

text \<open>
  \<open>start\<close> and \<open>stop\<close> of the logger with their system calls. Nothing in the program logs an entry, so
  the drain thread has nothing to write between the two; \<open>stop\<close> joins it.
\<close>

definition kLogCapacity :: u64 where "kLogCapacity = 65536"

definition logger_start :: "string \<Rightarrow> answers \<Rightarrow> log_system \<Rightarrow> kernel \<Rightarrow> log_system \<times> kernel" where
  "logger_start path a ls k =
     (if lg_running (ls_log ls) then (ls, k)
      else let fd = an_open a; k = sys_open a k
           in (log_start fd ls,
               if fd < 0
               then k\<lparr>k_err := k_err k @ ''[Logger] open('' @ path @ '') failed: '' @
                 (case an_strerror a (an_open_errno a) of Some msg \<Rightarrow> msg | None \<Rightarrow> ''(null)'') @ [newline]\<rparr>
               else k))"

definition logger_stop :: "log_system \<Rightarrow> kernel \<Rightarrow> (log_system \<times> kernel) exec" where
  "logger_stop ls k =
     (if \<not> lg_running (ls_log ls) then Some (ls, k)
      else do {
        k \<leftarrow> (if lg_fd (ls_log ls) \<ge> 0 then sys_close (lg_fd (ls_log ls)) k else Some k);
        Some (log_join (log_stop (length (ls_published ls)) ls), k) })"

section \<open>Diagnostics\<close>

definition usage_format :: string where
  "usage_format = text_lines
     [''Usage: {} [options] <path-to-itch-file>'',
      [],
      ''  <path-to-itch-file> must be a raw decompressed ITCH file'',
      ''  (e.g. 12302019.NASDAQ_ITCH50). Gzip (.gz) is NOT supported '' @ em_dash,
      ''  decompress first with: gunzip -k <file>.gz'',
      [],
      ''Options:'',
      ''  --order-pool-size N     Order pool capacity (default: 16777216). Power of two.'',
      ''  --level-pool-size N     PriceLevel pool capacity (default: 4194304). Power of two.'',
      ''  --log-path PATH         Where to write the diagnostic log (default: itch.log).'',
      ''  --help, -h              Show this message.'',
      [],
      ''Example:'',
      ''  {} 12302019.NASDAQ_ITCH50'',
      ''  {} --order-pool-size 8388608 12302019.NASDAQ_ITCH50'']"

definition print_usage :: "string \<Rightarrow> kernel \<Rightarrow> kernel exec" where
  "print_usage argv0 = println_err usage_format [FStr argv0, FStr argv0, FStr argv0]"

definition unknown_format :: string where
  "unknown_format = ''Error: unknown option '{}'' @ [CHR 0x27]"

definition gzip_format :: string where
  "gzip_format = text_lines
     [''[ITCHProcessor] error: gzip input is not supported (gzip support removed).'',
      ''  Decompress first: gunzip -k {}'']"

definition megabytes :: "u64 \<Rightarrow> nat \<Rightarrow> double" where
  "megabytes n sz = fdiv (double_of_nat (unat (n * of_nat sz))) (fmul 1024 1024)"

definition print_config :: "config \<Rightarrow> kernel \<Rightarrow> kernel exec" where
  "print_config c k = do {
     k \<leftarrow> println_err ''[ITCHProcessor] config:'' [] k;
     k \<leftarrow> println_err ''  input             : {}'' [FStr (cf_path c)] k;
     k \<leftarrow> println_err ''  log path          : {}'' [FStr (cf_log_path c)] k;
     k \<leftarrow> println_err ''  order pool size   : {} slots ({:.1f} MB)''
       [unsigned_arg (cf_order_pool_size c), FDouble (megabytes (cf_order_pool_size c) sizeof_Order)] k;
     k \<leftarrow> println_err ''  level pool size   : {} slots ({:.1f} MB)''
       [unsigned_arg (cf_level_pool_size c), FDouble (megabytes (cf_level_pool_size c) sizeof_PriceLevel)] k;
     println_err [] [] k }"

text \<open>The returns inside the argument loop, each after its message.\<close>

fun stop_program :: "string \<Rightarrow> args_stop \<Rightarrow> kernel \<Rightarrow> (int \<times> kernel) exec" where
  "stop_program argv0 Help k = do { k \<leftarrow> print_usage argv0 k; Some (EXIT_SUCCESS, k) }"
| "stop_program argv0 BadOrderPool k = do {
     k \<leftarrow> println_err ''Error: --order-pool-size must be a power-of-two > 0'' [] k;
     Some (EXIT_FAILURE, k) }"
| "stop_program argv0 BadLevelPool k = do {
     k \<leftarrow> println_err ''Error: --level-pool-size must be a power-of-two > 0'' [] k;
     Some (EXIT_FAILURE, k) }"
| "stop_program argv0 (UnknownOption arg) k = do {
     k \<leftarrow> println_err unknown_format [FStr arg] k;
     k \<leftarrow> print_usage argv0 k;
     Some (EXIT_FAILURE, k) }"

section \<open>The drivers\<close>

definition parse_file :: "environment \<Rightarrow> MMapFile \<Rightarrow> MatchingEngine \<Rightarrow> Stats \<Rightarrow> (MatchingEngine \<times> Stats) exec" where
  "parse_file env f e s = do {
     let buf = (case mf_data f of Some p \<Rightarrow> ev_contents env p (mf_size f) | None \<Rightarrow> []);
     (n, e, s) \<leftarrow> run (ev_little_endian env) buf (unat (mf_size f)) e (reset_stats (ev_started env) s);
     Some (e, finish (ev_finished env) s) }"

text \<open>
  \<open>main\<close>, with the locals destroyed at each return in the reverse order of their declarations. A pool
  whose block can not be allocated throws \<open>bad_alloc\<close>, which nobody catches; what the runtime then
  writes about it is not part of the program.
\<close>

definition process_input :: "environment \<Rightarrow> config \<Rightarrow> MMapFile \<Rightarrow> MatchingEngine \<Rightarrow> log_system \<Rightarrow> kernel \<Rightarrow> (log_system \<times> kernel) exec" where
  "process_input env c f e ls k = do {
     let k = advise_sequential (ev_hugepages env) f k;
     let (ls, k) = logger_start (cf_log_path c) (ev_log env (cf_log_path c)) ls k;
     k \<leftarrow> println_err ''[ITCHProcessor] parsing {} MiB from {}...'' [unsigned_arg (mf_size f div 1048576), FStr (cf_path c)] k;
     (e, s) \<leftarrow> parse_file env f e Stats_init;
     (ls, k) \<leftarrow> logger_stop ls k;
     k \<leftarrow> println_err ''[ITCHProcessor] parse complete. Generating reports...'' [] k;
     k \<leftarrow> print_out (print_report s) k;
     k \<leftarrow> println_err ''[ITCHProcessor] generating matching engine report...'' [] k;
     k \<leftarrow> print_out (engine_report_text ''-'' e) k;
     k \<leftarrow> println_err ''[ITCHProcessor] done.'' [] k;
     Some (ls, k) }"

definition main_program :: "environment \<Rightarrow> string list \<Rightarrow> kernel \<Rightarrow> (int \<times> kernel) exec" where
  "main_program env args k =
    (case parse_args default_config args of
       Inl stop \<Rightarrow> stop_program (ev_program env) stop k
     | Inr c \<Rightarrow>
         if cf_path c = [] then do { k \<leftarrow> print_usage (ev_program env) k; Some (EXIT_FAILURE, k) }
         else do {
           k \<leftarrow> print_config c k;
           L \<leftarrow> logger_init kLogCapacity;
           let ls = log_system_init L;
           engine \<leftarrow> MatchingEngine_new (ev_alloc env) (cf_order_pool_size c) (cf_level_pool_size c);
           (case engine of
              None \<Rightarrow> Some (ABORTED, k)
            | Some e \<Rightarrow>
                if suffix ''.gz'' (cf_path c) then do {
                  k \<leftarrow> println_err gzip_format [FStr (cf_path c)] k;
                  (ls, k) \<leftarrow> logger_stop ls k;
                  Some (EXIT_FAILURE, k) }
                else do {
                  (mapped, k) \<leftarrow> open_file (cf_path c) (ev_open env (cf_path c)) k;
                  (case mapped of
                     Inl err \<Rightarrow> do {
                       k \<leftarrow> println_err ''[ITCHProcessor] mmap({}) failed: {}'' [FStr (cf_path c), FStr (ev_message env err)] k;
                       (ls, k) \<leftarrow> logger_stop ls k;
                       Some (EXIT_FAILURE, k) }
                   | Inr mapped \<Rightarrow> do {
                       let (f, mapped) = move_construct mapped;
                       (ls, k) \<leftarrow> process_input env c f e ls k;
                       k \<leftarrow> destroy_file f k;
                       k \<leftarrow> destroy_file mapped k;
                       (ls, k) \<leftarrow> logger_stop ls k;
                       Some (EXIT_SUCCESS, k) }) }) })"

text \<open>\<open>ITCHProcessor\<close>: its logger, engine and statistics live from one \<open>run\<close> to the next; only the statistics
are reset.\<close>

record ITCHProcessor =
  ip_log_path :: string
  ip_logger :: log_system
  ip_engine :: MatchingEngine
  ip_stats :: Stats

definition ITCHProcessor_init :: "(u64 \<Rightarrow> bool) \<Rightarrow> string \<Rightarrow> ITCHProcessor option exec" where
  "ITCHProcessor_init alloc log_path = do {
     L \<leftarrow> logger_init kLogCapacity;
     engine \<leftarrow> MatchingEngine_new alloc (of_nat kOrderPoolSize) (of_nat kPriceLevelPoolSize);
     Some (map_option (\<lambda>e. \<lparr>ip_log_path = log_path, ip_logger = log_system_init L, ip_engine = e, ip_stats = Stats_init\<rparr>)
       engine) }"

definition processor_run :: "environment \<Rightarrow> string \<Rightarrow> ITCHProcessor \<Rightarrow> kernel \<Rightarrow> (bool \<times> ITCHProcessor \<times> kernel) exec" where
  "processor_run env path ip k = do {
     (mapped, k) \<leftarrow> open_file path (ev_open env path) k;
     (case mapped of
        Inl err \<Rightarrow> do {
          k \<leftarrow> println_err ''[ITCHProcessor] mmap({}) failed: {}'' [FStr path, FStr (ev_message env err)] k;
          Some (False, ip, k) }
      | Inr mapped \<Rightarrow> do {
          let (f, mapped) = move_construct mapped;
          let k = advise_sequential (ev_hugepages env) f k;
          let (ls, k) = logger_start (ip_log_path ip) (ev_log env (ip_log_path ip)) (ip_logger ip) k;
          k \<leftarrow> println_err ''[ITCHProcessor] parsing {} MiB fron {}...'' [unsigned_arg (mf_size f div 1048576), FStr path] k;
          (e, s) \<leftarrow> parse_file env f (ip_engine ip) (ip_stats ip);
          (ls, k) \<leftarrow> logger_stop ls k;
          k \<leftarrow> print_out (print_report s) k;
          k \<leftarrow> print_out (print_engine_report e) k;
          k \<leftarrow> destroy_file f k;
          k \<leftarrow> destroy_file mapped k;
          Some (True, ip\<lparr>ip_logger := ls, ip_engine := e, ip_stats := s\<rparr>, k) }) }"

definition processor_destroy :: "ITCHProcessor \<Rightarrow> kernel \<Rightarrow> kernel exec" where
  "processor_destroy ip k = do { (ls, k) \<leftarrow> logger_stop (ip_logger ip) k; Some k }"

end
