(* ===== verification/Engine_Rep.thy ===== *)
theory Engine_Rep
  imports Matching_Engine Book_Spec
begin

text \<open>
  The invariant of the matching engine and the effect of the small steps its handlers are made
  of. \<open>G loc\<close> gives the levels of the book of instrument \<open>loc\<close>. \<open>engine_mid\<close> is the state
  between two steps of a handler: the order slots \<open>Q\<close> that were acquired, the slots \<open>Q\<close>
  the index holds and the numbers the live counters show may still differ from the orders that
  stand in books. \<open>engine_rep\<close>, where they all agree, is the invariant.
\<close>

type_synonym books = "StockLocate \<Rightarrow> Side \<Rightarrow> levels"

section \<open>Definitions\<close>

definition all_orders :: "books \<Rightarrow> nat set" where
  "all_orders G = (\<Union>loc. book_orders (G loc))"
definition all_levels :: "books \<Rightarrow> nat set" where
  "all_levels G = (\<Union>loc. book_levels (G loc))"

definition books_ok :: "(StockLocate \<Rightarrow> OrderBook option) \<Rightarrow> arena \<Rightarrow> books \<Rightarrow> bool" where
  "books_ok bk ar G \<longleftrightarrow> (\<forall>loc. (case bk loc of Some b \<Rightarrow> book_rep ar b (G loc) | None \<Rightarrow> G loc = (\<lambda>_. [])) \<and>
     (\<forall>i\<in>book_orders (G loc). \<exists>x. order_at ar i x \<and> o_locate x = loc))"

definition index_ok :: "arena \<Rightarrow> DirectOrderIndex \<Rightarrow> nat set \<Rightarrow> bool" where
  "index_ok ar ix Q \<longleftrightarrow> ix_ok ar ix \<and> (\<forall>i\<in>Q. \<exists>x. order_at ar i x) \<and>
     (\<forall>oid i. ix_content ar ix oid = Some i \<longleftrightarrow> i \<in> Q \<and> ix_fits ar oid i)"

definition stats_ok :: "EngineStats \<Rightarrow> nat \<Rightarrow> nat \<Rightarrow> bool" where
  "stats_ok s no nl \<longleftrightarrow> st_live_orders s = of_nat no \<and> st_live_levels s = of_nat nl \<and>
     st_live_orders s \<le> st_peak_live_orders s \<and> st_live_levels s \<le> st_peak_live_levels s"

definition engine_mid :: "MatchingEngine \<Rightarrow> books \<Rightarrow> nat set \<Rightarrow> nat set \<Rightarrow> nat \<Rightarrow> nat \<Rightarrow> bool" where
  "engine_mid e G Q R no nl \<longleftrightarrow> books_ok (book_at e) (me_arena e) G \<and>
     owned (ar_orders (me_arena e)) Q \<and> owned (ar_levels (me_arena e)) (all_levels G) \<and>
     index_ok (me_arena e) (me_index e) R \<and> all_orders G \<subseteq> Q \<and> R \<subseteq> Q \<and> stats_ok (me_stats e) no nl \<and>
     mp_capacity (ar_orders (me_arena e)) < 2 ^ 32 \<and> mp_capacity (ar_levels (me_arena e)) < 2 ^ 64 \<and>
     im_ok (me_instruments e)"

definition engine_rep :: "MatchingEngine \<Rightarrow> books \<Rightarrow> bool" where
  "engine_rep e G \<longleftrightarrow>
     engine_mid e G (all_orders G) (all_orders G) (card (all_orders G)) (card (all_levels G))"

definition engine_view :: "MatchingEngine \<Rightarrow> books \<Rightarrow> StockLocate \<Rightarrow> Side \<Rightarrow> Order list" where
  "engine_view e G loc s = book_view (me_arena e) (G loc) s"

section \<open>Facts of the books\<close>

lemma books_okD:
  assumes "books_ok bk ar G"
  shows "\<And>b. bk loc = Some b \<Longrightarrow> book_rep ar b (G loc)" "bk loc = None \<Longrightarrow> G loc = (\<lambda>_. [])"
    and "i \<in> book_orders (G loc) \<Longrightarrow> \<exists>x. order_at ar i x \<and> o_locate x = loc"
proof -
  have ok: "(case bk loc of Some b \<Rightarrow> book_rep ar b (G loc) | None \<Rightarrow> G loc = (\<lambda>_. []))"
    "\<forall>i\<in>book_orders (G loc). \<exists>x. order_at ar i x \<and> o_locate x = loc"
    using assms unfolding books_ok_def by blast+
  show "\<And>b. bk loc = Some b \<Longrightarrow> book_rep ar b (G loc)" "bk loc = None \<Longrightarrow> G loc = (\<lambda>_. [])"
    using ok(1) by simp_all
  show "i \<in> book_orders (G loc) \<Longrightarrow> \<exists>x. order_at ar i x \<and> o_locate x = loc" using ok(2) by blast
qed

lemma empty_book [simp]: "book_orders (\<lambda>_. []) = {}" "book_levels (\<lambda>_. []) = {}"
  by (simp_all add: book_orders_def book_levels_def)

lemma book_of_order: "books_ok bk ar G \<Longrightarrow> i \<in> book_orders (G loc) \<Longrightarrow> \<exists>b. bk loc = Some b"
  using books_okD(2) [of bk ar G loc] by (cases "bk loc") auto

lemma book_of_level: "books_ok bk ar G \<Longrightarrow> lv \<in> book_levels (G loc) \<Longrightarrow> \<exists>b. bk loc = Some b"
  using books_okD(2) [of bk ar G loc] by (cases "bk loc") auto

lemma orders_disjoint:
  assumes "books_ok bk ar G" "i \<in> book_orders (G loc)" "i \<in> book_orders (G loc')"
  shows "loc = loc'"
  using books_okD(3) [OF assms(1,2)] books_okD(3) [OF assms(1,3)] order_at_unique by metis

text \<open>A level names its first order, which stands in one book only.\<close>

lemma level_head:
  assumes "books_ok bk ar G" "lv \<in> book_levels (G loc)"
  shows "\<exists>l i. level_at ar lv l \<and> l_head_order l = Some i \<and> i \<in> book_orders (G loc)"
proof -
  from book_of_level [OF assms] obtain b where "bk loc = Some b" ..
  with assms(1) have rep: "book_rep ar b (G loc)" by (rule books_okD(1))
  from assms(2) obtain s where "lv \<in> set (levels_of (G loc s))" by (auto simp: book_levels_def)
  then obtain px os where L: "(lv, px, os) \<in> set (G loc s)" by (force simp: levels_of_def)
  have "no_empty (G loc s)" using rep by (simp add: book_rep_iff)
  then have "os \<noteq> []" using L by (auto simp: no_empty_def)
  then obtain i ys where os: "os = i # ys" by (cases os) auto
  have "level_rep ar s lv px os" using side_memD(5) [OF book_rep_side [OF rep] L] .
  then obtain l where "level_at ar lv l" "l_head_order l = Some i"
    unfolding level_rep_def level_list_def by (auto simp: os)
  moreover have "i \<in> book_orders (G loc)"
    using os_subset [OF L] side_subset(1) [of "G loc" s] os by auto
  ultimately show ?thesis by blast
qed

lemma levels_disjoint:
  assumes "books_ok bk ar G" "lv \<in> book_levels (G loc)" "lv \<in> book_levels (G loc')"
  shows "loc = loc'"
proof -
  from level_head [OF assms(1,2)] level_head [OF assms(1,3)] obtain i where
    "i \<in> book_orders (G loc)" "i \<in> book_orders (G loc')" using level_at_unique by (metis option.inject)
  then show ?thesis by (rule orders_disjoint [OF assms(1)])
qed

lemma all_orders_in: "book_orders (G loc) \<subseteq> all_orders G" "book_levels (G loc) \<subseteq> all_levels G"
  by (auto simp: all_orders_def all_levels_def)

lemma all_upd:
  "all_orders (G(loc := H)) = (\<Union>l\<in>- {loc}. book_orders (G l)) \<union> book_orders H"
  "all_levels (G(loc := H)) = (\<Union>l\<in>- {loc}. book_levels (G l)) \<union> book_levels H"
  by (auto simp: all_orders_def all_levels_def split: if_splits)

lemma all_split:
  "all_orders G = (\<Union>l\<in>- {loc}. book_orders (G l)) \<union> book_orders (G loc)"
  "all_levels G = (\<Union>l\<in>- {loc}. book_levels (G l)) \<union> book_levels (G loc)"
  using all_upd [of G loc "G loc"] by simp_all

lemma book_rep_same:
  assumes "book_rep ar b H" "same_on (book_orders H) (book_levels H) ar ar'"
  shows "book_rep ar' b H"
  using assms book_sides_same [OF _ assms(2), of b] by (simp add: book_rep_iff)

lemma books_ok_same:
  assumes ok: "books_ok bk ar G" and same: "same_on (all_orders G) (all_levels G) ar ar'"
  shows "books_ok bk ar' G"
  unfolding books_ok_def
proof (intro allI conjI ballI)
  fix loc
  have same': "same_on (book_orders (G loc)) (book_levels (G loc)) ar ar'"
    using same all_orders_in by (rule same_on_mono)
  show "case bk loc of Some b \<Rightarrow> book_rep ar' b (G loc) | None \<Rightarrow> G loc = (\<lambda>_. [])"
  proof (cases "bk loc")
    case (Some b)
    with books_okD(1) [OF ok] have "book_rep ar b (G loc)" by blast
    with Some book_rep_same [OF _ same'] show ?thesis by simp
  qed (use books_okD(2) [OF ok] in simp)
  fix i assume i: "i \<in> book_orders (G loc)"
  from books_okD(3) [OF ok i] order_at_same [OF same' i]
  show "\<exists>x. order_at ar' i x \<and> o_locate x = loc" by simp
qed

lemma books_ok_upd:
  assumes ok: "books_ok bk ar G"
    and others: "\<And>l. l \<noteq> loc \<Longrightarrow> same_on (book_orders (G l)) (book_levels (G l)) ar ar'"
    and rep: "book_rep ar' b' H"
    and locs: "\<And>i. i \<in> book_orders H \<Longrightarrow> \<exists>x. order_at ar' i x \<and> o_locate x = loc"
  shows "books_ok (bk(loc := Some b')) ar' (G(loc := H))"
  unfolding books_ok_def
proof (intro allI)
  fix l
  show "(case (bk(loc := Some b')) l of Some b \<Rightarrow> book_rep ar' b ((G(loc := H)) l)
      | None \<Rightarrow> (G(loc := H)) l = (\<lambda>_. [])) \<and>
     (\<forall>i\<in>book_orders ((G(loc := H)) l). \<exists>x. order_at ar' i x \<and> o_locate x = l)"
  proof (cases "l = loc")
    case True
    with rep locs show ?thesis by simp
  next
    case False
    note same = others [OF False]
    have "case bk l of Some b \<Rightarrow> book_rep ar' b (G l) | None \<Rightarrow> G l = (\<lambda>_. [])"
    proof (cases "bk l")
      case (Some b)
      with books_okD(1) [OF ok] have "book_rep ar b (G l)" by blast
      with Some book_rep_same [OF _ same] show ?thesis by simp
    qed (use books_okD(2) [OF ok] in simp)
    moreover have "\<forall>i\<in>book_orders (G l). \<exists>x. order_at ar' i x \<and> o_locate x = l"
      using books_okD(3) [OF ok] order_at_same [OF same] by simp
    moreover have "(G(loc := H)) l = G l" "(bk(loc := Some b')) l = bk l" using False by simp_all
    ultimately show ?thesis by (simp only: simp_thms)
  qed
qed

section \<open>Facts of the index\<close>

lemma index_okD:
  assumes "index_ok ar ix R"
  shows "ix_ok ar ix" "i \<in> R \<Longrightarrow> \<exists>x. order_at ar i x"
    "ix_content ar ix oid = Some i \<longleftrightarrow> i \<in> R \<and> ix_fits ar oid i"
  using assms unfolding index_ok_def by blast+

lemma index_unique:
  assumes "index_ok ar ix R" "i \<in> R" "j \<in> R" "order_at ar i x" "order_at ar j y" "o_order_id x = o_order_id y"
  shows "i = j"
proof -
  have "ix_content ar ix (o_order_id x) = Some i"
    using index_okD(3) [OF assms(1)] assms(2,4) by (simp add: ix_fits_iff)
  moreover have "ix_content ar ix (o_order_id x) = Some j"
    using index_okD(3) [OF assms(1)] assms(3,5,6) by (simp add: ix_fits_iff)
  ultimately show ?thesis by simp
qed

lemma index_ran: "index_ok ar ix R \<Longrightarrow> ran (ix_content ar ix) \<subseteq> R"
  using index_okD(3) by (fastforce simp: ran_def)

lemma index_ok_arena:
  assumes ok: "index_ok ar ix R" and kept: "ids_kept R ar ar'"
  shows "index_ok ar' ix R"
proof -
  have "ids_kept (ran (ix_content ar ix)) ar ar'" using kept index_ran [OF ok] by (auto simp: ids_kept_def)
  note a = ix_arena [OF index_okD(1) [OF ok] this]
  have fits: "ix_fits ar' oid i = ix_fits ar oid i" if i: "i \<in> R" for oid i
  proof -
    from index_okD(2) [OF ok i] obtain x where x: "order_at ar i x" ..
    with kept i obtain x' where "order_at ar' i x'" "o_order_id x' = o_order_id x" by (auto simp: ids_kept_def)
    with x show ?thesis by (simp add: ix_fits_iff)
  qed
  show ?thesis
    unfolding index_ok_def a(2)
  proof (intro conjI ballI allI)
    show "ix_ok ar' ix" by (rule a(1))
    show "\<exists>x. order_at ar' i x" if "i \<in> R" for i
      using kept that index_okD(2) [OF ok] by (fastforce simp: ids_kept_def)
    show "(ix_content ar ix oid = Some i) = (i \<in> R \<and> ix_fits ar' oid i)" for oid i
      using index_okD(3) [OF ok] fits by blast
  qed
qed

lemma ids_kept_same: "same_on R Ls ar ar' \<Longrightarrow> ids_kept R ar ar'"
  by (auto simp: ids_kept_def order_at_same)

lemma ids_kept_keys: "keys_kept ar ar' \<Longrightarrow> ids_kept R ar ar'"
  unfolding ids_kept_def keys_kept_def by blast

text \<open>Reference numbers are unique within every side of every book.\<close>

lemma ids_once_index:
  assumes books: "books_ok bk ar G" and index: "index_ok ar ix R" and sub: "book_orders (G loc) \<subseteq> R"
  shows "ids_once ar (G loc s)"
proof (cases "bk loc")
  case None
  then show ?thesis using books_okD(2) [OF books] by (simp add: ids_once_def)
next
  case (Some b)
  then have mem: "side_mem ar s (G loc s)" using books_okD(1) [OF books] book_rep_side by blast
  have "inj_on (\<lambda>i. o_order_id (data_at ar i)) (set (orders_of (G loc s)))"
  proof (rule inj_onI)
    fix i j assume ij: "i \<in> set (orders_of (G loc s))" "j \<in> set (orders_of (G loc s))"
      "o_order_id (data_at ar i) = o_order_id (data_at ar j)"
    from side_order [OF mem ij(1)] side_order [OF mem ij(2)] obtain x y where
      xy: "order_at ar i x" "order_at ar j y" by blast
    moreover have "i \<in> R" "j \<in> R" using ij(1,2) sub side_subset(1) by blast+
    ultimately show "i = j" using index_unique [OF index] ij(3) by (simp add: data_at_order)
  qed
  then show ?thesis using side_orders_distinct [OF mem] by (simp add: ids_once_def distinct_map)
qed

end
