(* ===== verification/Engine_Steps.thy ===== *)
theory Engine_Steps
  imports Engine_Rep
begin

text \<open>
  The effect of the steps of a handler on \<open>engine_mid\<close>: counters, the order pool, the index
  and the operations of a book. Each lemma gives the result, the state it leads to and what
  it leaves alone.
\<close>

section \<open>Counters\<close>

lemma bump_sel [simp]:
  "me_instruments (bump f e) = me_instruments e" "me_arena (bump f e) = me_arena e"
  "me_index (bump f e) = me_index e" "me_stats (bump f e) = f (me_stats e)"
  by (simp_all add: bump_def)

lemma book_at_cong: "me_instruments e' = me_instruments e \<Longrightarrow> book_at e' = book_at e"
  by (simp add: book_at_def fun_eq_iff)

lemma book_at_bump [simp]: "book_at (bump f e) = book_at e"
  by (rule book_at_cong) simp

lemma engine_view_bump [simp]: "engine_view (bump f e) = engine_view e"
  by (simp add: engine_view_def fun_eq_iff)

lemma mid_bump:
  "engine_mid e G Q R no nl \<Longrightarrow> stats_ok (f (me_stats e)) no' nl' \<Longrightarrow> engine_mid (bump f e) G Q R no' nl'"
  by (simp add: engine_mid_def)

text \<open>Counters other than the live ones.\<close>

definition live_same :: "(EngineStats \<Rightarrow> EngineStats) \<Rightarrow> bool" where
  "live_same f \<longleftrightarrow> (\<forall>s. st_live_orders (f s) = st_live_orders s \<and> st_live_levels (f s) = st_live_levels s \<and>
     st_peak_live_orders (f s) = st_peak_live_orders s \<and> st_peak_live_levels (f s) = st_peak_live_levels s)"

lemma live_sameD: "live_same f \<Longrightarrow> stats_ok (f s) no nl = stats_ok s no nl"
  by (simp add: live_same_def stats_ok_def)

lemma live_same_comp [simp]: "live_same f \<Longrightarrow> live_same g \<Longrightarrow> live_same (f \<circ> g)"
  by (simp add: live_same_def)

lemma live_same_incs [simp]:
  "live_same inc_unknown" "live_same inc_duplicate" "live_same inc_mismatch" "live_same inc_level_missing"
  "live_same inc_pool_exhausted" "live_same inc_level_pool_exhausted"
  by (simp_all add: live_same_def inc_unknown_def inc_duplicate_def inc_mismatch_def inc_level_missing_def
      inc_pool_exhausted_def inc_level_pool_exhausted_def)

lemma mid_bump_same:
  "engine_mid e G Q R no nl \<Longrightarrow> live_same f \<Longrightarrow> engine_mid (bump f e) G Q R no nl"
  by (rule mid_bump) (auto simp: live_sameD engine_mid_def)

lemma stats_inc:
  "stats_ok s no nl \<Longrightarrow> stats_ok (inc_live_orders s) (Suc no) nl"
  "stats_ok s no nl \<Longrightarrow> stats_ok (inc_live_levels s) no (Suc nl)"
  by (auto simp: stats_ok_def inc_live_orders_def inc_live_levels_def Let_def add.commute)

lemma word_pred:
  assumes "w = of_nat (Suc n)" "Suc n < 2 ^ 64"
  shows "w > (0 :: u64)" "w - 1 = of_nat n" "w - 1 \<le> w"
proof -
  have u: "unat w = Suc n" using assms by (simp only: unat_of_nat) simp
  then show pos: "w > 0" by (simp add: word_less_nat_alt)
  show "w - 1 = of_nat n" by (simp add: assms(1))
  have "unat (w - 1) = unat w - 1" using pos by (intro unat_minus_one) auto
  then show "w - 1 \<le> w" by (simp add: word_le_nat_alt)
qed

lemma stats_dec:
  assumes "stats_ok s (Suc no) nl" "Suc no < 2 ^ 64" shows "stats_ok (dec_live_orders s) no nl"
  using assms(1) word_pred [OF _ assms(2), of "st_live_orders s"] unfolding stats_ok_def dec_live_orders_def
  by (auto intro: order_trans)

lemma stats_dec_levels:
  assumes "stats_ok s no (Suc nl)" "Suc nl < 2 ^ 64" shows "stats_ok (dec_live_levels s) no nl"
  using assms(1) word_pred [OF _ assms(2), of "st_live_levels s"] unfolding stats_ok_def dec_live_levels_def
  by (auto intro: order_trans)

section \<open>Facts of the state between two steps\<close>

lemma midD:
  assumes "engine_mid e G Q R no nl"
  shows "books_ok (book_at e) (me_arena e) G" "owned (ar_orders (me_arena e)) Q"
    "owned (ar_levels (me_arena e)) (all_levels G)" "index_ok (me_arena e) (me_index e) R"
    "all_orders G \<subseteq> Q" "R \<subseteq> Q" "stats_ok (me_stats e) no nl"
    "mp_capacity (ar_orders (me_arena e)) < 2 ^ 32" "mp_capacity (ar_levels (me_arena e)) < 2 ^ 64"
    "im_ok (me_instruments e)"
  using assms unfolding engine_mid_def by blast+

lemma midI:
  assumes "books_ok (book_at e) (me_arena e) G" "owned (ar_orders (me_arena e)) Q"
    "owned (ar_levels (me_arena e)) (all_levels G)" "index_ok (me_arena e) (me_index e) R"
    "all_orders G \<subseteq> Q" "R \<subseteq> Q" "stats_ok (me_stats e) no nl"
    "mp_capacity (ar_orders (me_arena e)) < 2 ^ 32" "mp_capacity (ar_levels (me_arena e)) < 2 ^ 64"
    "im_ok (me_instruments e)"
  shows "engine_mid e G Q R no nl"
  using assms unfolding engine_mid_def by blast

text \<open>An order slot can be written when it is in no book and not in the index.\<close>

lemma mid_arena:
  assumes mid: "engine_mid e G Q R no nl" and sub: "all_orders G \<subseteq> Q'" "R \<subseteq> Q'"
    and frame: "\<And>j. j \<in> all_orders G \<union> R \<Longrightarrow> ord ar' j = ord (me_arena e) j"
    and lev: "ar_levels ar' = ar_levels (me_arena e)"
    and cap: "mp_capacity (ar_orders ar') = mp_capacity (ar_orders (me_arena e))"
    and own: "owned (ar_orders ar') Q'"
  shows "engine_mid (e\<lparr>me_arena := ar'\<rparr>) G Q' R no nl \<and>
    engine_view (e\<lparr>me_arena := ar'\<rparr>) G = engine_view e G"
proof
  note M = midD [OF mid]
  have same: "same_on (all_orders G \<union> R) (all_levels G) (me_arena e) ar'"
    using frame lev cap by (simp add: same_on_def)
  then have "same_on (all_orders G) (all_levels G) (me_arena e) ar'" "same_on R (all_levels G) (me_arena e) ar'"
    by (rule same_on_mono; blast)+
  then have "books_ok (book_at e) ar' G" "index_ok ar' (me_index e) R"
    using books_ok_same [OF M(1)] index_ok_arena [OF M(4) ids_kept_same] by blast+
  moreover have "book_at (e\<lparr>me_arena := ar'\<rparr>) = book_at e" by (rule book_at_cong) simp
  ultimately show "engine_mid (e\<lparr>me_arena := ar'\<rparr>) G Q' R no nl"
    using M sub own lev cap by (intro midI) simp_all
  have "book_view ar' (G loc) s = book_view (me_arena e) (G loc) s" for loc s
    unfolding book_view_def
  proof (intro map_cong refl)
    fix i assume "i \<in> set (orders_of (G loc s))"
    then have "i \<in> all_orders G" using side_subset(1) all_orders_in(1) by blast
    then show "data_at ar' i = data_at (me_arena e) i" by (simp add: data_at_def frame)
  qed
  then show "engine_view (e\<lparr>me_arena := ar'\<rparr>) G = engine_view e G"
    by (simp add: engine_view_def fun_eq_iff)
qed

section \<open>The order pool\<close>

lemma mid_acquire:
  assumes mid: "engine_mid e G Q R no nl"
  shows "\<exists>q e'. acquire_order e = Some (q, e') \<and> engine_view e' G = engine_view e G \<and>
    me_instruments e' = me_instruments e \<and> me_index e' = me_index e \<and> me_stats e' = me_stats e \<and>
    ar_levels (me_arena e') = ar_levels (me_arena e) \<and>
    mp_capacity (ar_orders (me_arena e')) = mp_capacity (ar_orders (me_arena e)) \<and>
    ord (me_arena e') = ord (me_arena e) \<and>
    (case q of None \<Rightarrow> e' = e \<and> card Q = mp_capacity (ar_orders (me_arena e))
     | Some i \<Rightarrow> i \<notin> Q \<and> i < mp_capacity (ar_orders (me_arena e)) \<and> card Q < mp_capacity (ar_orders (me_arena e)) \<and>
         engine_mid e' G (insert i Q) R no nl)"
proof -
  note M = midD [OF mid]
  show ?thesis
  proof (cases "mp_head (ar_orders (me_arena e))")
    case None
    from acquire_None(1) [OF M(2) None] acquire_null_iff [OF M(2)] None show ?thesis
      by (simp add: acquire_order_def)
  next
    case (Some i)
    from acquire_Some [OF M(2) Some] obtain nx where nx:
      "acquire (ar_orders (me_arena e)) = Some (Some i, (ar_orders (me_arena e))\<lparr>mp_head := nx\<rparr>)"
      "owned ((ar_orders (me_arena e))\<lparr>mp_head := nx\<rparr>) (insert i Q)" "i \<notin> Q"
      "i < mp_capacity (ar_orders (me_arena e))" by blast
    let ?ar = "(me_arena e)\<lparr>ar_orders := (ar_orders (me_arena e))\<lparr>mp_head := nx\<rparr>\<rparr>"
    have "engine_mid (e\<lparr>me_arena := ?ar\<rparr>) G (insert i Q) R no nl \<and>
        engine_view (e\<lparr>me_arena := ?ar\<rparr>) G = engine_view e G"
      using M(5,6) nx(2) by (intro mid_arena [OF mid]) auto
    moreover have "card Q < mp_capacity (ar_orders (me_arena e))"
      using acquire_null_iff [OF M(2)] Some pool.own_card [OF M(2)] by fastforce
    ultimately show ?thesis using nx by (simp add: acquire_order_def)
  qed
qed

lemma mid_construct:
  assumes mid: "engine_mid e G Q R no nl" and i: "i \<in> Q" "i \<notin> all_orders G" "i \<notin> R"
  shows "\<exists>e'. construct_order e i x = Some e' \<and> engine_mid e' G Q R no nl \<and>
    engine_view e' G = engine_view e G \<and> me_instruments e' = me_instruments e \<and> me_index e' = me_index e \<and>
    me_stats e' = me_stats e \<and> ar_levels (me_arena e') = ar_levels (me_arena e) \<and>
    mp_capacity (ar_orders (me_arena e')) = mp_capacity (ar_orders (me_arena e)) \<and>
    order_at (me_arena e') i x \<and> (\<forall>j. j \<noteq> i \<longrightarrow> ord (me_arena e') j = ord (me_arena e) j)"
proof -
  note M = midD [OF mid]
  have less: "i < mp_capacity (ar_orders (me_arena e))" by (rule owned_less [OF M(2) i(1)])
  let ?p = "(ar_orders (me_arena e))\<lparr>mp_storage := (ord (me_arena e))(i := Obj x)\<rparr>"
  have "owned ?p Q" using i(1) by (intro owned_cong [OF M(2)]) auto
  then have "engine_mid (e\<lparr>me_arena := (me_arena e)\<lparr>ar_orders := ?p\<rparr>\<rparr>) G Q R no nl \<and>
      engine_view (e\<lparr>me_arena := (me_arena e)\<lparr>ar_orders := ?p\<rparr>\<rparr>) G = engine_view e G"
    using M(5,6) i by (intro mid_arena [OF mid]) auto
  then show ?thesis using less by (simp add: construct_order_def construct_eq order_at_def)
qed

lemma mid_release:
  assumes mid: "engine_mid e G Q R no nl" and i: "i \<in> Q" "i \<notin> all_orders G" "i \<notin> R"
  shows "\<exists>e'. release_order e i = Some e' \<and> engine_mid e' G (Q - {i}) R no nl \<and>
    engine_view e' G = engine_view e G \<and> me_instruments e' = me_instruments e \<and> me_index e' = me_index e \<and>
    me_stats e' = me_stats e \<and> ar_levels (me_arena e') = ar_levels (me_arena e) \<and>
    mp_capacity (ar_orders (me_arena e')) = mp_capacity (ar_orders (me_arena e)) \<and>
    (\<forall>j. j \<noteq> i \<longrightarrow> ord (me_arena e') j = ord (me_arena e) j)"
proof -
  note M = midD [OF mid]
  note rel = release_Some [OF M(2) i(1)]
  let ?p = "(ar_orders (me_arena e))\<lparr>mp_storage := (ord (me_arena e))(i := FreeNode (mp_head (ar_orders (me_arena e)))),
      mp_head := Some i\<rparr>"
  have "engine_mid (e\<lparr>me_arena := (me_arena e)\<lparr>ar_orders := ?p\<rparr>\<rparr>) G (Q - {i}) R no nl \<and>
      engine_view (e\<lparr>me_arena := (me_arena e)\<lparr>ar_orders := ?p\<rparr>\<rparr>) G = engine_view e G"
    using M(5,6) i rel(2) by (intro mid_arena [OF mid]) auto
  then show ?thesis by (simp add: release_order_def rel(1))
qed

section \<open>The index\<close>

lemma mid_find:
  "engine_mid e G Q R no nl \<Longrightarrow> index_find e oid = Some (ix_content (me_arena e) (me_index e) oid)"
  using oix.look_content [OF index_okD(1) [OF midD(4)]] by (simp add: index_find_def)

lemma mid_found:
  assumes mid: "engine_mid e G Q R no nl"
  shows "ix_content (me_arena e) (me_index e) oid = Some i \<longleftrightarrow>
    i \<in> R \<and> (\<exists>x. order_at (me_arena e) i x \<and> o_order_id x = oid)"
  using index_okD(3) [OF midD(4) [OF mid]] by (simp add: ix_fits_def)

lemma mid_index:
  assumes mid: "engine_mid e G Q R no nl" and ix: "index_ok (me_arena e) ix R'" and sub: "R' \<subseteq> Q"
  shows "engine_mid (e\<lparr>me_index := ix\<rparr>) G Q R' no nl \<and> engine_view (e\<lparr>me_index := ix\<rparr>) G = engine_view e G"
proof
  have "book_at (e\<lparr>me_index := ix\<rparr>) = book_at e" by (rule book_at_cong) simp
  then show "engine_mid (e\<lparr>me_index := ix\<rparr>) G Q R' no nl" using midD [OF mid] ix sub by (intro midI) simp_all
  show "engine_view (e\<lparr>me_index := ix\<rparr>) G = engine_view e G" by (simp add: engine_view_def fun_eq_iff)
qed

lemma index_del_ok:
  assumes ok: "index_ok ar ix R" and i: "i \<in> R" "order_at ar i x"
  shows "\<exists>ix'. ix_del ar ix (o_order_id x) = Some ix' \<and> index_ok ar ix' (R - {i})"
proof -
  note I = index_okD [OF ok]
  from oix.del_key [OF I(1)] obtain ix' where ix: "ix_del ar ix (o_order_id x) = Some ix'"
    "ix_ok ar ix'" "ix_content ar ix' = (ix_content ar ix)(o_order_id x := None)" by blast
  have "j = i" if "j \<in> R" "ix_fits ar (o_order_id x) j" for j
    using that index_unique [OF ok that(1) i(1) _ i(2)] by (auto simp: ix_fits_def)
  moreover have "o_order_id x = oid" if "ix_fits ar oid i" for oid
    using that ix_fits_iff [OF i(2)] by simp
  ultimately have "index_ok ar ix' (R - {i})"
    unfolding index_ok_def ix(3) fun_upd_apply using ix(2) I(2,3) by auto
  with ix(1) show ?thesis by blast
qed

lemma mid_erase:
  assumes mid: "engine_mid e G Q R no nl" and i: "i \<in> R" "order_at (me_arena e) i x"
  shows "\<exists>e'. index_erase e (o_order_id x) = Some e' \<and> engine_mid e' G Q (R - {i}) no nl \<and>
    engine_view e' G = engine_view e G \<and> me_instruments e' = me_instruments e \<and>
    me_arena e' = me_arena e \<and> me_stats e' = me_stats e"
proof -
  from index_del_ok [OF midD(4) [OF mid] i] obtain ix where
    "ix_del (me_arena e) (me_index e) (o_order_id x) = Some ix" "index_ok (me_arena e) ix (R - {i})" by blast
  with mid_index [OF mid this(2)] midD(6) [OF mid] show ?thesis by (auto simp: index_erase_def)
qed

lemma mid_insert:
  assumes mid: "engine_mid e G Q R no nl" and i: "i \<in> Q" "order_at (me_arena e) i x"
    and none: "ix_content (me_arena e) (me_index e) (o_order_id x) = None"
  shows "\<exists>ix. ix_insert (me_arena e) (me_index e) (o_order_id x) i = Some (True, ix) \<and>
    engine_mid (e\<lparr>me_index := ix\<rparr>) G Q (insert i R) no nl \<and>
    engine_view (e\<lparr>me_index := ix\<rparr>) G = engine_view e G"
proof -
  note M = midD [OF mid]
  note I = index_okD [OF M(4)]
  have "ix_fits (me_arena e) (o_order_id x) i" using i(2) by (auto simp: ix_fits_def)
  from oix.ins_fresh [OF I(1) this none] obtain ix where ix:
    "ix_insert (me_arena e) (me_index e) (o_order_id x) i = Some (True, ix)" "ix_ok (me_arena e) ix"
    "ix_content (me_arena e) ix = (ix_content (me_arena e) (me_index e))(o_order_id x \<mapsto> i)" by blast
  have none': "j \<notin> R \<or> \<not> ix_fits (me_arena e) (o_order_id x) j" for j using I(3) none by force
  have "index_ok (me_arena e) ix (insert i R)"
    unfolding index_ok_def ix(3)
  proof (intro conjI ballI allI)
    show "\<exists>x. order_at (me_arena e) j x" if "j \<in> insert i R" for j using that I(2) i(2) by blast
    show "(((ix_content (me_arena e) (me_index e))(o_order_id x \<mapsto> i)) oid = Some j) =
        (j \<in> insert i R \<and> ix_fits (me_arena e) oid j)" for oid j
      using none' [of j] I(3) [of oid j] ix_fits_iff [OF i(2), of oid] by (cases "oid = o_order_id x"; cases "j = i") auto
  qed (rule ix(2))
  from mid_index [OF mid this] M(6) i(1) ix(1) show ?thesis by blast
qed

section \<open>Operations of a book\<close>

lemma put_book_sel [simp]:
  "me_arena (put_book loc b e) = me_arena e" "me_index (put_book loc b e) = me_index e"
  "me_stats (put_book loc b e) = me_stats e"
  by (simp_all add: put_book_def split: option.splits)

lemma book_at_put:
  assumes "book_at e loc = Some b"
  shows "book_at (put_book loc b' e) = (book_at e)(loc := Some b')"
    and "im_ok (me_instruments e) \<Longrightarrow> im_ok (me_instruments (put_book loc b' e))"
proof -
  from assms obtain inst where inst: "im_at (me_instruments e) loc = Some inst"
    by (auto simp: book_at_def split: option.splits)
  then show "book_at (put_book loc b' e) = (book_at e)(loc := Some b')"
    by (auto simp: put_book_def book_at_def im_at_def im_put_def fun_eq_iff)
  show "im_ok (me_instruments (put_book loc b' e))" if ok: "im_ok (me_instruments e)"
  proof -
    have "in_locate inst = loc" using ok inst by (simp add: im_ok_def im_at_def)
    then have "im_ok (im_put (me_instruments e) loc (inst\<lparr>in_book := Some b'\<rparr>))"
      using inst by (intro im_put_ok [OF ok]) (simp_all add: im_at_def)
    then show ?thesis using inst by (simp add: put_book_def)
  qed
qed

lemma mid_rep: "engine_mid e G Q R no nl \<Longrightarrow> book_at e loc = Some b \<Longrightarrow> book_rep (me_arena e) b (G loc)"
  by (rule books_okD(1) [OF midD(1)])

lemma mid_apart:
  assumes "engine_mid e G Q R no nl" "l \<noteq> loc"
  shows "book_orders (G loc) \<inter> book_orders (G l) = {}" "book_levels (G loc) \<inter> book_levels (G l) = {}"
  using orders_disjoint [OF midD(1) [OF assms(1)]] levels_disjoint [OF midD(1) [OF assms(1)]] assms(2) by blast+

lemma mid_once:
  "engine_mid e G Q R no nl \<Longrightarrow> book_orders (G loc) \<subseteq> R \<Longrightarrow> ids_once (me_arena e) (G loc s)"
  using ids_once_index midD(1,4) by blast

text \<open>What a book operation of a handler leaves alone.\<close>

definition book_step :: "StockLocate \<Rightarrow> MatchingEngine \<Rightarrow> MatchingEngine \<Rightarrow> bool" where
  "book_step loc e e' \<longleftrightarrow> me_index e' = me_index e \<and> me_stats e' = me_stats e \<and>
     keys_kept (me_arena e) (me_arena e') \<and> (\<exists>b'. book_at e' loc = Some b') \<and>
     mp_capacity (ar_orders (me_arena e')) = mp_capacity (ar_orders (me_arena e)) \<and>
     mp_capacity (ar_levels (me_arena e')) = mp_capacity (ar_levels (me_arena e))"

text \<open>A change of one book whose effect on memory and on the level pool is known.\<close>

lemma mid_book:
  assumes mid: "engine_mid e G Q R no nl" and b: "book_at e loc = Some b"
    and op: "f b (me_arena e) = Some (rc, b', ar')"
    and rep: "book_rep ar' b' H" and own: "owned (ar_levels ar') (all_levels (G(loc := H)))"
    and frame: "arena_frame Os Ls (me_arena e) ar'"
    and Os: "\<And>l. l \<noteq> loc \<Longrightarrow> Os \<inter> book_orders (G l) = {}" "Os \<subseteq> Q"
    and Ls: "\<And>l. l \<noteq> loc \<Longrightarrow> Ls \<inter> book_levels (G l) = {}"
    and keys: "keys_kept (me_arena e) ar'" and sub: "all_orders (G(loc := H)) \<subseteq> Q"
    and locs: "\<And>i. i \<in> book_orders H \<Longrightarrow> \<exists>x. order_at (me_arena e) i x \<and> o_locate x = loc"
  shows "\<exists>e'. on_book f loc b e = Some (rc, e') \<and> engine_mid e' (G(loc := H)) Q R no nl \<and>
    engine_view e' (G(loc := H)) = (engine_view e G)(loc := book_view ar' H) \<and>
    book_step loc e e'"
proof -
  note M = midD [OF mid]
  let ?e = "put_book loc b' (e\<lparr>me_arena := ar'\<rparr>)"
  have b': "book_at (e\<lparr>me_arena := ar'\<rparr>) loc = Some b" using b by (simp add: book_at_def)
  have bk: "book_at ?e = (book_at e)(loc := Some b')"
    unfolding book_at_put(1) [OF b'] by (simp add: book_at_def fun_eq_iff)
  have locs': "\<exists>x. order_at ar' i x \<and> o_locate x = loc" if i: "i \<in> book_orders H" for i
  proof -
    from locs [OF i] obtain x where "order_at (me_arena e) i x" "o_locate x = loc" by blast
    with keys show ?thesis unfolding keys_kept_def by metis
  qed
  have books: "books_ok (book_at ?e) ar' (G(loc := H))"
    unfolding bk using Os(1) Ls locs' by (intro books_ok_upd [OF M(1) same_on_frame [OF frame] rep]) auto
  have caps: "mp_capacity (ar_orders ar') = mp_capacity (ar_orders (me_arena e))"
    "mp_capacity (ar_levels ar') = mp_capacity (ar_levels (me_arena e))"
    using frame by (simp_all add: arena_frame_def)
  have "engine_mid ?e (G(loc := H)) Q R no nl"
    using books owned_orders_frame [OF M(2) frame Os(2)] own index_ok_arena [OF M(4) ids_kept_keys [OF keys]]
      sub M(6-10) caps book_at_put(2) [OF b'] by (intro midI) simp_all
  moreover have "engine_view ?e (G(loc := H)) = (engine_view e G)(loc := book_view ar' H)"
  proof (intro ext)
    fix l s
    show "engine_view ?e (G(loc := H)) l s = ((engine_view e G)(loc := book_view ar' H)) l s"
    proof (cases "l = loc")
      case False
      have "map (data_at ar') (orders_of (G l s)) = map (data_at (me_arena e)) (orders_of (G l s))"
      proof (intro map_cong refl)
        fix i assume "i \<in> set (orders_of (G l s))"
        then have "i \<notin> Os" using Os(1) [OF False] side_subset(1) [of "G l" s] by blast
        then show "data_at ar' i = data_at (me_arena e) i" using frame by (simp add: arena_frame_def data_at_def)
      qed
      with False show ?thesis by (simp add: engine_view_def book_view_def)
    qed (simp add: engine_view_def)
  qed
  moreover have "on_book f loc b e = Some (rc, ?e)" by (simp add: on_book_def op)
  ultimately show ?thesis using bk keys caps by (intro exI [of _ ?e]) (simp add: book_step_def)
qed

lemma all_insert:
  "book_orders H = insert i (book_orders (G loc)) \<Longrightarrow> all_orders (G(loc := H)) = insert i (all_orders G)"
  "book_levels H = insert lv (book_levels (G loc)) \<Longrightarrow> all_levels (G(loc := H)) = insert lv (all_levels G)"
  using all_upd [of G loc H] all_split [of G loc] by auto

lemma all_remove:
  assumes "engine_mid e G Q R no nl"
  shows "i \<in> book_orders (G loc) \<Longrightarrow> book_orders H = book_orders (G loc) - {i} \<Longrightarrow>
      all_orders (G(loc := H)) = all_orders G - {i}"
    and "lv \<in> book_levels (G loc) \<Longrightarrow> book_levels H = book_levels (G loc) - {lv} \<Longrightarrow>
      all_levels (G(loc := H)) = all_levels G - {lv}"
proof -
  have "i \<notin> book_orders (G l)" if "i \<in> book_orders (G loc)" "l \<noteq> loc" for i l
    using mid_apart(1) [OF assms that(2)] that(1) by blast
  then show "i \<in> book_orders (G loc) \<Longrightarrow> book_orders H = book_orders (G loc) - {i} \<Longrightarrow>
      all_orders (G(loc := H)) = all_orders G - {i}"
    unfolding all_upd all_split(1) [of G loc] by auto
  have "lv \<notin> book_levels (G l)" if "lv \<in> book_levels (G loc)" "l \<noteq> loc" for lv l
    using mid_apart(2) [OF assms that(2)] that(1) by blast
  then show "lv \<in> book_levels (G loc) \<Longrightarrow> book_levels H = book_levels (G loc) - {lv} \<Longrightarrow>
      all_levels (G(loc := H)) = all_levels G - {lv}"
    unfolding all_upd all_split(2) [of G loc] by auto
qed

lemma all_same:
  "book_orders H = book_orders (G loc) \<Longrightarrow> all_orders (G(loc := H)) = all_orders G"
  "book_levels H = book_levels (G loc) \<Longrightarrow> all_levels (G(loc := H)) = all_levels G"
  using all_upd [of G loc H] all_split [of G loc] by auto

definition upd_queue :: "StockLocate \<Rightarrow> Side \<Rightarrow> (Order list \<Rightarrow> Order list) \<Rightarrow>
    (StockLocate \<Rightarrow> Side \<Rightarrow> Order list) \<Rightarrow> StockLocate \<Rightarrow> Side \<Rightarrow> Order list" where
  "upd_queue loc s f V = V(loc := (V loc)(s := f (V loc s)))"

lemma mid_add:
  assumes mid: "engine_mid e G Q R no nl" and b: "book_at e loc = Some b"
    and x: "order_at (me_arena e) i x" "o_locate x = loc" and i: "i \<in> Q" "i \<notin> all_orders G"
    and px: "o_price_cents x \<noteq> kEmptyPrice" and room: "length (G loc (o_side x)) < 8192"
  shows "\<exists>rc e' G'. on_book (\<lambda>b ar. add_order b ar i) loc b e = Some (rc, e') \<and> engine_mid e' G' Q R no nl \<and>
    rc = (if \<exists>y\<in>set (engine_view e G loc (o_side x)). o_price_cents y = o_price_cents x then 1
          else if card (all_levels G) = mp_capacity (ar_levels (me_arena e)) then 0 else 2) \<and>
    all_orders G' = (if rc = 0 then all_orders G else insert i (all_orders G)) \<and>
    card (all_levels G') = card (all_levels G) + (if rc = 2 then 1 else 0) \<and>
    engine_view e' G' = (if rc = 0 then engine_view e G
      else upd_queue loc (o_side x) (q_add (o_data x)) (engine_view e G)) \<and>
    book_step loc e e'"
proof -
  note M = midD [OF mid]
  note rep = mid_rep [OF mid b]
  have i': "i \<notin> book_orders (G loc)" using i(2) all_orders_in by blast
  from add_order_book [OF rep x(1) i' px room M(3) all_orders_in(2)]
  obtain rc b' ar' H U' where add: "add_order b (me_arena e) i = Some (rc, b', ar')" "book_rep ar' b' H"
    "owned (ar_levels ar') U'" "data_kept (me_arena e) ar'"
    "rc = (if \<exists>y\<in>set (book_view (me_arena e) (G loc) (o_side x)). o_price_cents y = o_price_cents x then 1
          else if card (all_levels G) = mp_capacity (ar_levels (me_arena e)) then 0 else 2)"
    "if rc = 0 then b' = b \<and> ar' = me_arena e \<and> H = G loc \<and> U' = all_levels G
     else book_orders H = insert i (book_orders (G loc)) \<and>
       book_view ar' H = (book_view (me_arena e) (G loc))
         (o_side x := q_add (o_data x) (book_view (me_arena e) (G loc) (o_side x))) \<and>
       arena_frame (insert i (book_orders (G loc))) (book_levels H) (me_arena e) ar' \<and>
       (if rc = 1 then book_levels H = book_levels (G loc) \<and> U' = all_levels G
        else \<exists>lv. lv \<notin> all_levels G \<and> book_levels H = insert lv (book_levels (G loc)) \<and> U' = insert lv (all_levels G))"
    by blast
  have orders: "all_orders (G(loc := H)) = (if rc = 0 then all_orders G else insert i (all_orders G))"
    using add(6) all_insert(1) [of H i G loc] by auto
  have levels: "all_levels (G(loc := H)) = U' \<and>
      card U' = card (all_levels G) + (if rc = 2 then 1 else 0)"
  proof (cases "rc = 0 \<or> rc = 1")
    case True
    then show ?thesis using add(6) all_same(2) [of H G loc] by (auto split: if_splits)
  next
    case False
    with add(6) obtain lv where "lv \<notin> all_levels G" "book_levels H = insert lv (book_levels (G loc))"
      "U' = insert lv (all_levels G)" by auto
    moreover have "rc = 2" using False add(5) by (auto split: if_splits)
    ultimately show ?thesis using all_insert(2) [of H lv G loc] pool.own_finite [OF M(3)] by simp
  qed
  have frame: "arena_frame (insert i (book_orders (G loc))) (book_levels H) (me_arena e) ar'"
    using add(6) by (auto split: if_splits)
  have apart: "insert i (book_orders (G loc)) \<inter> book_orders (G l) = {} \<and>
      book_levels H \<inter> book_levels (G l) = {}" if l: "l \<noteq> loc" for l
  proof -
    have "i \<notin> book_orders (G l)" using i(2) all_orders_in by blast
    moreover have "book_levels H \<subseteq> book_levels (G loc) \<union> - all_levels G" using add(6) by (auto split: if_splits)
    ultimately show ?thesis using mid_apart [OF mid l] all_orders_in(2) [of G l] by blast
  qed
  have locs: "\<exists>z. order_at (me_arena e) j z \<and> o_locate z = loc" if "j \<in> book_orders H" for j
    using that add(6) x books_okD(3) [OF M(1)] by (auto split: if_splits)
  have "\<exists>e'. on_book (\<lambda>b ar. add_order b ar i) loc b e = Some (rc, e') \<and> engine_mid e' (G(loc := H)) Q R no nl \<and>
      engine_view e' (G(loc := H)) = (engine_view e G)(loc := book_view ar' H) \<and> book_step loc e e'"
  proof (rule mid_book [where f = "\<lambda>b ar. add_order b ar i", OF mid b add(1,2) _ frame])
    show "owned (ar_levels ar') (all_levels (G(loc := H)))" using levels add(3) by simp
    show "insert i (book_orders (G loc)) \<subseteq> Q" using i(1) M(5) all_orders_in(1) [of G loc] by blast
    show "all_orders (G(loc := H)) \<subseteq> Q" using orders M(5) i(1) by auto
  qed (use apart keys_kept_data [OF add(4)] locs in blast)+
  then obtain e' where e': "on_book (\<lambda>b ar. add_order b ar i) loc b e = Some (rc, e')"
    "engine_mid e' (G(loc := H)) Q R no nl" "engine_view e' (G(loc := H)) = (engine_view e G)(loc := book_view ar' H)"
    "book_step loc e e'" by blast
  have view: "(engine_view e G)(loc := book_view ar' H) = (if rc = 0 then engine_view e G
      else upd_queue loc (o_side x) (q_add (o_data x)) (engine_view e G))"
    using add(6) by (simp add: upd_queue_def engine_view_def fun_eq_iff)
  show ?thesis
    using e' levels orders add(5) unfolding view
    by (intro exI [of _ rc] exI [of _ e'] exI [of _ "G(loc := H)"]) (simp add: engine_view_def)
qed

text \<open>The two operations that can take an order out of its book.\<close>

lemma mid_left:
  assumes mid: "engine_mid e G Q R no nl" and b: "book_at e loc = Some b" and i: "i \<in> book_orders (G loc)"
    and op: "f b (me_arena e) = Some (rc, b', ar')" and rep: "book_rep ar' b' H"
    and own: "owned (ar_levels ar') U'" and keys: "keys_kept (me_arena e) ar'"
    and frame: "arena_frame (book_orders (G loc)) (book_levels (G loc)) (me_arena e) ar'"
    and left: "if rc = 0 then H = G loc \<and> U' = all_levels G else left_book i rc (G loc) H (all_levels G) U'"
    and rc: "rc \<in> {0, 1, 2}"
  shows "\<exists>e' G'. on_book f loc b e = Some (rc, e') \<and> engine_mid e' G' Q R no nl \<and>
    all_orders G' = (if rc = 0 then all_orders G else all_orders G - {i}) \<and>
    card (all_levels G) = card (all_levels G') + (if rc = 2 then 1 else 0) \<and>
    engine_view e' G' = (engine_view e G)(loc := book_view ar' H) \<and> book_step loc e e'"
proof -
  note M = midD [OF mid]
  have orders: "all_orders (G(loc := H)) = (if rc = 0 then all_orders G else all_orders G - {i})"
    using left all_remove(1) [OF mid i, of H] by (auto simp: left_book_def)
  have levels: "all_levels (G(loc := H)) = U' \<and> card (all_levels G) = card U' + (if rc = 2 then 1 else 0)"
  proof (cases "rc = 2")
    case False
    then show ?thesis using left rc all_same(2) [of H G loc] by (auto simp: left_book_def)
  next
    case True
    with left obtain lv where lv: "lv \<in> book_levels (G loc)" "book_levels H = book_levels (G loc) - {lv}"
      "U' = all_levels G - {lv}" by (auto simp: left_book_def)
    have "lv \<in> all_levels G" using lv(1) all_orders_in(2) by blast
    from card_Suc_Diff1 [OF pool.own_finite [OF M(3)] this] show ?thesis
      using True lv all_remove(2) [OF mid lv(1,2)] by simp
  qed
  have sub: "book_orders H \<subseteq> book_orders (G loc)" using left by (auto simp: left_book_def split: if_splits)
  have "\<exists>e'. on_book f loc b e = Some (rc, e') \<and> engine_mid e' (G(loc := H)) Q R no nl \<and>
      engine_view e' (G(loc := H)) = (engine_view e G)(loc := book_view ar' H) \<and> book_step loc e e'"
  proof (rule mid_book [where f = f, OF mid b op rep _ frame])
    show "owned (ar_levels ar') (all_levels (G(loc := H)))" using levels own by simp
    show "book_orders (G loc) \<subseteq> Q" using M(5) all_orders_in(1) [of G loc] by blast
    show "all_orders (G(loc := H)) \<subseteq> Q" using orders M(5) by auto
  qed (use mid_apart [OF mid, of _ loc] keys sub books_okD(3) [OF M(1)] in blast)+
  then show ?thesis using orders levels by auto
qed

lemma mid_remove:
  assumes mid: "engine_mid e G Q R no nl" and b: "book_at e loc = Some b" and i: "i \<in> book_orders (G loc)"
    and x: "order_at (me_arena e) i x" and R: "book_orders (G loc) \<subseteq> R"
  shows "\<exists>rc e' G'. on_book (\<lambda>b ar. remove_order b ar i) loc b e = Some (rc, e') \<and> engine_mid e' G' Q R no nl \<and>
    rc \<in> {1, 2} \<and> all_orders G' = all_orders G - {i} \<and>
    card (all_levels G) = card (all_levels G') + (if rc = 2 then 1 else 0) \<and>
    engine_view e' G' = upd_queue loc (o_side x) (q_remove (o_order_id x)) (engine_view e G) \<and> book_step loc e e'"
proof -
  note M = midD [OF mid]
  from remove_order_book [OF mid_rep [OF mid b] i x mid_once [OF mid R] M(3) all_orders_in(2) M(8)]
  obtain rc b' ar' H U' where rm: "remove_order b (me_arena e) i = Some (rc, b', ar')" "book_rep ar' b' H"
    "owned (ar_levels ar') U'" "keys_kept (me_arena e) ar'"
    "arena_frame (book_orders (G loc)) (book_levels (G loc)) (me_arena e) ar'"
    "left_book i rc (G loc) H (all_levels G) U'"
    "book_view ar' H = (book_view (me_arena e) (G loc))
      (o_side x := q_remove (o_order_id x) (book_view (me_arena e) (G loc) (o_side x)))"
    "rc = (if \<exists>y\<in>set (book_view ar' H (o_side x)). o_price_cents y = o_price_cents x then 1 else 2)" by blast
  have rc: "rc \<in> {0, 1, 2}" "rc \<in> {1, 2}" unfolding rm(8) by simp_all
  have left: "if rc = 0 then H = G loc \<and> U' = all_levels G else left_book i rc (G loc) H (all_levels G) U'"
    using rm(6) rc(2) by auto
  from mid_left [where f = "\<lambda>b ar. remove_order b ar i", OF mid b i rm(1-5) left rc(1)] obtain e' G' where e':
    "on_book (\<lambda>b ar. remove_order b ar i) loc b e = Some (rc, e')" "engine_mid e' G' Q R no nl"
    "all_orders G' = (if rc = 0 then all_orders G else all_orders G - {i})"
    "card (all_levels G) = card (all_levels G') + (if rc = 2 then 1 else 0)"
    "engine_view e' G' = (engine_view e G)(loc := book_view ar' H)" "book_step loc e e'" by blast
  have "engine_view e' G' = upd_queue loc (o_side x) (q_remove (o_order_id x)) (engine_view e G)"
    unfolding e'(5) rm(7) by (simp add: upd_queue_def engine_view_def fun_eq_iff)
  with e' rc(2) show ?thesis by (intro exI [of _ rc] exI [of _ e'] exI [of _ G']) auto
qed

lemma mid_fill:
  assumes mid: "engine_mid e G Q R no nl" and b: "book_at e loc = Some b" and i: "i \<in> book_orders (G loc)"
    and x: "order_at (me_arena e) i x" and R: "book_orders (G loc) \<subseteq> R"
  shows "\<exists>rc e' G'. on_book (\<lambda>b ar. execute_order b ar i qty) loc b e = Some (rc, e') \<and>
    engine_mid e' G' Q R no nl \<and> rc \<in> {0, 1, 2} \<and>
    all_orders G' = (if rc = 0 then all_orders G else all_orders G - {i}) \<and>
    card (all_levels G) = card (all_levels G') + (if rc = 2 then 1 else 0) \<and>
    engine_view e' G' = upd_queue loc (o_side x) (q_fill (o_order_id x) qty) (engine_view e G) \<and> book_step loc e e'"
proof -
  note M = midD [OF mid]
  from execute_order_book [OF mid_rep [OF mid b] i x mid_once [OF mid R] M(3) all_orders_in(2) M(8), of qty]
  obtain rc b' ar' H U' where ex: "execute_order b (me_arena e) i qty = Some (rc, b', ar')" "book_rep ar' b' H"
    "owned (ar_levels ar') U'" "keys_kept (me_arena e) ar'"
    "arena_frame (book_orders (G loc)) (book_levels (G loc)) (me_arena e) ar'"
    "if rc = 0 then H = G loc \<and> U' = all_levels G else left_book i rc (G loc) H (all_levels G) U'"
    "book_view ar' H = (book_view (me_arena e) (G loc))
      (o_side x := q_fill (o_order_id x) qty (book_view (me_arena e) (G loc) (o_side x)))"
    "rc = (if qty < o_shares_remaining x then 0
      else if \<exists>y\<in>set (book_view ar' H (o_side x)). o_price_cents y = o_price_cents x then 1 else 2)" by blast
  have rc: "rc \<in> {0, 1, 2}" unfolding ex(8) by simp
  from mid_left [where f = "\<lambda>b ar. execute_order b ar i qty", OF mid b i ex(1-6) rc] obtain e' G' where e':
    "on_book (\<lambda>b ar. execute_order b ar i qty) loc b e = Some (rc, e')" "engine_mid e' G' Q R no nl"
    "all_orders G' = (if rc = 0 then all_orders G else all_orders G - {i})"
    "card (all_levels G) = card (all_levels G') + (if rc = 2 then 1 else 0)"
    "engine_view e' G' = (engine_view e G)(loc := book_view ar' H)" "book_step loc e e'" by blast
  have "engine_view e' G' = upd_queue loc (o_side x) (q_fill (o_order_id x) qty) (engine_view e G)"
    unfolding e'(5) ex(7) by (simp add: upd_queue_def engine_view_def fun_eq_iff)
  with e' rc show ?thesis by blast
qed

end
