(* ===== verification/Engine_Spec.thy ===== *)
theory Engine_Spec
  imports Engine_Steps
begin

text \<open>
  The abstract engine: for every instrument and side a queue of orders in price-time priority.
  Each event of the feed is a function of these queues and of the two pool capacities;
  \<open>engine_rep\<close> and \<open>engine_view\<close> relate it to the engine.
\<close>

section \<open>The abstract engine\<close>

type_synonym view = "StockLocate \<Rightarrow> Side \<Rightarrow> Order list"

definition v_sides :: "view \<Rightarrow> Order list list" where
  "v_sides V = concat (map (\<lambda>n. [V (of_nat n) Buy, V (of_nat n) Sell]) [0..<kMaxInstruments])"

definition v_all :: "view \<Rightarrow> Order list" where
  "v_all V = concat (v_sides V)"

definition v_find :: "view \<Rightarrow> OrderReferenceNumber \<Rightarrow> Order option" where
  "v_find V oid = List.find (\<lambda>y. o_order_id y = oid) (v_all V)"

definition q_prices :: "Order list \<Rightarrow> Price list" where
  "q_prices q = remdups (map o_price_cents q)"

definition v_levels :: "view \<Rightarrow> nat" where
  "v_levels V = sum_list (map (length \<circ> q_prices) (v_sides V))"

definition s_add :: "nat \<Rightarrow> nat \<Rightarrow> Order \<Rightarrow> view \<Rightarrow> view" where
  "s_add oc lc x V =
     (let q = V (o_locate x) (o_side x)
      in if v_find V (o_order_id x) \<noteq> None \<or> length (v_all V) = oc \<or>
            (o_price_cents x \<notin> set (q_prices q) \<and> v_levels V = lc)
         then V else upd_queue (o_locate x) (o_side x) (q_add x) V)"

definition s_fill :: "OrderReferenceNumber \<Rightarrow> Shares \<Rightarrow> view \<Rightarrow> view" where
  "s_fill oid qty V = (\<lambda>loc s. q_fill oid qty (V loc s))"

definition s_delete :: "OrderReferenceNumber \<Rightarrow> view \<Rightarrow> view" where
  "s_delete oid V = (\<lambda>loc s. q_remove oid (V loc s))"

text \<open>
  A replace takes the locate, side and attribution of the old order. The new order needs a
  slot while the old one still has its own, so a full order pool rejects it; a level pool
  that is full once the old order has left rejects the new order only.
\<close>

definition s_replace :: "nat \<Rightarrow> nat \<Rightarrow> OrderReferenceNumber \<Rightarrow> OrderReferenceNumber \<Rightarrow> Shares \<Rightarrow> Price \<Rightarrow>
    Timestamp \<Rightarrow> view \<Rightarrow> view" where
  "s_replace oc lc old new qty px ts V = (case v_find V old of
      None \<Rightarrow> V
    | Some y \<Rightarrow> if v_find V new \<noteq> None \<or> length (v_all V) = oc then V
        else s_add oc lc (Order_init new (o_locate y) px qty (o_side y) ts (o_mpid y)) (s_delete old V))"

definition s_cross :: "StockLocate \<Rightarrow> CrossType \<Rightarrow> view \<Rightarrow> view" where
  "s_cross loc xtype V = (if xtype = CrossType_Closing then V(loc := (\<lambda>_. [])) else V)"

lemma in_q_prices: "px \<in> set (q_prices q) \<longleftrightarrow> (\<exists>y\<in>set q. o_price_cents y = px)"
  by (auto simp: q_prices_def)

section \<open>All orders of a view\<close>

lemma kMax_locates: "x < kMaxInstruments \<Longrightarrow> unat (of_nat x :: StockLocate) = x"
  "unat (loc :: StockLocate) < kMaxInstruments"
proof -
  show "x < kMaxInstruments \<Longrightarrow> unat (of_nat x :: StockLocate) = x"
    by (simp add: kMaxInstruments_def unat_of_nat)
  show "unat (loc :: StockLocate) < kMaxInstruments"
    using unsigned_less [of loc, where 'a = nat] by (simp add: kMaxInstruments_def)
qed

lemma sum_locates: "(\<Sum>n\<leftarrow>[0..<kMaxInstruments]. f (of_nat n :: StockLocate)) = (\<Sum>loc\<in>UNIV. f loc)"
proof -
  have inj: "inj_on (of_nat :: nat \<Rightarrow> StockLocate) {0..<kMaxInstruments}"
    using kMax_locates(1) by (intro inj_on_inverseI [where g = unat]) simp
  have "of_nat ` {0..<kMaxInstruments} = (UNIV :: StockLocate set)"
  proof (intro equalityI subsetI UNIV_I)
    fix loc :: StockLocate
    show "loc \<in> of_nat ` {0..<kMaxInstruments}"
      using kMax_locates(2) [of loc] by (intro image_eqI [where x = "unat loc"]) simp_all
  qed
  then show ?thesis
    by (simp add: interv_sum_list_conv_sum_set_nat flip: sum.reindex [OF inj, unfolded o_def])
qed

lemma set_v_all: "set (v_all V) = (\<Union>loc s. set (V loc s))"
proof (intro equalityI subsetI)
  fix y assume "y \<in> (\<Union>loc s. set (V loc s))"
  then obtain loc s where y: "y \<in> set (V loc s)" by blast
  have "loc = of_nat (unat loc)" by simp
  moreover have "unat loc \<in> set [0..<kMaxInstruments]" using kMax_locates(2) by simp
  ultimately have "V loc s \<in> set (v_sides V)"
    unfolding v_sides_def by (cases s) (auto intro!: bexI [of _ "unat loc"])
  with y show "y \<in> set (v_all V)" by (auto simp: v_all_def)
qed (auto simp: v_all_def v_sides_def)

lemma length_v_all: "length (v_all V) = (\<Sum>loc\<in>UNIV. length (V loc Buy) + length (V loc Sell))"
proof -
  have "length (concat (concat (map (\<lambda>n. [V (of_nat n) Buy, V (of_nat n) Sell]) ns))) =
      (\<Sum>n\<leftarrow>ns. length (V (of_nat n) Buy) + length (V (of_nat n) Sell))" for ns :: "nat list"
    by (induction ns) simp_all
  then show ?thesis
    unfolding v_all_def v_sides_def by (simp add: sum_locates [of "\<lambda>l. length (V l Buy) + length (V l Sell)"])
qed

lemma v_levels_sum:
  "v_levels V = (\<Sum>loc\<in>UNIV. length (q_prices (V loc Buy)) + length (q_prices (V loc Sell)))"
proof -
  have "sum_list (map (length \<circ> q_prices) (concat (map (\<lambda>n. [V (of_nat n) Buy, V (of_nat n) Sell]) ns))) =
      (\<Sum>n\<leftarrow>ns. length (q_prices (V (of_nat n) Buy)) + length (q_prices (V (of_nat n) Sell)))" for ns :: "nat list"
    by (induction ns) simp_all
  then show ?thesis
    unfolding v_levels_def v_sides_def
    by (simp add: sum_locates [of "\<lambda>l. length (q_prices (V l Buy)) + length (q_prices (V l Sell))"])
qed

lemma v_find_None: "v_find V oid = None \<longleftrightarrow> (\<forall>loc s. oid \<notin> o_order_id ` set (V loc s))"
  unfolding v_find_def find_None_iff set_v_all by auto

lemma v_find_Some:
  assumes "y \<in> set (V loc s)" "o_order_id y = oid"
    and "\<And>l t z. z \<in> set (V l t) \<Longrightarrow> o_order_id z = oid \<Longrightarrow> z = y"
  shows "v_find V oid = Some y"
proof -
  have "v_find V oid \<noteq> None" using assms(1,2) by (auto simp: v_find_None)
  then obtain z where z: "v_find V oid = Some z" by blast
  then have "z \<in> set (v_all V)" "o_order_id z = oid"
    unfolding v_find_def find_Some_iff by (auto simp: set_conv_nth)
  with assms(3) z show ?thesis by (auto simp: set_v_all)
qed

section \<open>The view of an engine\<close>

definition engine_caps :: "MatchingEngine \<Rightarrow> nat \<times> nat" where
  "engine_caps e = (mp_capacity (ar_orders (me_arena e)), mp_capacity (ar_levels (me_arena e)))"

lemma engine_caps_bump [simp]: "engine_caps (bump f e) = engine_caps e"
  by (simp add: engine_caps_def)

lemma engine_repD: "engine_rep e G \<Longrightarrow>
   engine_mid e G (all_orders G) (all_orders G) (card (all_orders G)) (card (all_levels G))"
  by (simp add: engine_rep_def)

lemma mid_side: "engine_mid e G Q R no nl \<Longrightarrow> side_mem (me_arena e) s (G loc s)"
proof (cases "book_at e loc")
  case (Some b)
  moreover assume "engine_mid e G Q R no nl"
  ultimately show ?thesis using mid_rep book_rep_side by blast
next
  case None
  moreover assume "engine_mid e G Q R no nl"
  ultimately have "G loc = (\<lambda>_. [])" using books_okD(2) midD(1) by blast
  then show ?thesis by (simp add: side_mem_def)
qed

lemma view_order:
  assumes mid: "engine_mid e G Q R no nl" and y: "y \<in> set (engine_view e G loc s)"
  shows "\<exists>i x. i \<in> book_orders (G loc) \<and> i \<in> all_orders G \<and> order_at (me_arena e) i x \<and> y = o_data x \<and>
    o_locate x = loc \<and> o_side x = s"
proof -
  from y obtain i where i: "i \<in> set (orders_of (G loc s))" "y = data_at (me_arena e) i"
    by (auto simp: engine_view_def book_view_def)
  from side_order [OF mid_side [OF mid] i(1)] obtain x where x: "order_at (me_arena e) i x" "o_side x = s" by blast
  have mem: "i \<in> book_orders (G loc)" "i \<in> all_orders G" using i(1) side_subset(1) all_orders_in(1) by blast+
  from books_okD(3) [OF midD(1) [OF mid] mem(1)] have "o_locate x = loc"
    using order_at_unique [OF x(1)] by blast
  with mem x i(2) show ?thesis by (auto simp: data_at_order)
qed

lemma order_view:
  assumes mid: "engine_mid e G Q R no nl" and i: "i \<in> all_orders G" "order_at (me_arena e) i x"
  shows "o_data x \<in> set (engine_view e G (o_locate x) (o_side x))" "i \<in> book_orders (G (o_locate x))"
    "\<exists>b. book_at e (o_locate x) = Some b"
proof -
  from i(1) obtain loc where loc: "i \<in> book_orders (G loc)" by (auto simp: all_orders_def)
  then have l: "o_locate x = loc" using books_okD(3) [OF midD(1) [OF mid]] order_at_unique [OF i(2)] by blast
  from loc obtain s where s: "i \<in> set (orders_of (G loc s))" by (auto simp: book_orders_def)
  from side_order [OF mid_side [OF mid] this] have "o_side x = s" using order_at_unique [OF i(2)] by blast
  with s l show "o_data x \<in> set (engine_view e G (o_locate x) (o_side x))"
    by (auto simp: engine_view_def book_view_def data_at_order [OF i(2), symmetric])
  show "i \<in> book_orders (G (o_locate x))" "\<exists>b. book_at e (o_locate x) = Some b"
    using loc l book_of_order [OF midD(1) [OF mid]] by auto
qed

lemma mid_view_find:
  assumes mid: "engine_mid e G Q R no nl" and R: "R = all_orders G"
  shows "ix_content (me_arena e) (me_index e) oid = None \<Longrightarrow> v_find (engine_view e G) oid = None"
    and "i \<in> R \<Longrightarrow> order_at (me_arena e) i x \<Longrightarrow> v_find (engine_view e G) (o_order_id x) = Some (o_data x)"
proof -
  show "v_find (engine_view e G) oid = None" if none: "ix_content (me_arena e) (me_index e) oid = None"
  proof -
    have "o_order_id y \<noteq> oid" if "y \<in> set (engine_view e G loc s)" for loc s y
    proof
      assume oid: "o_order_id y = oid"
      from view_order [OF mid that] obtain i x where
        "i \<in> all_orders G" "order_at (me_arena e) i x" "y = o_data x" by blast
      then have "ix_content (me_arena e) (me_index e) oid = Some i"
        unfolding mid_found [OF mid] using oid R by auto
      with none show False by simp
    qed
    then show ?thesis by (auto simp: v_find_None)
  qed
  show "v_find (engine_view e G) (o_order_id x) = Some (o_data x)" if i: "i \<in> R" "order_at (me_arena e) i x"
  proof (rule v_find_Some)
    show "o_data x \<in> set (engine_view e G (o_locate x) (o_side x))"
      using order_view(1) [OF mid _ i(2)] i(1) R by blast
    fix l t z assume z: "z \<in> set (engine_view e G l t)" "o_order_id z = o_order_id x"
    from view_order [OF mid z(1)] obtain j y where j: "j \<in> all_orders G" "order_at (me_arena e) j y" "z = o_data y"
      by blast
    then have "j = i" using index_unique [OF midD(4) [OF mid] _ i(1) j(2) i(2)] z(2) R by simp
    with j i(2) show "z = o_data x" using order_at_unique by blast
  qed simp
qed

text \<open>The queue of an order is the only one an event on its reference number changes.\<close>

lemma upd_queue_only:
  assumes "\<And>l t. l \<noteq> loc \<or> t \<noteq> s \<Longrightarrow> f (V l t) = V l t"
  shows "upd_queue loc s f V = (\<lambda>l t. f (V l t))"
proof (intro ext)
  fix l t show "upd_queue loc s f V l t = f (V l t)"
    using assms [of l t] by (cases "l = loc"; cases "t = s") (simp_all add: upd_queue_def)
qed

lemma mid_only_queue:
  assumes mid: "engine_mid e G Q R no nl" and R: "R = all_orders G" and i: "i \<in> R" "order_at (me_arena e) i x"
  shows "upd_queue (o_locate x) (o_side x) (q_fill (o_order_id x) qty) (engine_view e G) =
      s_fill (o_order_id x) qty (engine_view e G)"
    and "upd_queue (o_locate x) (o_side x) (q_remove (o_order_id x)) (engine_view e G) =
      s_delete (o_order_id x) (engine_view e G)"
proof -
  have absent: "o_order_id x \<notin> o_order_id ` set (engine_view e G l t)" if "l \<noteq> o_locate x \<or> t \<noteq> o_side x" for l t
  proof
    assume "o_order_id x \<in> o_order_id ` set (engine_view e G l t)"
    then obtain z where z: "z \<in> set (engine_view e G l t)" "o_order_id z = o_order_id x" by force
    from view_order [OF mid z(1)] obtain j y where j: "j \<in> all_orders G" "order_at (me_arena e) j y"
      "z = o_data y" "o_locate y = l" "o_side y = t" by blast
    then have "j = i" using index_unique [OF midD(4) [OF mid] _ i(1) j(2) i(2)] z(2) R by simp
    with j(2,4,5) that i(2) show False using order_at_unique by blast
  qed
  show "upd_queue (o_locate x) (o_side x) (q_fill (o_order_id x) qty) (engine_view e G) =
      s_fill (o_order_id x) qty (engine_view e G)"
    unfolding s_fill_def by (rule upd_queue_only) (rule q_fill_absent [OF absent])
  show "upd_queue (o_locate x) (o_side x) (q_remove (o_order_id x)) (engine_view e G) =
      s_delete (o_order_id x) (engine_view e G)"
    unfolding s_delete_def by (rule upd_queue_only) (rule q_remove_absent [OF absent])
qed

lemma s_absent:
  assumes "v_find V oid = None"
  shows "s_fill oid qty V = V" "s_delete oid V = V"
  using assms by (auto simp: s_fill_def s_delete_def v_find_None q_fill_absent q_remove_absent fun_eq_iff)

section \<open>The sizes of a view\<close>

lemma card_UN_locates:
  assumes "\<And>l l'. l \<noteq> l' \<Longrightarrow> A l \<inter> A l' = {}" "\<And>l. finite (A l)"
  shows "card (\<Union>l. A l) = (\<Sum>l\<in>(UNIV :: StockLocate set). card (A l))"
  using assms by (intro card_UN_disjoint) auto

lemma view_size:
  assumes mid: "engine_mid e G Q R no nl"
  shows "length (v_all (engine_view e G)) = card (all_orders G)"
proof -
  have "card (book_orders (G l)) = length (engine_view e G l Buy) + length (engine_view e G l Sell)" for l
  proof -
    have dis: "distinct (orders_of (G l Buy) @ orders_of (G l Sell))"
      using side_orders_distinct [OF mid_side [OF mid]] sides_disjoint(1) [OF mid_side [OF mid] mid_side [OF mid], of Buy Sell]
      by simp
    have "card (book_orders (G l)) = length (orders_of (G l Buy) @ orders_of (G l Sell))"
      using distinct_card [OF dis] by (simp add: book_orders_def)
    then show ?thesis by (simp add: engine_view_def book_view_def)
  qed
  moreover have "card (all_orders G) = (\<Sum>l\<in>UNIV. card (book_orders (G l)))"
    unfolding all_orders_def by (rule card_UN_locates) (use mid_apart(1) [OF mid] in \<open>auto simp: book_orders_def\<close>)
  ultimately show ?thesis by (simp add: length_v_all)
qed

lemma view_prices:
  assumes mid: "engine_mid e G Q R no nl"
  shows "set (q_prices (engine_view e G l s)) = set (prices_of (G l s))"
    "length (q_prices (engine_view e G l s)) = length (G l s)"
proof -
  show eq: "set (q_prices (engine_view e G l s)) = set (prices_of (G l s))"
  proof (cases "book_at e l")
    case (Some b)
    from price_in_view [OF mid_rep [OF mid Some]] show ?thesis by (auto simp: q_prices_def engine_view_def)
  next
    case None
    then have "G l = (\<lambda>_. [])" using books_okD(2) midD(1) [OF mid] by blast
    then show ?thesis by (simp add: q_prices_def engine_view_def book_view_def)
  qed
  have "distinct (prices_of (G l s))" using side_memD(4) [OF mid_side [OF mid]] .
  from distinct_card [OF this] have "length (prices_of (G l s)) = card (set (q_prices (engine_view e G l s)))"
    by (simp add: eq)
  also have "\<dots> = length (q_prices (engine_view e G l s))" by (rule distinct_card) (simp add: q_prices_def)
  finally show "length (q_prices (engine_view e G l s)) = length (G l s)" by (simp add: prices_of_def)
qed

lemma view_levels:
  assumes mid: "engine_mid e G Q R no nl"
  shows "v_levels (engine_view e G) = card (all_levels G)"
proof -
  have "card (book_levels (G l)) = length (G l Buy) + length (G l Sell)" for l
  proof -
    have dis: "distinct (levels_of (G l Buy) @ levels_of (G l Sell))"
      using side_memD(1) [OF mid_side [OF mid]] sides_disjoint(2) [OF mid_side [OF mid] mid_side [OF mid], of Buy Sell]
      by simp
    have "card (book_levels (G l)) = length (levels_of (G l Buy) @ levels_of (G l Sell))"
      using distinct_card [OF dis] by (simp add: book_levels_def)
    then show ?thesis by (simp add: levels_of_def)
  qed
  moreover have "card (all_levels G) = (\<Sum>l\<in>UNIV. card (book_levels (G l)))"
    unfolding all_levels_def by (rule card_UN_locates) (use mid_apart(2) [OF mid] in \<open>auto simp: book_levels_def\<close>)
  ultimately show ?thesis by (simp add: v_levels_sum view_prices(2) [OF mid])
qed

end
