(* ===== verification/Engine_Ledger.thy ===== *)
theory Engine_Ledger
  imports Engine_Spec
begin

text \<open>
  What the engine records beside the queues: its counters and the reference data of the instruments.
  The ledger of an engine is their abstraction, without the live counters, which the queues determine,
  and without the books. Each event has an effect on the ledger that depends on the queues alone: which
  counter it bumps, and which instrument it writes.
\<close>

section \<open>The ledger of an engine\<close>

type_synonym refs = "StockLocate \<Rightarrow> Instrument option"
type_synonym ledger = "EngineStats \<times> refs"

definition counters :: "EngineStats \<Rightarrow> EngineStats" where
  "counters s = s\<lparr>st_live_orders := 0, st_live_levels := 0\<rparr>"

definition no_book :: "Instrument \<Rightarrow> Instrument" where
  "no_book inst = inst\<lparr>in_book := None\<rparr>"

definition ref_data :: "MatchingEngine \<Rightarrow> refs" where
  "ref_data e loc = map_option no_book (im_at (me_instruments e) loc)"

definition ledger :: "MatchingEngine \<Rightarrow> ledger" where
  "ledger e = (counters (me_stats e), ref_data e)"

text \<open>The peaks after an event, from the queues it leads to.\<close>

definition raise_peaks :: "view \<Rightarrow> EngineStats \<Rightarrow> EngineStats" where
  "raise_peaks V s = s\<lparr>st_peak_live_orders := max (st_peak_live_orders s) (of_nat (length (v_all V))),
     st_peak_live_levels := max (st_peak_live_levels s) (of_nat (v_levels V))\<rparr>"

section \<open>The effect of the events\<close>

text \<open>No level of a side has the price, and every level is in use.\<close>

definition no_level_for :: "nat \<Rightarrow> Price \<Rightarrow> StockLocate \<Rightarrow> Side \<Rightarrow> view \<Rightarrow> bool" where
  "no_level_for lc px loc sd V \<longleftrightarrow> px \<notin> set (q_prices (V loc sd)) \<and> v_levels V = lc"

definition count_add :: "nat \<Rightarrow> nat \<Rightarrow> Order \<Rightarrow> bool \<Rightarrow> view \<Rightarrow> EngineStats \<Rightarrow> EngineStats" where
  "count_add oc lc x attributed V s =
     (if v_find V (o_order_id x) \<noteq> None then inc_unknown (inc_duplicate s)
      else if length (v_all V) = oc
      then inc_pool_exhausted (s\<lparr>st_add_rejected_pool_exhausted := st_add_rejected_pool_exhausted s + 1\<rparr>)
      else if no_level_for lc (o_price_cents x) (o_locate x) (o_side x) V then inc_pool_exhausted (inc_level_pool_exhausted s)
      else if attributed then s\<lparr>st_add_orders_with_mpid := st_add_orders_with_mpid s + 1\<rparr>
      else s\<lparr>st_add_orders := st_add_orders s + 1\<rparr>)"

text \<open>An event on a live order, with a locate that may not be the order's own.\<close>

definition count_known :: "(EngineStats \<Rightarrow> EngineStats) \<Rightarrow> StockLocate \<Rightarrow> OrderReferenceNumber \<Rightarrow> view \<Rightarrow> EngineStats \<Rightarrow> EngineStats" where
  "count_known accepted loc oid V s = (case v_find V oid of
      None \<Rightarrow> inc_unknown s
    | Some y \<Rightarrow> accepted (if o_locate y \<noteq> loc then inc_mismatch s else s))"

definition count_replace :: "nat \<Rightarrow> nat \<Rightarrow> StockLocate \<Rightarrow> OrderReferenceNumber \<Rightarrow> OrderReferenceNumber \<Rightarrow> Price \<Rightarrow> view \<Rightarrow> EngineStats \<Rightarrow> EngineStats" where
  "count_replace oc lc loc old new px V = count_known (\<lambda>s.
     if v_find V new \<noteq> None then inc_unknown (inc_duplicate s)
     else if length (v_all V) = oc
     then inc_pool_exhausted (s\<lparr>st_replace_rejected_pool_exhausted := st_replace_rejected_pool_exhausted s + 1\<rparr>)
     else (case v_find V old of None \<Rightarrow> s | Some y \<Rightarrow>
       if no_level_for lc px (o_locate y) (o_side y) (s_delete old V) then inc_pool_exhausted (inc_level_pool_exhausted s)
       else s\<lparr>st_order_replace := st_order_replace s + 1\<rparr>)) loc old V"

text \<open>The instrument at a locate; a directory message or an add creates it when there is none.\<close>

definition ref_get :: "StockLocate \<Rightarrow> refs \<Rightarrow> Instrument" where
  "ref_get loc R = (case R loc of Some inst \<Rightarrow> inst | None \<Rightarrow> Instrument_init\<lparr>in_locate := loc\<rparr>)"

definition ref_update :: "StockLocate \<Rightarrow> (Instrument \<Rightarrow> Instrument) \<Rightarrow> refs \<Rightarrow> refs" where
  "ref_update loc f R = R(loc := map_option f (R loc))"

definition describe :: "byte list \<Rightarrow> MarketCategory \<Rightarrow> FinancialStatusIndicator \<Rightarrow> RoundLotSize \<Rightarrow> RoundLotsOnly \<Rightarrow>
    Authenticity \<Rightarrow> ShortScaleThresholdIndicator \<Rightarrow> IPOFlag \<Rightarrow> LULDReferencePriceTier \<Rightarrow> ETPFlag \<Rightarrow> ETPLeverageFactor \<Rightarrow>
    InverseIndicator \<Rightarrow> Instrument \<Rightarrow> Instrument" where
  "describe symbol mc fsi rls rlo auth ssti ipo luld etp elf invi inst = inst\<lparr>in_symbol := take 8 symbol,
     in_marketCategory := mc, in_financialStatus := fsi, in_roundLotSize := rls, in_roundLotsOnly := rlo,
     in_authenticity := auth, in_shortScale := ssti, in_ipoFlag := ipo, in_luldTier := luld, in_etpFlag := etp,
     in_etpLeverageFactor := elf, in_inverseIndicator := invi\<rparr>"

section \<open>Counters that are not about live orders\<close>

definition plain :: "(EngineStats \<Rightarrow> EngineStats) \<Rightarrow> bool" where
  "plain f \<longleftrightarrow> live_same f \<and> (\<forall>s. counters (f s) = f (counters s)) \<and> (\<forall>V s. raise_peaks V (f s) = f (raise_peaks V s))"

lemma plainD: "plain f \<Longrightarrow> live_same f" "plain f \<Longrightarrow> counters (f s) = f (counters s)"
  "plain f \<Longrightarrow> raise_peaks V (f s) = f (raise_peaks V s)"
  by (simp_all add: plain_def)

lemma plain_comp [simp]: "plain f \<Longrightarrow> plain g \<Longrightarrow> plain (f \<circ> g)"
  by (simp add: plain_def)

lemma plain_incs [simp]:
  "plain inc_unknown" "plain inc_duplicate" "plain inc_mismatch" "plain inc_level_missing"
  "plain inc_pool_exhausted" "plain inc_level_pool_exhausted"
  by (simp_all add: plain_def counters_def raise_peaks_def inc_unknown_def inc_duplicate_def inc_mismatch_def inc_level_missing_def
      inc_pool_exhausted_def inc_level_pool_exhausted_def)

lemma plain_counts [simp]:
  "plain (\<lambda>s. s\<lparr>st_order_executed := st_order_executed s + 1\<rparr>)"
  "plain (\<lambda>s. s\<lparr>st_order_executed_with_price := st_order_executed_with_price s + 1\<rparr>)"
  "plain (\<lambda>s. s\<lparr>st_order_cancel := st_order_cancel s + 1\<rparr>)"
  "plain (\<lambda>s. s\<lparr>st_order_delete := st_order_delete s + 1\<rparr>)"
  "plain (\<lambda>s. s\<lparr>st_order_replace := st_order_replace s + 1\<rparr>)"
  "plain (\<lambda>s. s\<lparr>st_add_orders := st_add_orders s + 1\<rparr>)"
  "plain (\<lambda>s. s\<lparr>st_add_orders_with_mpid := st_add_orders_with_mpid s + 1\<rparr>)"
  "plain (\<lambda>s. s\<lparr>st_cross_trades := st_cross_trades s + 1\<rparr>)"
  "plain (\<lambda>s. s\<lparr>st_non_cross_trades := st_non_cross_trades s + 1\<rparr>)"
  "plain (\<lambda>s. s\<lparr>st_broken_trades := st_broken_trades s + 1\<rparr>)"
  "plain (\<lambda>s. s\<lparr>st_instruments_registered := st_instruments_registered s + 1\<rparr>)"
  "plain (\<lambda>s. inc_pool_exhausted (s\<lparr>st_add_rejected_pool_exhausted := st_add_rejected_pool_exhausted s + 1\<rparr>))"
  "plain (\<lambda>s. inc_pool_exhausted (s\<lparr>st_replace_rejected_pool_exhausted := st_replace_rejected_pool_exhausted s + 1\<rparr>))"
  by (simp_all add: plain_def counters_def raise_peaks_def live_same_def inc_pool_exhausted_def)

section \<open>Live counters and peaks\<close>

lemma counters_live [simp]:
  "counters (dec_live_orders s) = counters s" "counters (dec_live_levels s) = counters s" "counters (sub_live n m s) = counters s"
  by (simp_all add: counters_def dec_live_orders_def dec_live_levels_def sub_live_def Let_def)

lemma raise_peaks_inc:
  "st_live_orders s + 1 = of_nat (length (v_all V)) \<Longrightarrow> raise_peaks V (counters (inc_live_orders s)) = raise_peaks V (counters s)"
  "st_live_levels s + 1 = of_nat (v_levels V) \<Longrightarrow> raise_peaks V (counters (inc_live_levels s)) = raise_peaks V (counters s)"
  by (auto simp: raise_peaks_def counters_def inc_live_orders_def inc_live_levels_def Let_def max_def)

text \<open>Between events the peaks are at least what is live, so that only an event that adds can raise them.\<close>

lemma raise_peaks_own:
  assumes "engine_mid e G Q R (card (all_orders G)) (card (all_levels G))"
  shows "raise_peaks (engine_view e G) (counters (me_stats e)) = counters (me_stats e)"
proof -
  have "stats_ok (me_stats e) (length (v_all (engine_view e G))) (v_levels (engine_view e G))"
    using midD(7) [OF assms] view_size [OF assms] view_levels [OF assms] by simp
  then have "max (st_peak_live_orders (me_stats e)) (of_nat (length (v_all (engine_view e G)))) = st_peak_live_orders (me_stats e)"
    "max (st_peak_live_levels (me_stats e)) (of_nat (v_levels (engine_view e G))) = st_peak_live_levels (me_stats e)"
    unfolding stats_ok_def by (metis max.absorb1)+
  then show ?thesis unfolding raise_peaks_def counters_def by (cases "me_stats e") simp
qed

section \<open>What keeps the ledger\<close>

lemma ref_data_cong: "me_instruments e' = me_instruments e \<Longrightarrow> ref_data e' = ref_data e"
  by (simp add: ref_data_def fun_eq_iff)

lemma ref_data_sel [simp]:
  "ref_data (e\<lparr>me_arena := ar\<rparr>) = ref_data e" "ref_data (e\<lparr>me_index := ix\<rparr>) = ref_data e" "ref_data (bump f e) = ref_data e"
  "ref_data (put_book loc b e) = ref_data e"
  by (auto simp: ref_data_def fun_eq_iff put_book_def im_at_def im_put_def no_book_def split: option.splits)

lemma ledger_frame:
  "on_book f loc b e = Some (rc, e') \<Longrightarrow> me_stats e' = me_stats e \<and> ref_data e' = ref_data e"
  "index_erase e oid = Some e' \<Longrightarrow> me_stats e' = me_stats e \<and> ref_data e' = ref_data e"
  "release_order e i = Some e' \<Longrightarrow> me_stats e' = me_stats e \<and> ref_data e' = ref_data e"
  "construct_order e i x = Some e' \<Longrightarrow> me_stats e' = me_stats e \<and> ref_data e' = ref_data e"
  "acquire_order e = Some (q, e') \<Longrightarrow> me_stats e' = me_stats e \<and> ref_data e' = ref_data e"
  by (auto simp: on_book_def index_erase_def release_order_def construct_order_def acquire_order_def split: Option.bind_splits prod.splits)

lemma no_book_ensure: "no_book (ensure_book inst) = no_book inst"
  by (simp add: no_book_def ensure_book_def split: option.splits)

lemma ref_data_put:
  assumes "get_or_create (me_instruments e) loc = (inst, im)"
  shows "ref_data (e\<lparr>me_instruments := im_put im loc inst'\<rparr>) = (ref_data e)(loc := Some (no_book inst'))"
    "no_book inst = ref_get loc (ref_data e)"
proof -
  have "im_slots im l = im_slots (me_instruments e) l" if "l \<noteq> loc" for l
    using assms that get_or_create_other [of l loc "me_instruments e"] by simp
  then show "ref_data (e\<lparr>me_instruments := im_put im loc inst'\<rparr>) = (ref_data e)(loc := Some (no_book inst'))"
    by (simp add: ref_data_def im_put_def im_at_def fun_eq_iff)
  show "no_book inst = ref_get loc (ref_data e)"
  proof (cases "im_slots (me_instruments e) loc")
    case None
    with assms have "inst = Instrument_init\<lparr>in_locate := loc\<rparr>" by (simp add: get_or_create_def Let_def)
    then show ?thesis using None by (simp add: ref_data_def ref_get_def im_at_def no_book_def Instrument_init_def)
  next
    case (Some i)
    with assms show ?thesis by (simp add: get_or_create_def ref_data_def ref_get_def im_at_def)
  qed
qed

end
