(* ===== verification/Engine_Handlers.thy ===== *)
theory Engine_Handlers
  imports Engine_Ledger
begin

text \<open>
  Every handler of \<open>MatchingEngine\<close> acts on the queues as the abstract engine does and on the ledger as
  the queues tell, keeps the invariant and the pool capacities, and never runs into undefined behaviour.
\<close>

definition simulates :: "MatchingEngine exec \<Rightarrow> (nat \<times> nat) \<Rightarrow> view \<Rightarrow> ledger \<Rightarrow> bool" where
  "simulates r caps V l \<longleftrightarrow> (\<exists>e' G'. r = Some e' \<and> engine_rep e' G' \<and> engine_view e' G' = V \<and> engine_caps e' = caps \<and> ledger e' = l)"

text \<open>The peaks come out right by themselves, and only what raises them needs to be looked at.\<close>

lemma simulatesI:
  assumes "r = Some e'" "engine_mid e' G' (all_orders G') (all_orders G') (card (all_orders G')) (card (all_levels G'))"
    "engine_view e' G' = V" "engine_caps e' = caps"
    "raise_peaks V (counters (me_stats e')) = raise_peaks V c" "ref_data e' = R"
  shows "simulates r caps V (raise_peaks V c, R)"
  using assms raise_peaks_own [OF assms(2)] unfolding simulates_def engine_rep_def ledger_def by auto

lemma simulates_bump:
  assumes "engine_rep e G" "plain f" "V = engine_view e G"
  shows "simulates (Some (bump f e)) (engine_caps e) V (raise_peaks V (f (counters (me_stats e))), ref_data e)"
  using assms(3) plainD [OF assms(2)] by (intro simulatesI [OF refl mid_bump_same [OF engine_repD [OF assms(1)]]]) simp_all

lemma live_same_counters [simp]:
  "live_same (\<lambda>s. s\<lparr>st_order_executed := st_order_executed s + 1\<rparr>)"
  "live_same (\<lambda>s. s\<lparr>st_order_executed_with_price := st_order_executed_with_price s + 1\<rparr>)"
  "live_same (\<lambda>s. s\<lparr>st_order_cancel := st_order_cancel s + 1\<rparr>)"
  "live_same (\<lambda>s. s\<lparr>st_order_delete := st_order_delete s + 1\<rparr>)"
  "live_same (\<lambda>s. s\<lparr>st_order_replace := st_order_replace s + 1\<rparr>)"
  "live_same (\<lambda>s. s\<lparr>st_add_orders := st_add_orders s + 1\<rparr>)"
  "live_same (\<lambda>s. s\<lparr>st_add_orders_with_mpid := st_add_orders_with_mpid s + 1\<rparr>)"
  "live_same (\<lambda>s. s\<lparr>st_cross_trades := st_cross_trades s + 1\<rparr>)"
  "live_same (\<lambda>s. s\<lparr>st_non_cross_trades := st_non_cross_trades s + 1\<rparr>)"
  "live_same (\<lambda>s. s\<lparr>st_broken_trades := st_broken_trades s + 1\<rparr>)"
  "live_same (\<lambda>s. s\<lparr>st_instruments_registered := st_instruments_registered s + 1\<rparr>)"
  "live_same (\<lambda>s. inc_pool_exhausted (s\<lparr>st_add_rejected_pool_exhausted := st_add_rejected_pool_exhausted s + 1\<rparr>))"
  "live_same (\<lambda>s. inc_pool_exhausted (s\<lparr>st_replace_rejected_pool_exhausted := st_replace_rejected_pool_exhausted s + 1\<rparr>))"
  by (simp_all add: live_same_def inc_pool_exhausted_def)

section \<open>The parts the handlers share\<close>

text \<open>Correcting the locate from the order found.\<close>

definition corrected :: "StockLocate \<Rightarrow> Order \<Rightarrow> MatchingEngine \<Rightarrow> MatchingEngine" where
  "corrected loc x e = (if o_locate x \<noteq> loc then bump inc_mismatch e else e)"

lemma corrected_sel [simp]:
  "me_arena (corrected loc x e) = me_arena e" "me_index (corrected loc x e) = me_index e"
  "engine_view (corrected loc x e) = engine_view e" "book_at (corrected loc x e) = book_at e"
  "engine_caps (corrected loc x e) = engine_caps e" "ref_data (corrected loc x e) = ref_data e"
  "me_stats (corrected loc x e) = (if o_locate x \<noteq> loc then inc_mismatch (me_stats e) else me_stats e)"
  by (simp_all add: corrected_def)

lemma corrected_mid: "engine_mid e G Q R no nl \<Longrightarrow> engine_mid (corrected loc x e) G Q R no nl"
  by (simp add: corrected_def mid_bump_same)

lemma corrected_loc: "(if o_locate x \<noteq> loc then o_locate x else loc) = o_locate x"
  by simp

text \<open>An order that was found.\<close>

lemma rep_found:
  assumes rep: "engine_rep e G" and found: "ix_content (me_arena e) (me_index e) oid = Some i"
  shows "\<exists>x b. i \<in> all_orders G \<and> order_at (me_arena e) i x \<and> o_order_id x = oid \<and>
    get_order (me_arena e) i = Some x \<and> book_at e (o_locate x) = Some b \<and>
    i \<in> book_orders (G (o_locate x)) \<and> v_find (engine_view e G) oid = Some (o_data x)"
proof -
  note mid = engine_repD [OF rep]
  from found obtain x where x: "i \<in> all_orders G" "order_at (me_arena e) i x" "o_order_id x = oid"
    unfolding mid_found [OF mid] by blast
  with order_view(2,3) [OF mid x(1,2)] mid_view_find(2) [OF mid refl x(1,2)] show ?thesis
    by (auto simp: exec_simps)
qed

text \<open>An order that left its book: out of the index and back to the pool.\<close>

lemma mid_dec:
  "engine_mid e G Q R (Suc no) nl \<Longrightarrow> Suc no < 2 ^ 64 \<Longrightarrow> engine_mid (bump dec_live_orders e) G Q R no nl"
  "engine_mid e G Q R no (Suc nl) \<Longrightarrow> Suc nl < 2 ^ 64 \<Longrightarrow> engine_mid (bump dec_live_levels e) G Q R no nl"
  by (rule mid_bump; auto intro: stats_dec stats_dec_levels dest: midD(7))+

lemma mid_inc:
  "engine_mid e G Q R no nl \<Longrightarrow> engine_mid (bump inc_live_orders e) G Q R (Suc no) nl"
  "engine_mid e G Q R no nl \<Longrightarrow> engine_mid (bump inc_live_levels e) G Q R no (Suc nl)"
  by (rule mid_bump; auto intro: stats_inc dest: midD(7))+

definition after_drop :: "int \<Rightarrow> MatchingEngine \<Rightarrow> MatchingEngine" where
  "after_drop rc e = (if rc = 2 then bump dec_live_levels (bump dec_live_orders e) else bump dec_live_orders e)"

lemma after_drop_ledger [simp]: "counters (me_stats (after_drop rc e)) = counters (me_stats e)" "ref_data (after_drop rc e) = ref_data e"
  by (simp_all add: after_drop_def)

lemma count_known_some:
  assumes "v_find V oid = Some (o_data x)" "plain accepted"
  shows "count_known accepted loc oid V (counters s) = counters (accepted (if o_locate x \<noteq> loc then inc_mismatch s else s))"
  using assms plainD(2) [OF plain_incs(3)] by (simp add: count_known_def plainD(2) o_data_keys)

lemma count_known_none: "v_find V oid = None \<Longrightarrow> count_known accepted loc oid V = inc_unknown"
  by (simp add: count_known_def fun_eq_iff)

lemma mid_bounds:
  assumes "engine_mid e G Q R no nl"
  shows "card Q < 2 ^ 64" "card (all_levels G) < 2 ^ 64" "card Q \<le> mp_capacity (ar_orders (me_arena e))"
    "card (all_levels G) \<le> mp_capacity (ar_levels (me_arena e))"
  using midD(2,3,8,9) [OF assms] pool.own_card by fastforce+

lemma drop_ok:
  assumes mid: "engine_mid e G Q R (Suc no) (nl + (if rc = 2 then 1 else 0))"
    and i: "i \<in> R" "i \<notin> all_orders G" "order_at (me_arena e) i x"
    and bounds: "Suc no < 2 ^ 64" "Suc nl < 2 ^ 64 \<or> rc \<noteq> 2"
  shows "\<exists>e1 e2. index_erase e (o_order_id x) = Some e1 \<and> release_order e1 i = Some e2 \<and>
    engine_mid (after_drop rc e2) G (Q - {i}) (R - {i}) no nl \<and>
    engine_view (after_drop rc e2) G = engine_view e G \<and> engine_caps (after_drop rc e2) = engine_caps e \<and>
    me_instruments (after_drop rc e2) = me_instruments e \<and>
    (\<forall>j. j \<noteq> i \<longrightarrow> ord (me_arena (after_drop rc e2)) j = ord (me_arena e) j)"
proof -
  from mid_erase [OF mid i(1,3)] obtain e1 where e1: "index_erase e (o_order_id x) = Some e1"
    "engine_mid e1 G Q (R - {i}) (Suc no) (nl + (if rc = 2 then 1 else 0))" "engine_view e1 G = engine_view e G"
    "me_instruments e1 = me_instruments e" "me_arena e1 = me_arena e" by blast
  have "i \<in> Q" "i \<notin> R - {i}" using i(1) midD(6) [OF mid] by auto
  from mid_release [OF e1(2) this(1) i(2) this(2)] obtain e2 where e2: "release_order e1 i = Some e2"
    "engine_mid e2 G (Q - {i}) (R - {i}) (Suc no) (nl + (if rc = 2 then 1 else 0))"
    "engine_view e2 G = engine_view e1 G" "me_instruments e2 = me_instruments e1"
    "ar_levels (me_arena e2) = ar_levels (me_arena e1)"
    "mp_capacity (ar_orders (me_arena e2)) = mp_capacity (ar_orders (me_arena e1))"
    "\<forall>j. j \<noteq> i \<longrightarrow> ord (me_arena e2) j = ord (me_arena e1) j" by blast
  have "engine_mid (bump dec_live_orders e2) G (Q - {i}) (R - {i}) no (nl + (if rc = 2 then 1 else 0))"
    by (rule mid_dec(1) [OF e2(2) bounds(1)])
  then have "engine_mid (after_drop rc e2) G (Q - {i}) (R - {i}) no nl"
    using bounds(2) by (auto simp: after_drop_def intro: mid_dec(2))
  with e1 e2 show ?thesis
    by (intro exI [of _ e1] exI [of _ e2]) (simp add: after_drop_def engine_caps_def)
qed

section \<open>Fills and deletes\<close>

lemma book_step_order:
  "book_step loc e e' \<Longrightarrow> order_at (me_arena e) i x \<Longrightarrow>
   \<exists>x'. order_at (me_arena e') i x' \<and> o_order_id x' = o_order_id x \<and> o_locate x' = o_locate x"
  unfolding book_step_def keys_kept_def by blast

lemma book_step_caps: "book_step loc e e' \<Longrightarrow> engine_caps e' = engine_caps e"
  by (simp add: book_step_def engine_caps_def)

lemma fill_simulates:
  assumes rep: "engine_rep e G" and acc: "plain accepted" and V: "V = s_fill oid qty (engine_view e G)"
  shows "simulates (handle_fill execute_order accepted e loc oid qty) (engine_caps e) V
    (raise_peaks V (count_known accepted loc oid (engine_view e G) (counters (me_stats e))), ref_data e)"
proof (cases "ix_content (me_arena e) (me_index e) oid")
  case None
  note mid = engine_repD [OF rep]
  have "handle_fill execute_order accepted e loc oid qty = Some (bump inc_unknown e)"
    by (simp add: handle_fill_def mid_find [OF mid] None)
  then show ?thesis
    using simulates_bump [OF rep, of inc_unknown] s_absent(1) [OF mid_view_find(1) [OF mid refl None]]
      count_known_none [OF mid_view_find(1) [OF mid refl None]] by (simp add: V)
next
  case (Some i)
  note mid0 = engine_repD [OF rep]
  from rep_found [OF rep Some] obtain x b where x: "i \<in> all_orders G" "order_at (me_arena e) i x"
    "o_order_id x = oid" "get_order (me_arena e) i = Some x" "book_at e (o_locate x) = Some b"
    "i \<in> book_orders (G (o_locate x))" "v_find (engine_view e G) oid = Some (o_data x)" by blast
  note mid = corrected_mid [OF mid0, of loc x]
  have b: "book_at (corrected loc x e) (o_locate x) = Some b" using x(5) by simp
  have x1: "order_at (me_arena (corrected loc x e)) i x" using x(2) by simp
  from mid_fill [OF mid b x(6) x1 all_orders_in(1), of qty] obtain rc e1 G1 where e1:
    "on_book (\<lambda>b ar. execute_order b ar i qty) (o_locate x) b (corrected loc x e) = Some (rc, e1)"
    "engine_mid e1 G1 (all_orders G) (all_orders G) (card (all_orders G)) (card (all_levels G))" "rc \<in> {0, 1, 2}"
    "all_orders G1 = (if rc = 0 then all_orders G else all_orders G - {i})"
    "card (all_levels G) = card (all_levels G1) + (if rc = 2 then 1 else 0)"
    "engine_view e1 G1 = upd_queue (o_locate x) (o_side x) (q_fill (o_order_id x) qty) (engine_view (corrected loc x e) G)"
    "book_step (o_locate x) (corrected loc x e) e1" by blast
  have view: "engine_view e1 G1 = V"
    using e1(6) mid_only_queue(1) [OF mid0 refl x(1,2), of qty] x(3) by (simp add: V)
  have count: "counters (me_stats (bump accepted e1)) = count_known accepted loc oid (engine_view e G) (counters (me_stats e))"
    "ref_data (bump accepted e1) = ref_data e"
    using count_known_some [OF x(7) acc] ledger_frame(1) [OF e1(1)] by simp_all
  have caps: "engine_caps e1 = engine_caps e" using book_step_caps [OF e1(7)] by simp
  have eval: "handle_fill execute_order accepted e loc oid qty =
    (if rc > 0 then do { e \<leftarrow> index_erase (bump accepted e1) oid; e \<leftarrow> release_order e i;
        Some (after_drop rc e) } else Some (bump accepted e1))"
    using e1(1,3) b x(4) by (simp add: handle_fill_def mid_find [OF mid0] Some after_drop_def
        flip: corrected_def cong: if_cong) auto
  have mid1: "engine_mid (bump accepted e1) G1 (all_orders G) (all_orders G) (card (all_orders G)) (card (all_levels G))"
    by (rule mid_bump_same [OF e1(2) plainD(1) [OF acc]])
  show ?thesis
  proof (cases "rc = 0")
    case True
    with eval mid1 view caps e1(4,5) count show ?thesis by (intro simulatesI [of _ "bump accepted e1" G1]) simp_all
  next
    case False
    from book_step_order [OF e1(7) x1] x(3) obtain x' where x': "order_at (me_arena (bump accepted e1)) i x'"
      "o_order_id x' = oid" by auto
    have fin: "finite (all_orders G)" using pool.own_finite [OF midD(2) [OF mid0]] .
    have Q: "card (all_orders G) = Suc (card (all_orders G1))" and i: "i \<notin> all_orders G1"
      using card_Suc_Diff1 [OF fin x(1)] e1(4) False by simp_all
    have "Suc (card (all_orders G1)) < 2 ^ 64" "Suc (card (all_levels G1)) < 2 ^ 64 \<or> rc \<noteq> 2"
      using mid_bounds(1,2) [OF mid0] Q e1(5) by auto
    from drop_ok [OF mid1 [unfolded Q e1(5)] x(1) i x'(1) this] obtain e2 e3 where e3:
      "index_erase (bump accepted e1) oid = Some e2" "release_order e2 i = Some e3"
      "engine_mid (after_drop rc e3) G1 (all_orders G - {i}) (all_orders G - {i}) (card (all_orders G1)) (card (all_levels G1))"
      "engine_view (after_drop rc e3) G1 = engine_view (bump accepted e1) G1"
      "engine_caps (after_drop rc e3) = engine_caps (bump accepted e1)" using x'(2) by blast
    have "handle_fill execute_order accepted e loc oid qty = Some (after_drop rc e3)"
      using eval e3(1,2) e1(3) False by auto
    then show ?thesis using e3(3-5) view caps e1(4) False count ledger_frame(2) [OF e3(1)] ledger_frame(3) [OF e3(2)]
      by (intro simulatesI [of _ "after_drop rc e3" G1]) simp_all
  qed
qed

text \<open>An order found by a handler leaves its book and the engine.\<close>

lemma remove_and_drop:
  assumes mid: "engine_mid e G Q (all_orders G) (card (all_orders G)) (card (all_levels G))"
    and x: "i \<in> all_orders G" "order_at (me_arena e) i x" "book_at e (o_locate x) = Some b"
  shows "\<exists>rc e1 e2 e3 G1. on_book (\<lambda>b ar. remove_order b ar i) (o_locate x) b e = Some (rc, e1) \<and> rc \<in> {1, 2} \<and>
    index_erase e1 (o_order_id x) = Some e2 \<and> release_order e2 i = Some e3 \<and> all_orders G1 = all_orders G - {i} \<and>
    engine_mid (after_drop rc e3) G1 (Q - {i}) (all_orders G1) (card (all_orders G1)) (card (all_levels G1)) \<and>
    engine_view (after_drop rc e3) G1 = s_delete (o_order_id x) (engine_view e G) \<and>
    engine_caps (after_drop rc e3) = engine_caps e \<and> (\<exists>b'. book_at (after_drop rc e3) (o_locate x) = Some b') \<and>
    counters (me_stats (after_drop rc e3)) = counters (me_stats e) \<and> ref_data (after_drop rc e3) = ref_data e"
proof -
  have loc: "i \<in> book_orders (G (o_locate x))" by (rule order_view(2) [OF mid x(1,2)])
  from mid_remove [OF mid x(3) loc x(2) all_orders_in(1)] obtain rc e1 G1 where e1:
    "on_book (\<lambda>b ar. remove_order b ar i) (o_locate x) b e = Some (rc, e1)"
    "engine_mid e1 G1 Q (all_orders G) (card (all_orders G)) (card (all_levels G))" "rc \<in> {1, 2}"
    "all_orders G1 = all_orders G - {i}"
    "card (all_levels G) = card (all_levels G1) + (if rc = 2 then 1 else 0)"
    "engine_view e1 G1 = upd_queue (o_locate x) (o_side x) (q_remove (o_order_id x)) (engine_view e G)"
    "book_step (o_locate x) e e1" by blast
  from book_step_order [OF e1(7) x(2)] obtain x' where x': "order_at (me_arena e1) i x'"
    "o_order_id x' = o_order_id x" by auto
  have fin: "finite (all_orders G)"
    using finite_subset [OF midD(5) [OF mid]] pool.own_finite [OF midD(2) [OF mid]] by blast
  have Q: "card (all_orders G) = Suc (card (all_orders G1))" and i: "i \<notin> all_orders G1"
    using card_Suc_Diff1 [OF fin x(1)] e1(4) by simp_all
  have "card (all_orders G) \<le> card Q"
    using midD(5) [OF mid] pool.own_finite [OF midD(2) [OF mid]] by (simp add: card_mono)
  then have "Suc (card (all_orders G1)) < 2 ^ 64" "Suc (card (all_levels G1)) < 2 ^ 64 \<or> rc \<noteq> 2"
    using mid_bounds(1,2) [OF mid] Q e1(5) by auto
  from drop_ok [OF e1(2) [unfolded Q e1(5)] x(1) i x'(1) this] obtain e2 e3 where e3:
    "index_erase e1 (o_order_id x) = Some e2" "release_order e2 i = Some e3"
    "engine_mid (after_drop rc e3) G1 (Q - {i}) (all_orders G - {i}) (card (all_orders G1)) (card (all_levels G1))"
    "engine_view (after_drop rc e3) G1 = engine_view e1 G1"
    "engine_caps (after_drop rc e3) = engine_caps e1" "me_instruments (after_drop rc e3) = me_instruments e1"
    unfolding x'(2) by blast
  have "engine_view (after_drop rc e3) G1 = s_delete (o_order_id x) (engine_view e G)"
    using e3(4) e1(6) mid_only_queue(2) [OF mid refl x(1,2)] by simp
  moreover have "\<exists>b'. book_at (after_drop rc e3) (o_locate x) = Some b'"
    using e1(7) book_at_cong [OF e3(6)] by (simp add: book_step_def)
  moreover have "engine_caps (after_drop rc e3) = engine_caps e" using e3(5) book_step_caps [OF e1(7)] by simp
  moreover have "counters (me_stats (after_drop rc e3)) = counters (me_stats e)" "ref_data (after_drop rc e3) = ref_data e"
    using ledger_frame(1) [OF e1(1)] ledger_frame(2) [OF e3(1)] ledger_frame(3) [OF e3(2)] by simp_all
  ultimately show ?thesis
    using e1(1,3,4) e3(1-3)
    by (intro exI [of _ rc] exI [of _ e1] exI [of _ e2] exI [of _ e3] exI [of _ G1]) simp
qed

lemma delete_simulates:
  assumes rep: "engine_rep e G"
    and V: "V = s_delete oid (engine_view e G)" and accepted: "accepted = (\<lambda>s. s\<lparr>st_order_delete := st_order_delete s + 1\<rparr>)"
  shows "simulates (on_order_delete e loc oid) (engine_caps e) V
    (raise_peaks V (count_known accepted loc oid (engine_view e G) (counters (me_stats e))), ref_data e)"
proof (cases "ix_content (me_arena e) (me_index e) oid")
  case None
  note mid = engine_repD [OF rep]
  have "on_order_delete e loc oid = Some (bump inc_unknown e)"
    by (simp add: on_order_delete_def mid_find [OF mid] None)
  then show ?thesis
    using simulates_bump [OF rep, of inc_unknown] s_absent(2) [OF mid_view_find(1) [OF mid refl None]]
      count_known_none [OF mid_view_find(1) [OF mid refl None]] by (simp add: V)
next
  case (Some i)
  note mid0 = engine_repD [OF rep]
  from rep_found [OF rep Some] obtain x b where x: "i \<in> all_orders G" "order_at (me_arena e) i x"
    "o_order_id x = oid" "get_order (me_arena e) i = Some x" "book_at e (o_locate x) = Some b"
    "v_find (engine_view e G) oid = Some (o_data x)" by blast
  have x1: "order_at (me_arena (corrected loc x e)) i x" "book_at (corrected loc x e) (o_locate x) = Some b"
    using x(2,5) by simp_all
  from remove_and_drop [OF corrected_mid [OF mid0] x(1) x1] obtain rc e1 e2 e3 G1 where e3:
    "on_book (\<lambda>b ar. remove_order b ar i) (o_locate x) b (corrected loc x e) = Some (rc, e1)" "rc \<in> {1, 2}"
    "index_erase e1 oid = Some e2" "release_order e2 i = Some e3" "all_orders G1 = all_orders G - {i}"
    "engine_mid (after_drop rc e3) G1 (all_orders G - {i}) (all_orders G1) (card (all_orders G1)) (card (all_levels G1))"
    "engine_view (after_drop rc e3) G1 = V"
    "engine_caps (after_drop rc e3) = engine_caps e"
    "counters (me_stats (after_drop rc e3)) = counters (me_stats (corrected loc x e))" "ref_data (after_drop rc e3) = ref_data e"
    unfolding x(3) corrected_sel(1-6) V by blast
  have acc: "plain accepted" by (simp add: accepted)
  let ?e = "bump accepted (after_drop rc e3)"
  have "on_order_delete e loc oid = Some ?e"
    using e3(1-4) x(4,5)
    by (auto simp: on_order_delete_def mid_find [OF mid0] Some after_drop_def accepted simp flip: corrected_def)
  then show ?thesis
    using mid_bump_same [OF e3(6) plainD(1) [OF acc]] e3(5,7-10) count_known_some [OF x(6) acc] plainD(2) [OF acc]
    by (intro simulatesI [of _ ?e G1]) simp_all
qed

section \<open>Instruments\<close>

lemma mid_instruments:
  assumes mid: "engine_mid e G Q R no nl" and ok: "im_ok im"
    and books: "\<And>l. book_at (e\<lparr>me_instruments := im\<rparr>) l = book_at e l \<or>
      book_at e l = None \<and> book_at (e\<lparr>me_instruments := im\<rparr>) l = Some OrderBook_init"
  shows "engine_mid (e\<lparr>me_instruments := im\<rparr>) G Q R no nl"
    "engine_view (e\<lparr>me_instruments := im\<rparr>) = engine_view e" "engine_caps (e\<lparr>me_instruments := im\<rparr>) = engine_caps e"
proof -
  note M = midD [OF mid]
  have "books_ok (book_at (e\<lparr>me_instruments := im\<rparr>)) (me_arena e) G"
    unfolding books_ok_def
  proof (intro allI conjI ballI)
    fix l
    show "case book_at (e\<lparr>me_instruments := im\<rparr>) l of Some b \<Rightarrow> book_rep (me_arena e) b (G l) | None \<Rightarrow> G l = (\<lambda>_. [])"
      using books [of l] books_okD(1,2) [OF M(1), of l] OrderBook_init_rep by (auto split: option.splits)
    show "\<exists>x. order_at (me_arena e) i x \<and> o_locate x = l" if "i \<in> book_orders (G l)" for i
      using books_okD(3) [OF M(1) that] .
  qed
  then show "engine_mid (e\<lparr>me_instruments := im\<rparr>) G Q R no nl" using M ok by (intro midI) simp_all
  show "engine_view (e\<lparr>me_instruments := im\<rparr>) = engine_view e" by (simp add: engine_view_def fun_eq_iff)
  show "engine_caps (e\<lparr>me_instruments := im\<rparr>) = engine_caps e" by (simp add: engine_caps_def)
qed

text \<open>Writing an instrument whose book and locate are kept.\<close>

lemma book_at_slot: "book_at (e\<lparr>me_instruments := im\<rparr>) l = (case im_slots im l of None \<Rightarrow> None | Some inst \<Rightarrow> in_book inst)"
  by (simp add: book_at_def im_at_def)

lemma get_or_create_book:
  assumes "get_or_create im loc = (inst, im')"
  shows "in_book inst = (case im_slots im loc of None \<Rightarrow> None | Some i \<Rightarrow> in_book i)"
    "im_ok im \<Longrightarrow> in_locate inst = loc" "im_slots im' = (im_slots im)(loc := Some inst)"
  using assms by (auto simp: get_or_create_def Let_def Instrument_init_def im_ok_def split: option.splits)

lemma mid_created:
  assumes mid: "engine_mid e G Q R no nl" and create: "get_or_create (me_instruments e) loc = (inst, im)"
    and inst: "in_locate inst' = in_locate inst" "in_book inst' = in_book inst \<or>
      in_book inst = None \<and> in_book inst' = Some OrderBook_init"
  shows "engine_mid (e\<lparr>me_instruments := im_put im loc inst'\<rparr>) G Q R no nl"
    "engine_view (e\<lparr>me_instruments := im_put im loc inst'\<rparr>) = engine_view e"
    "engine_caps (e\<lparr>me_instruments := im_put im loc inst'\<rparr>) = engine_caps e"
    "book_at (e\<lparr>me_instruments := im_put im loc inst'\<rparr>) loc = in_book inst'"
proof -
  note M = midD [OF mid]
  note C = get_or_create_book [OF create]
  have "im_ok im" using get_or_create_ok [OF M(10), of loc] create by simp
  then have ok: "im_ok (im_put im loc inst')"
    using C(2) [OF M(10)] C(3) inst(1) by (intro im_put_ok) simp_all
  have slots: "im_slots (im_put im loc inst') l = (if l = loc then Some inst' else im_slots (me_instruments e) l)" for l
    by (simp add: im_put_def C(3))
  have "book_at (e\<lparr>me_instruments := im_put im loc inst'\<rparr>) l = book_at e l \<or>
      book_at e l = None \<and> book_at (e\<lparr>me_instruments := im_put im loc inst'\<rparr>) l = Some OrderBook_init" for l
  proof (cases "l = loc")
    case True
    have "book_at e loc = in_book inst" using C(1) by (simp add: book_at_def im_at_def)
    with True inst(2) slots [of loc] show ?thesis by (auto simp: book_at_slot)
  qed (simp add: book_at_slot slots book_at_def im_at_def)
  from mid_instruments [OF mid ok this] show
    "engine_mid (e\<lparr>me_instruments := im_put im loc inst'\<rparr>) G Q R no nl"
    "engine_view (e\<lparr>me_instruments := im_put im loc inst'\<rparr>) = engine_view e"
    "engine_caps (e\<lparr>me_instruments := im_put im loc inst'\<rparr>) = engine_caps e" by blast+
  show "book_at (e\<lparr>me_instruments := im_put im loc inst'\<rparr>) loc = in_book inst'"
    by (simp add: book_at_slot slots)
qed

lemma directory_simulates:
  assumes rep: "engine_rep e G"
  shows "simulates (Some (on_stock_directory e loc symbol mc fsi rls rlo auth ssti ipo luld etp elf invi))
    (engine_caps e) (engine_view e G)
    (raise_peaks (engine_view e G) (if ref_data e loc = None
       then (counters (me_stats e))\<lparr>st_instruments_registered := st_instruments_registered (counters (me_stats e)) + 1\<rparr>
       else counters (me_stats e)),
     (ref_data e)(loc := Some (describe symbol mc fsi rls rlo auth ssti ipo luld etp elf invi (ref_get loc (ref_data e)))))"
    (is "simulates _ _ _ (_, ?R)")
proof -
  obtain inst im where c: "get_or_create (me_instruments e) loc = (inst, im)" by fastforce
  define inst' where "inst' = describe symbol mc fsi rls rlo auth ssti ipo luld etp elf invi inst"
  let ?e = "e\<lparr>me_instruments := im_put im loc inst'\<rparr>"
  let ?f = "\<lambda>s. s\<lparr>st_instruments_registered := st_instruments_registered s + 1\<rparr>"
  have "in_locate inst' = in_locate inst" "in_book inst' = in_book inst"
    by (simp_all add: inst'_def describe_def)
  note m = mid_created [OF engine_repD [OF rep] c, of inst', OF this(1) disjI1 [OF this(2)]]
  have "no_book inst' = describe symbol mc fsi rls rlo auth ssti ipo luld etp elf invi (no_book inst)"
    by (simp add: inst'_def describe_def no_book_def)
  then have ref: "ref_data ?e = ?R" using ref_data_put [OF c] by simp
  have e: "simulates (Some ?e) (engine_caps e) (engine_view e G) (raise_peaks (engine_view e G) (counters (me_stats e)), ?R)"
    using m(2,3) ref by (intro simulatesI [OF refl m(1)]) simp_all
  have b: "simulates (Some (bump ?f ?e)) (engine_caps e) (engine_view e G) (raise_peaks (engine_view e G) (?f (counters (me_stats e))), ?R)"
    using m(2,3) ref plainD(2) [OF plain_counts(11)] by (intro simulatesI [OF refl mid_bump_same [OF m(1)]]) simp_all
  have new: "ref_data e loc = None \<longleftrightarrow> im_at (me_instruments e) loc = None" by (simp add: ref_data_def)
  have "on_stock_directory e loc symbol mc fsi rls rlo auth ssti ipo luld etp elf invi =
      (if im_at (me_instruments e) loc = None then bump ?f ?e else ?e)"
    by (simp add: on_stock_directory_def c inst'_def describe_def set_symbol_def Let_def)
  with e b show ?thesis by (simp add: new)
qed

lemma instrument_simulates:
  assumes rep: "engine_rep e G" and f: "\<And>i. in_locate (f i) = in_locate i" "\<And>i. in_book (f i) = in_book i"
    "\<And>i. no_book (f i) = f (no_book i)"
  shows "simulates (Some (case im_at (me_instruments e) loc of None \<Rightarrow> e
    | Some inst \<Rightarrow> e\<lparr>me_instruments := im_put (me_instruments e) loc (f inst)\<rparr>)) (engine_caps e) (engine_view e G)
    (raise_peaks (engine_view e G) (counters (me_stats e)), ref_update loc f (ref_data e))"
proof (cases "im_at (me_instruments e) loc")
  case None
  then have "ref_update loc f (ref_data e) = ref_data e" by (simp add: ref_update_def ref_data_def fun_eq_iff)
  with None show ?thesis by (intro simulatesI [OF _ engine_repD [OF rep]]) simp_all
next
  case (Some inst)
  then have c: "get_or_create (me_instruments e) loc = (inst, me_instruments e)"
    by (simp add: get_or_create_def im_at_def)
  note m = mid_created [OF engine_repD [OF rep] c, of "f inst", OF f(1) disjI1 [OF f(2)]]
  have "ref_data (e\<lparr>me_instruments := im_put (me_instruments e) loc (f inst)\<rparr>) = ref_update loc f (ref_data e)"
    using ref_data_put(1) [OF c, of "f inst"] Some by (simp add: ref_update_def ref_data_def f(3))
  then show ?thesis
    using m(2,3) unfolding Some by (intro simulatesI [OF refl]) (simp_all add: m(1))
qed

lemma trading_action_simulates:
  "engine_rep e G \<Longrightarrow> simulates (Some (on_trading_action e loc state)) (engine_caps e) (engine_view e G)
    (raise_peaks (engine_view e G) (counters (me_stats e)), ref_update loc (\<lambda>i. i\<lparr>in_tradingState := state\<rparr>) (ref_data e))"
  unfolding on_trading_action_def by (rule instrument_simulates) (simp_all add: no_book_def)

lemma reg_sho_simulates:
  "engine_rep e G \<Longrightarrow> simulates (Some (on_reg_sho e loc action)) (engine_caps e) (engine_view e G)
    (raise_peaks (engine_view e G) (counters (me_stats e)), ref_update loc (\<lambda>i. i\<lparr>in_regSHOAction := action\<rparr>) (ref_data e))"
  unfolding on_reg_sho_def by (rule instrument_simulates) (simp_all add: no_book_def)

section \<open>Adding and replacing\<close>

text \<open>The end of an add or replace: the constructed order goes into its book and the index.\<close>

definition place_order ::
  "(MatchingEngine \<Rightarrow> MatchingEngine exec) \<Rightarrow> (EngineStats \<Rightarrow> EngineStats) \<Rightarrow> OrderReferenceNumber \<Rightarrow> StockLocate \<Rightarrow>
   nat \<Rightarrow> OrderBook \<Rightarrow> MatchingEngine \<Rightarrow> MatchingEngine exec" where
  "place_order dup accepted oid loc i b e = do {
     (add_rc, e) \<leftarrow> on_book (\<lambda>b ar. add_order b ar i) loc b e;
     if add_rc = 0 then release_order (bump (inc_pool_exhausted \<circ> inc_level_pool_exhausted) e) i
     else do {
       let e = (if add_rc = 2 then bump inc_live_levels e else e);
       (inserted, ix) \<leftarrow> ix_insert (me_arena e) (me_index e) oid i;
       let e = e\<lparr>me_index := ix\<rparr>;
       if \<not> inserted then dup e else Some (bump accepted e) } }"

lemma place_simulates:
  assumes mid: "engine_mid e G (insert i (all_orders G)) (all_orders G) (card (all_orders G)) (card (all_levels G))"
    and x: "order_at (me_arena e) i x" "i \<notin> all_orders G" "book_at e (o_locate x) = Some b"
    and acc: "accepted = (\<lambda>s. g (inc_live_orders s))" "plain g"
    and px: "o_price_cents x \<noteq> kEmptyPrice"
    and room: "length (q_prices (engine_view e G (o_locate x) (o_side x))) < 8192"
    and new: "v_find (engine_view e G) (o_order_id x) = None"
    and V: "V = (if no_level_for (snd (engine_caps e)) (o_price_cents x) (o_locate x) (o_side x) (engine_view e G) then engine_view e G
     else upd_queue (o_locate x) (o_side x) (q_add (o_data x)) (engine_view e G))"
  shows "simulates (place_order dup accepted (o_order_id x) (o_locate x) i b e) (engine_caps e) V
    (raise_peaks V (if no_level_for (snd (engine_caps e)) (o_price_cents x) (o_locate x) (o_side x) (engine_view e G)
       then inc_pool_exhausted (inc_level_pool_exhausted (counters (me_stats e))) else g (counters (me_stats e))), ref_data e)"
proof -
  let ?loc = "o_locate x" and ?V = "engine_view e G"
  have room': "length (G ?loc (o_side x)) < 8192" using room view_prices(2) [OF mid] by simp
  from mid_add [OF mid x(3,1) refl insertI1 x(2) px room'] obtain rc e1 G1 where e1:
    "on_book (\<lambda>b ar. add_order b ar i) ?loc b e = Some (rc, e1)"
    "engine_mid e1 G1 (insert i (all_orders G)) (all_orders G) (card (all_orders G)) (card (all_levels G))"
    "rc = (if \<exists>y\<in>set (?V ?loc (o_side x)). o_price_cents y = o_price_cents x then 1
          else if card (all_levels G) = mp_capacity (ar_levels (me_arena e)) then 0 else 2)"
    "all_orders G1 = (if rc = 0 then all_orders G else insert i (all_orders G))"
    "card (all_levels G1) = card (all_levels G) + (if rc = 2 then 1 else 0)"
    "engine_view e1 G1 = (if rc = 0 then ?V else upd_queue ?loc (o_side x) (q_add (o_data x)) ?V)"
    "book_step ?loc e e1" by blast
  have rc: "rc = 0 \<longleftrightarrow> no_level_for (snd (engine_caps e)) (o_price_cents x) ?loc (o_side x) ?V"
    unfolding e1(3) by (auto simp: no_level_for_def in_q_prices view_levels [OF mid] engine_caps_def)
  note frame = ledger_frame(1) [OF e1(1)]
  have caps: "engine_caps e1 = engine_caps e" by (rule book_step_caps [OF e1(7)])
  have fin: "finite (all_orders G)" using pool.own_finite [OF midD(2) [OF mid]] by simp
  show ?thesis
  proof (cases "rc = 0")
    case True
    have mid1: "engine_mid (bump (inc_pool_exhausted \<circ> inc_level_pool_exhausted) e1) G1 (insert i (all_orders G))
        (all_orders G) (card (all_orders G)) (card (all_levels G))"
      by (rule mid_bump_same [OF e1(2)]) simp
    have "i \<notin> all_orders G1" using e1(4) True x(2) by simp
    from mid_release [OF mid1 insertI1 this x(2)] obtain e2 where e2:
      "release_order (bump (inc_pool_exhausted \<circ> inc_level_pool_exhausted) e1) i = Some e2"
      "engine_mid e2 G1 (insert i (all_orders G) - {i}) (all_orders G) (card (all_orders G)) (card (all_levels G))"
      "engine_view e2 G1 = engine_view e1 G1" "engine_caps e2 = engine_caps e1" by (auto simp: engine_caps_def)
    have "insert i (all_orders G) - {i} = all_orders G" using x(2) by simp
    moreover have "counters (me_stats e2) = inc_pool_exhausted (inc_level_pool_exhausted (counters (me_stats e)))" "ref_data e2 = ref_data e"
      using ledger_frame(3) [OF e2(1)] frame plainD(2) [OF plain_incs(5)] plainD(2) [OF plain_incs(6)] by simp_all
    moreover have "engine_view e2 G1 = V" using e2(3) e1(6) True rc V by simp
    ultimately show ?thesis
      using e1 e2 True caps rc by (intro simulatesI [of _ e2 G1]) (simp_all add: place_order_def)
  next
    case False
    let ?e = "if rc = 2 then bump inc_live_levels e1 else e1"
    have mid1: "engine_mid ?e G1 (insert i (all_orders G)) (all_orders G) (card (all_orders G)) (card (all_levels G1))"
      using mid_inc(2) [OF e1(2)] e1(2,5) by simp
    from e1(7) x(1) obtain x' where x': "order_at (me_arena e1) i x'" "o_order_id x' = o_order_id x"
      using book_step_order by blast
    have same: "me_arena ?e = me_arena e1" "me_index ?e = me_index e1" "engine_view ?e = engine_view e1"
      "engine_caps ?e = engine_caps e1" by simp_all
    have none: "ix_content (me_arena ?e) (me_index ?e) (o_order_id x') = None"
    proof (cases "ix_content (me_arena ?e) (me_index ?e) (o_order_id x')")
      case (Some j)
      then obtain y where y: "j \<in> all_orders G" "order_at (me_arena e1) j y" "o_order_id y = o_order_id x"
        unfolding mid_found [OF mid1] using x'(2) same(1) by auto
      from index_okD(2) [OF midD(4) [OF mid] y(1)] obtain z where z: "order_at (me_arena e) j z" by blast
      from book_step_order [OF e1(7) z] y(2,3) have "o_order_id z = o_order_id x"
        using order_at_unique by metis
      moreover have "o_data z \<in> set (?V (o_locate z) (o_side z))" by (rule order_view(1) [OF mid y(1) z])
      ultimately show ?thesis using new unfolding v_find_None by (metis image_eqI o_data_keys(1))
    qed
    have x1: "order_at (me_arena ?e) i x'" using x'(1) same(1) by simp
    from mid_insert [OF mid1 insertI1 x1 none] obtain ix where ix:
      "ix_insert (me_arena ?e) (me_index ?e) (o_order_id x) i = Some (True, ix)"
      "engine_mid (?e\<lparr>me_index := ix\<rparr>) G1 (insert i (all_orders G)) (insert i (all_orders G)) (card (all_orders G)) (card (all_levels G1))"
      "engine_view (?e\<lparr>me_index := ix\<rparr>) G1 = engine_view ?e G1" unfolding x'(2) by blast
    let ?e' = "bump accepted (?e\<lparr>me_index := ix\<rparr>)"
    have "bump accepted (?e\<lparr>me_index := ix\<rparr>) = bump g (bump inc_live_orders (?e\<lparr>me_index := ix\<rparr>))"
      by (simp add: acc(1) bump_def)
    then have mid2: "engine_mid ?e' G1 (insert i (all_orders G)) (insert i (all_orders G)) (Suc (card (all_orders G))) (card (all_levels G1))"
      using mid_bump_same [OF mid_inc(1) [OF ix(2)] plainD(1) [OF acc(2)]] by simp
    have "place_order dup accepted (o_order_id x) ?loc i b e = Some ?e'"
      using e1(1) False ix(1) unfolding place_order_def Let_def by simp
    moreover have view: "engine_view ?e' G1 = V"
      using ix(3) same(3) e1(6) False rc V by simp
    moreover have "engine_caps ?e' = engine_caps e"
      using caps same(4) by (simp add: engine_caps_def)
    moreover have card: "all_orders G1 = insert i (all_orders G)" "card (all_orders G1) = Suc (card (all_orders G))"
      using e1(4) False fin x(2) by simp_all
    moreover have "raise_peaks V (counters (me_stats ?e')) = raise_peaks V (g (counters (me_stats e)))"
    proof -
      have sizes: "length (v_all V) = Suc (card (all_orders G))" "v_levels V = card (all_levels G1)"
        using view_size [OF mid2] view_levels [OF mid2] card(2) unfolding view by simp_all
      have live: "st_live_orders (me_stats ?e) = of_nat (card (all_orders G))" "st_live_levels (me_stats e1) = of_nat (card (all_levels G))"
        using midD(7) [OF mid1] midD(7) [OF e1(2)] by (simp_all add: stats_ok_def)
      have "raise_peaks V (counters (me_stats ?e)) = raise_peaks V (counters (me_stats e1))"
        using raise_peaks_inc(2) [of "me_stats e1" V] live(2) sizes(2) e1(5) by simp
      moreover have "raise_peaks V (counters (inc_live_orders (me_stats ?e))) = raise_peaks V (counters (me_stats ?e))"
        using live(1) sizes(1) by (intro raise_peaks_inc(1)) simp
      ultimately show ?thesis using frame plainD(2,3) [OF acc(2)] by (simp add: acc(1))
    qed
    moreover have "ref_data ?e' = ref_data e" using frame by simp
    moreover have neg: "\<not> no_level_for (snd (engine_caps e)) (o_price_cents x) ?loc (o_side x) ?V"
      using False rc by simp
    ultimately show ?thesis
      using mid2 unfolding if_not_P [OF neg] by (intro simulatesI [of _ ?e' G1]) simp_all
  qed
qed

text \<open>The acquired slot holds the new order, which is in no book yet.\<close>

lemma acquire_and_construct:
  assumes mid: "engine_mid e G (all_orders G) (all_orders G) no nl" and acq: "acquire_order e = Some (q, e1)"
  shows "case q of None \<Rightarrow> e1 = e \<and> length (v_all (engine_view e G)) = fst (engine_caps e)
    | Some i \<Rightarrow> length (v_all (engine_view e G)) \<noteq> fst (engine_caps e) \<and> i \<notin> all_orders G \<and>
        engine_mid e1 G (insert i (all_orders G)) (all_orders G) no nl \<and>
        engine_view e1 G = engine_view e G \<and> engine_caps e1 = engine_caps e \<and> me_instruments e1 = me_instruments e \<and>
        me_arena e1 = (me_arena e)\<lparr>ar_orders := ar_orders (me_arena e1)\<rparr> \<and> ord (me_arena e1) = ord (me_arena e)"
proof -
  from mid_acquire [OF mid] acq show ?thesis
    by (auto simp: view_size [OF mid] engine_caps_def split: option.splits)
qed

lemma s_add_accepted:
  assumes "v_find V (o_order_id x) = None" "length (v_all V) \<noteq> oc"
  shows "s_add oc lc x V = (if no_level_for lc (o_price_cents x) (o_locate x) (o_side x) V
    then V else upd_queue (o_locate x) (o_side x) (q_add x) V)"
  using assms by (simp add: s_add_def no_level_for_def Let_def)

lemma count_add_accepted:
  assumes "v_find V (o_order_id x) = None" "length (v_all V) \<noteq> oc"
  shows "count_add oc lc x attributed V s = (if no_level_for lc (o_price_cents x) (o_locate x) (o_side x) V
    then inc_pool_exhausted (inc_level_pool_exhausted s)
    else if attributed then s\<lparr>st_add_orders_with_mpid := st_add_orders_with_mpid s + 1\<rparr>
    else s\<lparr>st_add_orders := st_add_orders s + 1\<rparr>)"
  using assms by (simp add: count_add_def)

lemma add_simulates:
  assumes rep: "engine_rep e G" and px: "px \<noteq> kEmptyPrice"
    and room: "length (q_prices (engine_view e G loc (to_side bsi))) < 8192"
    and x: "x = Order_init oid loc px qty (to_side bsi) ts (if attributed then mpid else no_mpid)"
    and V: "V = s_add (fst (engine_caps e)) (snd (engine_caps e)) x (engine_view e G)"
  shows "simulates (on_add_order e loc oid bsi qty px ts mpid attributed) (engine_caps e) V
    (raise_peaks V (count_add (fst (engine_caps e)) (snd (engine_caps e)) x attributed (engine_view e G) (counters (me_stats e))),
     if v_find (engine_view e G) oid = None then (ref_data e)(loc := Some (ref_get loc (ref_data e))) else ref_data e)"
    (is "simulates _ _ _ (_, if _ then ?R else _)")
proof (cases "ix_content (me_arena e) (me_index e) oid")
  case (Some i)
  from rep_found [OF rep Some] have found: "v_find (engine_view e G) oid \<noteq> None" by auto
  then have view: "V = engine_view e G" by (simp add: V x s_add_def Let_def Order_init_def)
  have count: "count_add oc lc x attributed (engine_view e G) = inc_unknown \<circ> inc_duplicate" for oc lc
    using found by (simp add: count_add_def x Order_init_def fun_eq_iff)
  have "on_add_order e loc oid bsi qty px ts mpid attributed = Some (bump (inc_unknown \<circ> inc_duplicate) e)"
    by (simp add: on_add_order_def mid_find [OF engine_repD [OF rep]] Some)
  then show ?thesis unfolding if_not_P [OF found] count using simulates_bump [OF rep plain_comp [OF plain_incs(1,2)] view] by simp
next
  case None
  note mid0 = engine_repD [OF rep]
  have new: "v_find (engine_view e G) oid = None" by (rule mid_view_find(1) [OF mid0 refl None])
  obtain inst im where c: "get_or_create (me_instruments e) loc = (inst, im)" by fastforce
  define e1 where "e1 = e\<lparr>me_instruments := im_put im loc (ensure_book inst)\<rparr>"
  have ens: "in_locate (ensure_book inst) = in_locate inst" "in_book (ensure_book inst) = in_book inst \<or>
      in_book inst = None \<and> in_book (ensure_book inst) = Some OrderBook_init"
    by (auto simp: ensure_book_def split: option.splits)
  note m = mid_created [OF mid0 c ens, folded e1_def]
  obtain b where b: "in_book (ensure_book inst) = Some b"
    by (cases "in_book inst") (auto simp: ensure_book_def)
  from mid_acquire [OF m(1)] obtain q e2 where acq: "acquire_order e1 = Some (q, e2)" by blast
  note a = acquire_and_construct [OF m(1) acq]
  define g where "g = (\<lambda>s :: EngineStats. if attributed then s\<lparr>st_add_orders_with_mpid := st_add_orders_with_mpid s + 1\<rparr>
      else s\<lparr>st_add_orders := st_add_orders s + 1\<rparr>)"
  have g: "plain g" using plain_counts(6,7) by (cases attributed) (simp_all add: g_def)
  have ref: "ref_data e1 = ?R" unfolding e1_def using ref_data_put [OF c] by (simp add: no_book_ensure)
  have stats: "me_stats e1 = me_stats e" by (simp add: e1_def)
  have acc: "(\<lambda>s. if attributed
                 then (inc_live_orders s)\<lparr>st_add_orders_with_mpid := st_add_orders_with_mpid s + 1\<rparr>
                 else (inc_live_orders s)\<lparr>st_add_orders := st_add_orders s + 1\<rparr>) = (\<lambda>s. g (inc_live_orders s))"
    by (auto simp: g_def inc_live_orders_def Let_def fun_eq_iff)
  let ?dup = "\<lambda>e i. do {
               let e = bump (inc_unknown \<circ> inc_duplicate) e;
               b \<leftarrow> book_at e loc;
               (rm, e) \<leftarrow> on_book (\<lambda>b ar. remove_order b ar i) loc b e;
               let e = (if rm = 2 then bump dec_live_levels e else e);
               release_order e i }"
  have eval: "on_add_order e loc oid bsi qty px ts mpid attributed = (case q of
      None \<Rightarrow> Some (bump (\<lambda>s. inc_pool_exhausted
             (s\<lparr>st_add_rejected_pool_exhausted := st_add_rejected_pool_exhausted s + 1\<rparr>)) e2)
    | Some i \<Rightarrow> do { e \<leftarrow> construct_order e2 i x;
        place_order (\<lambda>e. ?dup e i) (\<lambda>s. g (inc_live_orders s)) oid loc i b e })"
    unfolding on_add_order_def mid_find [OF mid0] None place_order_def acc [symmetric]
    using acq by (cases q) (simp_all add: c b x Let_def flip: e1_def)
  show ?thesis
  proof (cases q)
    case None
    with a have full: "e2 = e1" "length (v_all (engine_view e G)) = fst (engine_caps e)" using m(2,3) by simp_all
    let ?f = "\<lambda>s. inc_pool_exhausted (s\<lparr>st_add_rejected_pool_exhausted := st_add_rejected_pool_exhausted s + 1\<rparr>)"
    have view: "V = engine_view e G" using full(2) by (simp add: V s_add_def Let_def)
    have "count_add (fst (engine_caps e)) (snd (engine_caps e)) x attributed (engine_view e G) = ?f"
      using full(2) new by (simp add: count_add_def x Order_init_def fun_eq_iff)
    then show ?thesis unfolding eval None option.case full(1) if_P [OF new]
      using m(2,3) ref stats view plainD(2) [OF plain_counts(12)]
      by (intro simulatesI [OF refl mid_bump_same [OF m(1)]]) simp_all
  next
    case (Some i)
    with a have e2: "length (v_all (engine_view e G)) \<noteq> fst (engine_caps e)" "i \<notin> all_orders G"
      "engine_mid e2 G (insert i (all_orders G)) (all_orders G) (card (all_orders G)) (card (all_levels G))"
      "engine_view e2 G = engine_view e G" "engine_caps e2 = engine_caps e" "me_instruments e2 = me_instruments e1"
      using m(2,3) by simp_all
    from mid_construct [OF e2(3) insertI1 e2(2,2), of x] obtain e3 where e3: "construct_order e2 i x = Some e3"
      "engine_mid e3 G (insert i (all_orders G)) (all_orders G) (card (all_orders G)) (card (all_levels G))"
      "engine_view e3 G = engine_view e2 G" "me_instruments e3 = me_instruments e2" "engine_caps e3 = engine_caps e2"
      "order_at (me_arena e3) i x" by (auto simp: engine_caps_def)
    have keys: "o_order_id x = oid" "o_locate x = loc" "o_price_cents x = px" "o_side x = to_side bsi" "o_data x = x"
      by (simp_all add: x Order_init_def o_data_def)
    have "book_at e3 = book_at e1" using e3(4) e2(6) by (intro book_at_cong) simp
    then have book: "book_at e3 loc = Some b" using m(4) b by simp
    have views: "engine_view e3 G = engine_view e G" "engine_caps e3 = engine_caps e" using e2(4,5) e3(3,5) by simp_all
    have same: "me_stats e3 = me_stats e" "ref_data e3 = ?R"
      using ledger_frame(4) [OF e3(1)] ledger_frame(5) [OF acq] ref stats by simp_all
    have none: "v_find (engine_view e G) (o_order_id x) = None" using new keys by simp
    note spec = s_add_accepted [OF none e2(1)] count_add_accepted [OF none e2(1)]
    have "simulates (place_order (\<lambda>e. ?dup e i) (\<lambda>s. g (inc_live_orders s)) (o_order_id x) (o_locate x) i b e3) (engine_caps e3) V
        (raise_peaks V (if no_level_for (snd (engine_caps e3)) (o_price_cents x) (o_locate x) (o_side x) (engine_view e3 G)
           then inc_pool_exhausted (inc_level_pool_exhausted (counters (me_stats e3))) else g (counters (me_stats e3))), ref_data e3)"
    proof (rule place_simulates [OF e3(2,6) e2(2) _ refl g])
      show "book_at e3 (o_locate x) = Some b" "o_price_cents x \<noteq> kEmptyPrice" using book px keys by simp_all
      show "length (q_prices (engine_view e3 G (o_locate x) (o_side x))) < 8192"
        "v_find (engine_view e3 G) (o_order_id x) = None" using room new e2(4) e3(3) keys by simp_all
      show "V = (if no_level_for (snd (engine_caps e3)) (o_price_cents x) (o_locate x) (o_side x) (engine_view e3 G)
          then engine_view e3 G else upd_queue (o_locate x) (o_side x) (q_add (o_data x)) (engine_view e3 G))"
        unfolding V views spec(1) keys(5) ..
    qed
    moreover have "on_add_order e loc oid bsi qty px ts mpid attributed =
        place_order (\<lambda>e. ?dup e i) (\<lambda>s. g (inc_live_orders s)) oid loc i b e3"
      unfolding eval Some using e3(1) by simp
    ultimately show ?thesis unfolding views same spec(2) g_def if_P [OF new] by (simp add: keys)
  qed
qed

lemma s_delete_prices:
  "length (q_prices (s_delete oid V loc s)) \<le> length (q_prices (V loc s))"
proof -
  have "set (q_prices (s_delete oid V loc s)) \<subseteq> set (q_prices (V loc s))"
    by (auto simp: q_prices_def s_delete_def q_remove_def)
  then have "card (set (q_prices (s_delete oid V loc s))) \<le> card (set (q_prices (V loc s)))" by (simp add: card_mono)
  then show ?thesis by (simp add: q_prices_def length_remdups_card_conv)
qed

lemma s_delete_find: "v_find V new = None \<Longrightarrow> v_find (s_delete oid V) new = None"
  by (auto simp: v_find_None s_delete_def q_remove_def)

lemma s_delete_less:
  assumes "v_find V oid \<noteq> None"
  shows "length (v_all (s_delete oid V)) < length (v_all V)"
proof -
  have "v_all (s_delete oid V) = filter (\<lambda>y. o_order_id y \<noteq> oid) (v_all V)"
    by (simp add: v_all_def v_sides_def s_delete_def q_remove_def filter_concat map_concat o_def)
  moreover from assms obtain y where "y \<in> set (v_all V)" "o_order_id y = oid"
    by (auto simp: v_find_None set_v_all)
  ultimately show ?thesis by (metis (mono_tags, lifting) length_filter_less)
qed

lemma replace_simulates:
  assumes rep: "engine_rep e G" and px: "px \<noteq> kEmptyPrice"
    and room: "\<And>y. v_find (engine_view e G) old = Some y \<Longrightarrow>
      length (q_prices (engine_view e G (o_locate y) (o_side y))) < 8192"
    and V: "V = s_replace (fst (engine_caps e)) (snd (engine_caps e)) old new qty px ts (engine_view e G)"
  shows "simulates (on_order_replace e loc old new qty px ts) (engine_caps e) V
    (raise_peaks V (count_replace (fst (engine_caps e)) (snd (engine_caps e)) loc old new px (engine_view e G) (counters (me_stats e))),
     ref_data e)"
proof (cases "ix_content (me_arena e) (me_index e) old")
  case None
  note mid = engine_repD [OF rep]
  have "on_order_replace e loc old new qty px ts = Some (bump inc_unknown e)"
    by (simp add: on_order_replace_def mid_find [OF mid] None)
  then show ?thesis
    using simulates_bump [OF rep plain_incs(1)] mid_view_find(1) [OF mid refl None]
    by (simp add: V s_replace_def count_replace_def count_known_none)
next
  case (Some i)
  note mid0 = engine_repD [OF rep]
  from rep_found [OF rep Some] obtain x b where x: "i \<in> all_orders G" "order_at (me_arena e) i x"
    "o_order_id x = old" "get_order (me_arena e) i = Some x" "book_at e (o_locate x) = Some b"
    "v_find (engine_view e G) old = Some (o_data x)" by blast
  note mid1 = corrected_mid [OF mid0, of loc x]
  let ?new = "Order_init new (o_locate x) px qty (o_side x) ts (o_mpid x)"
  have mpid: "o_mpid (o_data x) = o_mpid x" by (simp add: o_data_def)
  have keys: "o_order_id ?new = new" "o_locate ?new = o_locate x" "o_price_cents ?new = px" "o_side ?new = o_side x"
    "o_data ?new = ?new" by (simp_all add: Order_init_def o_data_def)
  have same: "counters (me_stats (corrected loc x e)) =
      (if o_locate (o_data x) \<noteq> loc then inc_mismatch (counters (me_stats e)) else counters (me_stats e))"
    using plainD(2) [OF plain_incs(3)] by (simp add: o_data_keys)
  note count = count_replace_def count_known_def x(6) option.case same [symmetric]
  show ?thesis
  proof (cases "ix_content (me_arena e) (me_index e) new")
    case (Some j)
    from rep_found [OF rep Some] have found: "v_find (engine_view e G) new \<noteq> None" by auto
    then have view: "V = engine_view e G" by (simp add: V s_replace_def x(6))
    have "counters (me_stats (bump (inc_unknown \<circ> inc_duplicate) (corrected loc x e))) =
        inc_unknown (inc_duplicate (counters (me_stats (corrected loc x e))))"
      using plainD(2) [OF plain_comp [OF plain_incs(1,2)]] by simp
    then have "simulates (Some (bump (inc_unknown \<circ> inc_duplicate) (corrected loc x e))) (engine_caps e) V
        (raise_peaks V (inc_unknown (inc_duplicate (counters (me_stats (corrected loc x e))))), ref_data e)"
      using view by (intro simulatesI [OF refl mid_bump_same [OF mid1]]) simp_all
    moreover have "on_order_replace e loc old new qty px ts = Some (bump (inc_unknown \<circ> inc_duplicate) (corrected loc x e))"
      using x(4) mid_find [OF mid1, of new] Some
      by (simp add: on_order_replace_def mid_find [OF mid0] \<open>ix_content _ _ old = Some i\<close> flip: corrected_def)
    ultimately show ?thesis unfolding count if_P [OF found] by simp
  next
    case None
    have fresh: "v_find (engine_view e G) new = None" by (rule mid_view_find(1) [OF mid0 refl None])
    from mid_acquire [OF mid1] obtain q e1 where acq: "acquire_order (corrected loc x e) = Some (q, e1)" by blast
    note a = acquire_and_construct [OF mid1 acq, unfolded corrected_sel]
    let ?rest = "\<lambda>n. do {
                 (rm, e) \<leftarrow> on_book (\<lambda>b ar. remove_order b ar i) (o_locate x) b e1;
                 if rm = 0
                 then release_order (bump (inc_unknown \<circ> inc_level_missing) e) n
                 else do {
                   e \<leftarrow> index_erase e old;
                   e \<leftarrow> release_order e i;
                   e \<leftarrow> construct_order (after_drop rm e) n ?new;
                   b \<leftarrow> book_at e (o_locate x);
                   place_order (\<lambda>e. do {
                       let e = bump inc_duplicate e;
                       b \<leftarrow> book_at e (o_locate x);
                       (rb, e) \<leftarrow> on_book (\<lambda>b ar. remove_order b ar n) (o_locate x) b e;
                       let e = (if rb = 2 then bump dec_live_levels e else e);
                       release_order e n })
                     (\<lambda>s. (inc_live_orders s)\<lparr>st_order_replace := st_order_replace s + 1\<rparr>) new (o_locate x) n b e } }"
    have eval: "on_order_replace e loc old new qty px ts = (case q of
        None \<Rightarrow> Some (bump (\<lambda>s. inc_pool_exhausted
          (s\<lparr>st_replace_rejected_pool_exhausted := st_replace_rejected_pool_exhausted s + 1\<rparr>)) e1)
      | Some n \<Rightarrow> ?rest n)"
      unfolding on_order_replace_def place_order_def after_drop_def Let_def corrected_loc corrected_def [symmetric]
      using x(4,5) mid_find [OF mid1, of new] None acq
      by (cases q) (simp_all add: mid_find [OF mid0] \<open>ix_content _ _ old = Some i\<close>)
    show ?thesis
    proof (cases q)
      case None
      with a have full: "e1 = corrected loc x e" "length (v_all (engine_view e G)) = fst (engine_caps e)" by simp_all
      have view: "V = engine_view e G" using full(2) by (simp add: V s_replace_def x(6))
      show ?thesis unfolding eval None count if_not_P [OF not_not [THEN iffD2, OF fresh]] if_P [OF full(2)]
        unfolding option.case full(1) using view plainD(2) [OF plain_counts(13)]
        by (intro simulatesI [OF refl mid_bump_same [OF mid1]]) simp_all
    next
      case (Some n)
      with a have e1: "length (v_all (engine_view e G)) \<noteq> fst (engine_caps e)" "n \<notin> all_orders G"
        "engine_mid e1 G (insert n (all_orders G)) (all_orders G) (card (all_orders G)) (card (all_levels G))"
        "engine_view e1 G = engine_view e G" "engine_caps e1 = engine_caps e"
        "me_instruments e1 = me_instruments (corrected loc x e)" "ord (me_arena e1) = ord (me_arena e)"
        "mp_capacity (ar_orders (me_arena e1)) = mp_capacity (ar_orders (me_arena e))"
        by (simp_all add: engine_caps_def)
      have x1: "order_at (me_arena e1) i x" using x(2) e1(7,8) by (simp add: order_at_def)
      have b1: "book_at e1 (o_locate x) = Some b" using x(5) book_at_cong [OF e1(6)] by simp
      from remove_and_drop [OF e1(3) x(1) x1 b1] obtain rc e2 e3 e4 G1 where e4:
        "on_book (\<lambda>b ar. remove_order b ar i) (o_locate x) b e1 = Some (rc, e2)" "rc \<in> {1, 2}"
        "index_erase e2 old = Some e3" "release_order e3 i = Some e4" "all_orders G1 = all_orders G - {i}"
        "engine_mid (after_drop rc e4) G1 (insert n (all_orders G) - {i}) (all_orders G1) (card (all_orders G1)) (card (all_levels G1))"
        "engine_view (after_drop rc e4) G1 = s_delete old (engine_view e G)"
        "engine_caps (after_drop rc e4) = engine_caps e" "\<exists>b'. book_at (after_drop rc e4) (o_locate x) = Some b'"
        "counters (me_stats (after_drop rc e4)) = counters (me_stats e1)" "ref_data (after_drop rc e4) = ref_data e1"
        unfolding x(3) e1(4,5) by (elim exE conjE) (rule that; (assumption | rule exI)+)
      have Q: "insert n (all_orders G) - {i} = insert n (all_orders G1)" "n \<notin> all_orders G1"
        using e4(5) e1(2) x(1) by auto
      from mid_construct [OF e4(6) [unfolded Q(1)] insertI1 Q(2,2), of ?new] obtain e5 where e5:
        "construct_order (after_drop rc e4) n ?new = Some e5"
        "engine_mid e5 G1 (insert n (all_orders G1)) (all_orders G1) (card (all_orders G1)) (card (all_levels G1))"
        "engine_view e5 G1 = s_delete old (engine_view e G)" "engine_caps e5 = engine_caps e"
        "me_instruments e5 = me_instruments (after_drop rc e4)" "order_at (me_arena e5) n ?new"
        using e4(7,8) by (auto simp: engine_caps_def)
      obtain b' where b': "book_at e5 (o_locate x) = Some b'" using e4(9) book_at_cong [OF e5(5)] by auto
      have ledger: "me_stats e1 = me_stats (corrected loc x e)" "ref_data e1 = ref_data e"
        "counters (me_stats e5) = counters (me_stats e1)" "ref_data e5 = ref_data e1"
        using ledger_frame(5) [OF acq] ledger_frame(4) [OF e5(1)] e4(10,11) by simp_all
      have "length (v_all (s_delete old (engine_view e G))) < length (v_all (engine_view e G))"
        using s_delete_less x(6) by simp
      moreover have "length (v_all (engine_view e G)) \<le> fst (engine_caps e)"
        using view_size [OF mid0] mid_bounds(3) [OF mid0] by (simp add: engine_caps_def)
      ultimately have len: "length (v_all (s_delete old (engine_view e G))) \<noteq> fst (engine_caps e)" by simp
      note spec = s_add_accepted [of "s_delete old (engine_view e G)" ?new, unfolded keys(1), OF s_delete_find [OF fresh] len]
      have V': "V = s_add (fst (engine_caps e)) (snd (engine_caps e)) ?new (s_delete old (engine_view e G))"
        using fresh e1(1) x(6) by (simp add: V s_replace_def mpid)
      have place: "simulates (place_order dup (\<lambda>s. (inc_live_orders s)\<lparr>st_order_replace := st_order_replace s + 1\<rparr>)
          (o_order_id ?new) (o_locate ?new) n b' e5) (engine_caps e5) V
          (raise_peaks V (if no_level_for (snd (engine_caps e5)) (o_price_cents ?new) (o_locate ?new) (o_side ?new) (engine_view e5 G1)
             then inc_pool_exhausted (inc_level_pool_exhausted (counters (me_stats e5)))
             else (counters (me_stats e5))\<lparr>st_order_replace := st_order_replace (counters (me_stats e5)) + 1\<rparr>), ref_data e5)" for dup
      proof (rule place_simulates [OF e5(2,6) Q(2), where g = "\<lambda>s. s\<lparr>st_order_replace := st_order_replace s + 1\<rparr>"])
        show "book_at e5 (o_locate ?new) = Some b'" "o_price_cents ?new \<noteq> kEmptyPrice" using b' px keys by simp_all
        show "v_find (engine_view e5 G1) (o_order_id ?new) = None" using fresh e5(3) keys s_delete_find by simp
        show "length (q_prices (engine_view e5 G1 (o_locate ?new) (o_side ?new))) < 8192"
          using s_delete_prices [of old "engine_view e G" "o_locate x" "o_side x"] room [OF x(6)] e5(3) keys by simp
        show "V = (if no_level_for (snd (engine_caps e5)) (o_price_cents ?new) (o_locate ?new) (o_side ?new) (engine_view e5 G1)
          then engine_view e5 G1 else upd_queue (o_locate ?new) (o_side ?new) (q_add (o_data ?new)) (engine_view e5 G1))"
          unfolding V' e5(3,4) spec keys(5) ..
      qed (auto simp: inc_live_orders_def Let_def fun_eq_iff)
      have known: "count_replace (fst (engine_caps e)) (snd (engine_caps e)) loc old new px (engine_view e G) (counters (me_stats e)) =
          (if no_level_for (snd (engine_caps e)) px (o_locate x) (o_side x) (s_delete old (engine_view e G))
           then inc_pool_exhausted (inc_level_pool_exhausted (counters (me_stats e5)))
           else (counters (me_stats e5))\<lparr>st_order_replace := st_order_replace (counters (me_stats e5)) + 1\<rparr>)"
        unfolding count ledger(1,3) using fresh e1(1) by (simp add: o_data_keys)
      have "?rest n = place_order (\<lambda>e. do {
                       let e = bump inc_duplicate e;
                       b \<leftarrow> book_at e (o_locate x);
                       (rb, e) \<leftarrow> on_book (\<lambda>b ar. remove_order b ar n) (o_locate x) b e;
                       let e = (if rb = 2 then bump dec_live_levels e else e);
                       release_order e n })
          (\<lambda>s. (inc_live_orders s)\<lparr>st_order_replace := st_order_replace s + 1\<rparr>) new (o_locate x) n b' e5"
        using e4(1-4) e5(1) b' by auto
      then show ?thesis
        unfolding eval Some option.case known using place unfolding e5(3,4) keys ledger(2,4) by simp
    qed
  qed
qed

section \<open>The closing cross\<close>

lemma drop_order_ok:
  assumes ix: "index_ok (me_arena e) (me_index e) R" and own: "owned (ar_orders (me_arena e)) Q"
    and sub: "R \<subseteq> Q" and i: "i \<in> R"
  shows "\<exists>e'. drop_order e i = Some e' \<and> index_ok (me_arena e') (me_index e') (R - {i}) \<and>
    owned (ar_orders (me_arena e')) (Q - {i}) \<and> me_instruments e' = me_instruments e \<and> me_stats e' = me_stats e \<and>
    ar_levels (me_arena e') = ar_levels (me_arena e) \<and> engine_caps e' = engine_caps e \<and>
    (\<forall>j. j \<noteq> i \<longrightarrow> ord (me_arena e') j = ord (me_arena e) j)"
proof -
  from index_okD(2) [OF ix i] obtain x where x: "order_at (me_arena e) i x" by blast
  from index_del_ok [OF ix i x] obtain ix' where ix': "ix_del (me_arena e) (me_index e) (o_order_id x) = Some ix'"
    "index_ok (me_arena e) ix' (R - {i})" by blast
  have "i \<in> Q" using sub i by blast
  note rel = release_Some [OF own this]
  let ?p = "(ar_orders (me_arena e))\<lparr>mp_storage := (ord (me_arena e))(i := FreeNode (mp_head (ar_orders (me_arena e)))),
      mp_head := Some i\<rparr>"
  let ?ar = "(me_arena e)\<lparr>ar_orders := ?p\<rparr>"
  have "same_on (R - {i}) {} (me_arena e) ?ar" by (simp add: same_on_def)
  then have "index_ok ?ar ix' (R - {i})" by (intro index_ok_arena [OF ix'(2)] ids_kept_same)
  with rel ix'(1) x show ?thesis
    by (simp add: drop_order_def index_erase_def release_order_def exec_simps engine_caps_def)
qed

lemma drop_list_ok:
  "index_ok (me_arena e) (me_index e) R \<Longrightarrow> owned (ar_orders (me_arena e)) Q \<Longrightarrow> R \<subseteq> Q \<Longrightarrow>
   set is \<subseteq> R \<Longrightarrow> distinct is \<Longrightarrow>
   \<exists>e'. exec_list drop_order e is = Some e' \<and> index_ok (me_arena e') (me_index e') (R - set is) \<and>
     owned (ar_orders (me_arena e')) (Q - set is) \<and> me_instruments e' = me_instruments e \<and> me_stats e' = me_stats e \<and>
     ar_levels (me_arena e') = ar_levels (me_arena e) \<and> engine_caps e' = engine_caps e \<and>
     (\<forall>j. j \<notin> set is \<longrightarrow> ord (me_arena e') j = ord (me_arena e) j)"
proof (induction "is" arbitrary: e R Q)
  case Nil
  then show ?case by simp
next
  case (Cons i "is")
  then have "i \<in> R" by simp
  from drop_order_ok [OF Cons.prems(1-3) this] obtain e1 where e1: "drop_order e i = Some e1"
    "index_ok (me_arena e1) (me_index e1) (R - {i})" "owned (ar_orders (me_arena e1)) (Q - {i})"
    "me_instruments e1 = me_instruments e" "me_stats e1 = me_stats e"
    "ar_levels (me_arena e1) = ar_levels (me_arena e)" "engine_caps e1 = engine_caps e"
    "\<forall>j. j \<noteq> i \<longrightarrow> ord (me_arena e1) j = ord (me_arena e) j" by blast
  have "R - {i} \<subseteq> Q - {i}" "set is \<subseteq> R - {i}" "distinct is" using Cons.prems by auto
  from Cons.IH [OF e1(2,3) this] obtain e' where e':
    "exec_list drop_order e1 is = Some e'" "index_ok (me_arena e') (me_index e') (R - {i} - set is)"
    "owned (ar_orders (me_arena e')) (Q - {i} - set is)" "me_instruments e' = me_instruments e1"
    "me_stats e' = me_stats e1" "ar_levels (me_arena e') = ar_levels (me_arena e1)" "engine_caps e' = engine_caps e1"
    "\<forall>j. j \<notin> set is \<longrightarrow> ord (me_arena e') j = ord (me_arena e1) j" by blast
  have "R - {i} - set is = R - set (i # is)" "Q - {i} - set is = Q - set (i # is)" by auto
  with e1 e' show ?case by simp
qed

lemma stats_sub_live:
  assumes ok: "stats_ok s no nl" and le: "n \<le> no" "m \<le> nl" and bounds: "no < 2 ^ 64" "nl < 2 ^ 64"
  shows "stats_ok (sub_live (of_nat n) (of_nat m) s) (no - n) (nl - m)"
proof -
  have w: "(of_nat j :: u64) \<le> of_nat k \<and> (of_nat k :: u64) - of_nat j = of_nat (k - j) \<and>
      (of_nat k :: u64) - of_nat j \<le> of_nat k" if "j \<le> k" "k < 2 ^ 64" for j k
    using that by (simp add: word_le_nat_alt unat_of_nat flip: of_nat_diff)
  show ?thesis
    using ok w [OF le(1) bounds(1)] w [OF le(2) bounds(2)]
    by (auto simp: stats_ok_def sub_live_def Let_def intro: order_trans)
qed

lemma card_Diff_sub:
  assumes "finite A" "B \<subseteq> A"
  shows "card (A - B) = card A - card B" "card B \<le> card A"
  using assms by (auto intro: card_Diff_subset card_mono finite_subset)

lemma cross_closing:
  assumes rep: "engine_rep e G" and b: "book_at e loc = Some b"
  shows "simulates (do {
           let book_levels = live_levels b;
           snapshot \<leftarrow> for_each_order b (me_arena e);
           e \<leftarrow> exec_list drop_order e snapshot;
           let e = bump (sub_live (of_nat (length snapshot)) book_levels) e;
           (b, ar) \<leftarrow> clear_levels b (me_arena e);
           Some (put_book loc b (e\<lparr>me_arena := ar\<rparr>)) }) (engine_caps e) ((engine_view e G)(loc := (\<lambda>_. [])))
    (raise_peaks ((engine_view e G)(loc := (\<lambda>_. []))) (counters (me_stats e)), ref_data e)"
proof -
  note mid = engine_repD [OF rep]
  note M = midD [OF mid]
  note brep = mid_rep [OF mid b]
  have sides: "book_sides (me_arena e) b (G loc)" using brep by (simp add: book_rep_iff)
  let ?is = "orders_of (G loc Buy) @ orders_of (G loc Sell)"
  let ?G = "G(loc := (\<lambda>_. []))"
  have is_set: "set ?is = book_orders (G loc)" by (simp add: book_orders_def)
  have dis: "distinct ?is" "distinct (levels_of (G loc Buy) @ levels_of (G loc Sell))"
    using side_orders_distinct [OF mid_side [OF mid]] side_memD(1) [OF mid_side [OF mid]]
      sides_disjoint [OF mid_side [OF mid] mid_side [OF mid], of Buy Sell] by simp_all
  have sub: "set ?is \<subseteq> all_orders G" unfolding is_set by (rule all_orders_in(1))
  from drop_list_ok [OF M(4,2) subset_refl sub dis(1)] obtain e1 where e1:
    "exec_list drop_order e ?is = Some e1" "index_ok (me_arena e1) (me_index e1) (all_orders G - book_orders (G loc))"
    "owned (ar_orders (me_arena e1)) (all_orders G - book_orders (G loc))" "me_instruments e1 = me_instruments e"
    "me_stats e1 = me_stats e" "ar_levels (me_arena e1) = ar_levels (me_arena e)" "engine_caps e1 = engine_caps e"
    "\<forall>j. j \<notin> book_orders (G loc) \<longrightarrow> ord (me_arena e1) j = ord (me_arena e) j" unfolding is_set by blast
  have links: "dlinks l_next_level l_prev_level (lev (me_arena e1)) None (levels_of (G loc s)) None" for s
    using side_memD(2) [OF mid_side [OF mid]] e1(6) by simp
  have own1: "owned (ar_levels (me_arena e1)) (all_levels G)" using M(3) e1(6) by simp
  from clear_levels_ok [OF links side_best [OF sides] dis(2) own1 all_orders_in(2)] obtain b' ar where ar:
    "clear_levels b (me_arena e1) = Some (b', ar)" "book_rep ar b' (\<lambda>_. [])"
    "owned (ar_levels ar) (all_levels G - book_levels (G loc))" "arena_frame {} (book_levels (G loc)) (me_arena e1) ar"
    by blast
  define e2 where "e2 = bump (sub_live (of_nat (length ?is)) (live_levels b)) e1"
  let ?e = "put_book loc b' (e2\<lparr>me_arena := ar\<rparr>)"
  have orders: "all_orders ?G = all_orders G - book_orders (G loc)" "all_levels ?G = all_levels G - book_levels (G loc)"
    unfolding all_upd all_split(1) [of G loc] all_split(2) [of G loc] using mid_apart [OF mid, of _ loc] by auto
  have same: "same_on (book_orders (G l)) (book_levels (G l)) (me_arena e) ar" if "l \<noteq> loc" for l
    using ar(4) e1(6,7,8) mid_apart [OF mid that] unfolding same_on_def arena_frame_def engine_caps_def by auto
  have bk: "book_at (e2\<lparr>me_arena := ar\<rparr>) = book_at e" using e1(4) by (intro book_at_cong) (simp add: e2_def)
  then have bk_loc: "book_at (e2\<lparr>me_arena := ar\<rparr>) loc = Some b" using b by simp
  have books: "books_ok (book_at ?e) ar ?G"
    unfolding book_at_put(1) [OF bk_loc] bk by (rule books_ok_upd [OF M(1) same ar(2)]) simp_all
  have ids: "ids_kept (all_orders ?G) (me_arena e1) ar"
    using ar(4) by (auto simp: ids_kept_def order_at_frame)
  have caps: "engine_caps ?e = engine_caps e"
    using e1(7) ar(4) by (simp add: engine_caps_def arena_frame_def)
  have len: "card (book_orders (G loc)) = length ?is"
    "card (book_levels (G loc)) = length (G loc Buy) + length (G loc Sell)"
    using distinct_card [OF dis(1)] distinct_card [OF dis(2)] is_set by (simp_all add: book_levels_def levels_of_def)
  note card_o = card_Diff_sub [OF pool.own_finite [OF M(2)] all_orders_in(1) [of G loc], folded orders(1), unfolded len(1)]
  note card_l = card_Diff_sub [OF pool.own_finite [OF M(3)] all_orders_in(2) [of G loc], folded orders(2), unfolded len(2)]
  have "live_levels b = of_nat (length (G loc Buy) + length (G loc Sell))"
    using book_sidesD(2) [OF sides, of Buy] book_sidesD(2) [OF sides, of Sell]
    by (simp add: live_levels_def side_index_def book_count_def)
  then have stats: "stats_ok (me_stats ?e) (card (all_orders ?G)) (card (all_levels ?G))"
    using stats_sub_live [OF M(7) card_o(2) card_l(2) mid_bounds(1,2) [OF mid]] e1(5)
    by (simp add: e2_def card_o(1) card_l(1))
  have "engine_mid ?e ?G (all_orders ?G) (all_orders ?G) (card (all_orders ?G)) (card (all_levels ?G))"
  proof (rule midI)
    show "owned (ar_orders (me_arena ?e)) (all_orders ?G)"
      using owned_orders_frame [OF e1(3) ar(4)] orders(1) by simp
    show "index_ok (me_arena ?e) (me_index ?e) (all_orders ?G)"
      using index_ok_arena [OF e1(2) [folded orders(1)] ids] by (simp add: e2_def)
    show "im_ok (me_instruments ?e)"
      by (rule book_at_put(2) [OF bk_loc]) (simp add: e2_def e1(4) M(10))
  qed (use books ar(3) orders(2) stats caps M(8,9) in \<open>simp_all add: engine_caps_def\<close>)
  moreover have "engine_view ?e ?G = (engine_view e G)(loc := (\<lambda>_. []))"
  proof (intro ext)
    fix l s
    have "book_view ar (G l) s = book_view (me_arena e) (G l) s" if "l \<noteq> loc"
      unfolding book_view_def using same [OF that] side_subset(1) [of "G l" s]
      by (intro map_cong refl) (auto simp: same_on_def data_at_def)
    then show "engine_view ?e ?G l s = ((engine_view e G)(loc := (\<lambda>_. []))) l s"
      by (cases "l = loc") (simp_all add: engine_view_def book_view_def)
  qed
  moreover have "for_each_order b (me_arena e) = Some ?is" by (rule for_each_order_ok [OF brep])
  moreover have "counters (me_stats ?e) = counters (me_stats e)" "ref_data ?e = ref_data e"
    using e1(5) ref_data_cong [OF e1(4)] by (simp_all add: e2_def)
  ultimately show ?thesis
    using caps e1(1) ar(1) by (intro simulatesI [of _ ?e ?G]) (simp_all add: e2_def)
qed

lemma cross_simulates:
  assumes rep: "engine_rep e G"
    and V: "V = s_cross loc xtype (engine_view e G)"
  shows "simulates (on_cross_trade e loc xtype) (engine_caps e) V
    (raise_peaks V ((counters (me_stats e))\<lparr>st_cross_trades := st_cross_trades (counters (me_stats e)) + 1\<rparr>), ref_data e)"
    (is "simulates _ _ _ ?l")
proof -
  define e1 where "e1 = bump (\<lambda>s. s\<lparr>st_cross_trades := st_cross_trades s + 1\<rparr>) e"
  have rep1: "engine_rep e1 G"
    using mid_bump_same [OF engine_repD [OF rep]] by (simp add: engine_rep_def e1_def)
  have e1: "engine_caps e1 = engine_caps e" "engine_view e1 = engine_view e" "ref_data e1 = ref_data e"
    "counters (me_stats e1) = (counters (me_stats e))\<lparr>st_cross_trades := st_cross_trades (counters (me_stats e)) + 1\<rparr>"
    using plainD(2) [OF plain_counts(8)] by (simp_all add: e1_def)
  have stay: "simulates (Some e1) (engine_caps e) V ?l" if "V = engine_view e G"
    using simulates_bump [OF rep plain_counts(8) that] by (simp add: e1_def)
  show ?thesis
  proof (cases "xtype = CrossType_Closing")
    case False
    then show ?thesis using stay by (simp add: on_cross_trade_def V s_cross_def flip: e1_def)
  next
    case True
    show ?thesis
    proof (cases "book_at e1 loc")
      case None
      then have "G loc = (\<lambda>_. [])" using books_okD(2) midD(1) [OF engine_repD [OF rep1]] by blast
      then have "(engine_view e G)(loc := (\<lambda>_. [])) = engine_view e G"
        by (auto simp: engine_view_def book_view_def fun_eq_iff)
      then show ?thesis using stay True None by (simp add: on_cross_trade_def V s_cross_def flip: e1_def)
    next
      case (Some b)
      show ?thesis
        using cross_closing [OF rep1 Some] True Some e1 by (simp add: on_cross_trade_def V s_cross_def flip: e1_def)
    qed
  qed
qed

end
