(* ===== verification/Engine_Machine.thy ===== *)
theory Engine_Machine
  imports Engine_Handlers
begin

text \<open>
  The engine as a machine that handles a list of events, one constructor per handler, and its
  refinement of the abstract engine, with and without its ledger. The properties are about every run
  from a fresh engine.
\<close>

section \<open>Events\<close>

datatype event =
    StockDirectory StockLocate "byte list" MarketCategory FinancialStatusIndicator RoundLotSize RoundLotsOnly
      Authenticity ShortScaleThresholdIndicator IPOFlag LULDReferencePriceTier ETPFlag ETPLeverageFactor InverseIndicator
  | TradingAction StockLocate TradingState
  | RegSHO StockLocate RegSHOAction
  | AddOrder StockLocate OrderReferenceNumber BuySellIndicator Shares Price Timestamp MPID bool
  | OrderExecuted StockLocate OrderReferenceNumber Shares
  | OrderExecutedWithPrice StockLocate OrderReferenceNumber Shares
  | OrderCancel StockLocate OrderReferenceNumber Shares
  | OrderDelete StockLocate OrderReferenceNumber
  | OrderReplace StockLocate OrderReferenceNumber OrderReferenceNumber Shares Price Timestamp
  | NonCrossTrade
  | CrossTrade StockLocate CrossType
  | BrokenTrade

fun engine_step :: "MatchingEngine \<Rightarrow> event \<Rightarrow> MatchingEngine exec" where
  "engine_step e (StockDirectory loc symbol mc fsi rls rlo auth ssti ipo luld etp elf invi) =
     Some (on_stock_directory e loc symbol mc fsi rls rlo auth ssti ipo luld etp elf invi)"
| "engine_step e (TradingAction loc state) = Some (on_trading_action e loc state)"
| "engine_step e (RegSHO loc action) = Some (on_reg_sho e loc action)"
| "engine_step e (AddOrder loc oid bsi qty px ts mpid attributed) = on_add_order e loc oid bsi qty px ts mpid attributed"
| "engine_step e (OrderExecuted loc oid qty) = on_order_executed e loc oid qty"
| "engine_step e (OrderExecutedWithPrice loc oid qty) = on_order_executed_with_price e loc oid qty"
| "engine_step e (OrderCancel loc oid qty) = on_order_cancel e loc oid qty"
| "engine_step e (OrderDelete loc oid) = on_order_delete e loc oid"
| "engine_step e (OrderReplace loc old new qty px ts) = on_order_replace e loc old new qty px ts"
| "engine_step e NonCrossTrade = Some (on_non_cross_trade e)"
| "engine_step e (CrossTrade loc xtype) = on_cross_trade e loc xtype"
| "engine_step e BrokenTrade = Some (on_broken_trade e)"

text \<open>The specification: the event acts on the queues only; locates of fills, cancels, deletes and
replaces are ignored, since the order knows its own.\<close>

fun spec_step :: "nat \<Rightarrow> nat \<Rightarrow> view \<Rightarrow> event \<Rightarrow> view" where
  "spec_step oc lc V (AddOrder loc oid bsi qty px ts mpid attributed) =
     s_add oc lc (Order_init oid loc px qty (to_side bsi) ts (if attributed then mpid else no_mpid)) V"
| "spec_step oc lc V (OrderExecuted loc oid qty) = s_fill oid qty V"
| "spec_step oc lc V (OrderExecutedWithPrice loc oid qty) = s_fill oid qty V"
| "spec_step oc lc V (OrderCancel loc oid qty) = s_fill oid qty V"
| "spec_step oc lc V (OrderDelete loc oid) = s_delete oid V"
| "spec_step oc lc V (OrderReplace loc old new qty px ts) = s_replace oc lc old new qty px ts V"
| "spec_step oc lc V (CrossTrade loc xtype) = s_cross loc xtype V"
| "spec_step oc lc V _ = V"

text \<open>What an event does to the counters and to the reference data.\<close>

fun count_event :: "nat \<Rightarrow> nat \<Rightarrow> view \<Rightarrow> refs \<Rightarrow> event \<Rightarrow> EngineStats \<Rightarrow> EngineStats" where
  "count_event oc lc V R (StockDirectory loc symbol mc fsi rls rlo auth ssti ipo luld etp elf invi) s =
     (if R loc = None then s\<lparr>st_instruments_registered := st_instruments_registered s + 1\<rparr> else s)"
| "count_event oc lc V R (TradingAction loc state) s = s"
| "count_event oc lc V R (RegSHO loc action) s = s"
| "count_event oc lc V R (AddOrder loc oid bsi qty px ts mpid attributed) s = count_add oc lc
     (Order_init oid loc px qty (to_side bsi) ts (if attributed then mpid else no_mpid)) attributed V s"
| "count_event oc lc V R (OrderExecuted loc oid qty) s =
     count_known (\<lambda>s. s\<lparr>st_order_executed := st_order_executed s + 1\<rparr>) loc oid V s"
| "count_event oc lc V R (OrderExecutedWithPrice loc oid qty) s =
     count_known (\<lambda>s. s\<lparr>st_order_executed_with_price := st_order_executed_with_price s + 1\<rparr>) loc oid V s"
| "count_event oc lc V R (OrderCancel loc oid qty) s =
     count_known (\<lambda>s. s\<lparr>st_order_cancel := st_order_cancel s + 1\<rparr>) loc oid V s"
| "count_event oc lc V R (OrderDelete loc oid) s =
     count_known (\<lambda>s. s\<lparr>st_order_delete := st_order_delete s + 1\<rparr>) loc oid V s"
| "count_event oc lc V R (OrderReplace loc old new qty px ts) s = count_replace oc lc loc old new px V s"
| "count_event oc lc V R NonCrossTrade s = s\<lparr>st_non_cross_trades := st_non_cross_trades s + 1\<rparr>"
| "count_event oc lc V R (CrossTrade loc xtype) s = s\<lparr>st_cross_trades := st_cross_trades s + 1\<rparr>"
| "count_event oc lc V R BrokenTrade s = s\<lparr>st_broken_trades := st_broken_trades s + 1\<rparr>"

fun ref_event :: "view \<Rightarrow> event \<Rightarrow> refs \<Rightarrow> refs" where
  "ref_event V (StockDirectory loc symbol mc fsi rls rlo auth ssti ipo luld etp elf invi) R =
     R(loc := Some (describe symbol mc fsi rls rlo auth ssti ipo luld etp elf invi (ref_get loc R)))"
| "ref_event V (TradingAction loc state) R = ref_update loc (\<lambda>i. i\<lparr>in_tradingState := state\<rparr>) R"
| "ref_event V (RegSHO loc action) R = ref_update loc (\<lambda>i. i\<lparr>in_regSHOAction := action\<rparr>) R"
| "ref_event V (AddOrder loc oid bsi qty px ts mpid attributed) R =
     (if v_find V oid = None then R(loc := Some (ref_get loc R)) else R)"
| "ref_event V _ R = R"

text \<open>The queues with the ledger.\<close>

fun feed_step :: "nat \<Rightarrow> nat \<Rightarrow> view \<times> ledger \<Rightarrow> event \<Rightarrow> view \<times> ledger" where
  "feed_step oc lc (V, s, R) ev =
     (spec_step oc lc V ev, raise_peaks (spec_step oc lc V ev) (count_event oc lc V R ev s), ref_event V ev R)"

text \<open>
  Admissible events. A price must not be the code's empty-slot sentinel, and the side it goes
  to must have room in its map of 8192 levels: beyond either the code loses the level.
\<close>

fun event_ok :: "view \<Rightarrow> event \<Rightarrow> bool" where
  "event_ok V (AddOrder loc oid bsi qty px ts mpid attributed) \<longleftrightarrow>
     px \<noteq> kEmptyPrice \<and> length (q_prices (V loc (to_side bsi))) < 8192"
| "event_ok V (OrderReplace loc old new qty px ts) \<longleftrightarrow> px \<noteq> kEmptyPrice \<and>
     (case v_find V old of None \<Rightarrow> True | Some y \<Rightarrow> length (q_prices (V (o_locate y) (o_side y))) < 8192)"
| "event_ok V _ \<longleftrightarrow> True"

abbreviation no_orders :: view where
  "no_orders \<equiv> \<lambda>_ _. []"

definition fresh :: "view \<times> ledger" where
  "fresh = (no_orders, EngineStats_init, \<lambda>_. None)"

definition refines :: "nat \<Rightarrow> nat \<Rightarrow> MatchingEngine \<Rightarrow> view \<Rightarrow> bool" where
  "refines oc lc e V \<longleftrightarrow> (\<exists>G. engine_rep e G \<and> engine_view e G = V) \<and> engine_caps e = (oc, lc)"

text \<open>The engine implements the queues and keeps the ledger.\<close>

definition records :: "nat \<Rightarrow> nat \<Rightarrow> MatchingEngine \<Rightarrow> view \<times> ledger \<Rightarrow> bool" where
  "records oc lc e a \<longleftrightarrow> refines oc lc e (fst a) \<and> ledger e = snd a"

lemma records_simulates:
  "simulates r (oc, lc) V l \<longleftrightarrow> (\<exists>e. r = Some e \<and> records oc lc e (V, l))"
  by (auto simp: simulates_def refines_def records_def)

lemma fst_feed_step: "fst (feed_step oc lc a ev) = spec_step oc lc (fst a) ev"
  by (cases a) simp

lemma fst_feed: "fst (foldl (feed_step oc lc) a es) = foldl (spec_step oc lc) (fst a) es"
  by (induction es arbitrary: a) (simp_all add: fst_feed_step)

lemma admissible_feed:
  "all_admissible (feed_step oc lc) (\<lambda>a. event_ok (fst a)) a es \<longleftrightarrow> all_admissible (spec_step oc lc) event_ok (fst a) es"
  by (induction es arbitrary: a) (simp_all add: fst_feed_step)

section \<open>Every step\<close>

lemma trades_simulate:
  assumes "engine_rep e G"
  shows "simulates (Some (on_non_cross_trade e)) (engine_caps e) (engine_view e G) (raise_peaks (engine_view e G)
      ((counters (me_stats e))\<lparr>st_non_cross_trades := st_non_cross_trades (counters (me_stats e)) + 1\<rparr>), ref_data e)"
    "simulates (Some (on_broken_trade e)) (engine_caps e) (engine_view e G) (raise_peaks (engine_view e G)
      ((counters (me_stats e))\<lparr>st_broken_trades := st_broken_trades (counters (me_stats e)) + 1\<rparr>), ref_data e)"
  unfolding on_non_cross_trade_def on_broken_trade_def
  by (rule simulates_bump [OF assms plain_counts(9) refl], rule simulates_bump [OF assms plain_counts(10) refl])

lemma cancel_is_execute: "cancel_order = execute_order"
  by (simp add: cancel_order_def fun_eq_iff)

lemma fills_simulate:
  assumes rep: "engine_rep e G" and V: "V = s_fill oid qty (engine_view e G)"
  shows "simulates (on_order_executed e loc oid qty) (engine_caps e) V (raise_peaks V
      (count_known (\<lambda>s. s\<lparr>st_order_executed := st_order_executed s + 1\<rparr>) loc oid (engine_view e G) (counters (me_stats e))), ref_data e)"
    "simulates (on_order_executed_with_price e loc oid qty) (engine_caps e) V (raise_peaks V
      (count_known (\<lambda>s. s\<lparr>st_order_executed_with_price := st_order_executed_with_price s + 1\<rparr>) loc oid (engine_view e G)
        (counters (me_stats e))), ref_data e)"
    "simulates (on_order_cancel e loc oid qty) (engine_caps e) V (raise_peaks V
      (count_known (\<lambda>s. s\<lparr>st_order_cancel := st_order_cancel s + 1\<rparr>) loc oid (engine_view e G) (counters (me_stats e))), ref_data e)"
  unfolding on_order_executed_def on_order_executed_with_price_def on_order_cancel_def cancel_is_execute
  by (rule fill_simulates [OF rep plain_counts(1) V], rule fill_simulates [OF rep plain_counts(2) V],
      rule fill_simulates [OF rep plain_counts(3) V])

lemma step_simulates:
  assumes rep: "engine_rep e G" and caps: "engine_caps e = (oc, lc)" and ok: "event_ok (engine_view e G) ev"
    and a: "(V, l) = feed_step oc lc (engine_view e G, ledger e) ev"
  shows "simulates (engine_step e ev) (engine_caps e) V l"
proof -
  from a have l: "V = spec_step oc lc (engine_view e G) ev" "l = (raise_peaks V (count_event oc lc (engine_view e G) (ref_data e) ev
      (counters (me_stats e))), ref_event (engine_view e G) ev (ref_data e))" by (simp_all add: ledger_def)
  show ?thesis
  proof (cases ev)
    case (AddOrder loc oid bsi qty px ts mpid attributed)
    have "V = s_add (fst (engine_caps e)) (snd (engine_caps e)) (Order_init oid loc px qty (to_side bsi) ts (if attributed then mpid else no_mpid))
        (engine_view e G)" using l(1) AddOrder caps by simp
    from add_simulates [OF rep _ _ refl this] show ?thesis using l(2) AddOrder ok caps by simp
  next
    case (OrderReplace loc old new qty px ts)
    have "V = s_replace (fst (engine_caps e)) (snd (engine_caps e)) old new qty px ts (engine_view e G)"
      using l(1) OrderReplace caps by simp
    from replace_simulates [OF rep _ _ this, of loc] show ?thesis using l(2) OrderReplace ok caps by (simp split: option.splits)
  next
    case (StockDirectory loc symbol mc fsi rls rlo auth ssti ipo luld etp elf invi)
    then show ?thesis using directory_simulates [OF rep] l by simp
  next
    case (OrderDelete loc oid)
    have "V = s_delete oid (engine_view e G)" using l(1) OrderDelete by simp
    from delete_simulates [OF rep this refl] show ?thesis using l(2) OrderDelete by simp
  next
    case (CrossTrade loc xtype)
    have "V = s_cross loc xtype (engine_view e G)" using l(1) CrossTrade by simp
    from cross_simulates [OF rep this] show ?thesis using l(2) CrossTrade by simp
  qed (use l fills_simulate [OF rep] trades_simulate [OF rep] trading_action_simulates [OF rep] reg_sho_simulates [OF rep] in simp_all)
qed

text \<open>The engine simulates the queues with their ledger, and so the queues alone.\<close>

interpretation recorded: simulation engine_step "feed_step oc lc" "records oc lc" "\<lambda>a. event_ok (fst a)"
proof unfold_locales
  fix e a ev assume rec: "records oc lc e a" and ok: "event_ok (fst a) ev"
  then obtain G where G: "engine_rep e G" "engine_view e G = fst a" "engine_caps e = (oc, lc)" "ledger e = snd a"
    by (auto simp: refines_def records_def)
  from step_simulates [OF G(1,3) _ prod.collapse] ok G show "\<exists>e'. engine_step e ev = Some e' \<and> records oc lc e' (feed_step oc lc a ev)"
    by (simp add: records_simulates)
qed

interpretation engine: simulation engine_step "spec_step oc lc" "refines oc lc" event_ok
proof unfold_locales
  fix e V ev assume "refines oc lc e V" "event_ok V ev"
  then have "records oc lc e (V, ledger e)" "event_ok (fst (V, ledger e)) ev" by (simp_all add: records_def)
  from recorded.step_sim [OF this] show "\<exists>e'. engine_step e ev = Some e' \<and> refines oc lc e' (spec_step oc lc V ev)"
    by (auto simp: records_def fst_feed_step)
qed

section \<open>A fresh engine\<close>

lemma refines_init:
  assumes "oc < 2 ^ 32" "lc < 2 ^ 64"
  shows "refines oc lc (MatchingEngine_init oc lc) no_orders"
proof -
  let ?e = "MatchingEngine_init oc lc" and ?G = "\<lambda>_ _. [] :: levels"
  have none: "book_at ?e loc = None" for loc
    by (simp add: book_at_def MatchingEngine_init_def InstrumentMap_init_def im_at_def)
  have all: "all_orders ?G = {}" "all_levels ?G = {}" by (simp_all add: all_orders_def all_levels_def)
  have "index_ok (me_arena ?e) (me_index ?e) {}"
    using ix_ok_init by (simp add: index_ok_def MatchingEngine_init_def)
  moreover have "books_ok (book_at ?e) (me_arena ?e) ?G" by (simp add: books_ok_def none)
  ultimately have "engine_mid ?e ?G {} {} 0 0"
    using assms by (intro midI) (simp_all add: all MatchingEngine_init_def owned_init im_ok_init stats_ok_def EngineStats_init_def)
  then have "engine_rep ?e ?G" by (simp add: engine_rep_def all)
  moreover have "engine_view ?e ?G = no_orders" by (simp add: engine_view_def book_view_def fun_eq_iff)
  ultimately show ?thesis by (auto simp: refines_def engine_caps_def MatchingEngine_init_def)
qed

lemma records_init:
  assumes "oc < 2 ^ 32" "lc < 2 ^ 64"
  shows "records oc lc (MatchingEngine_init oc lc) fresh"
  using refines_init [OF assms]
  by (auto simp: records_def fresh_def ledger_def ref_data_def counters_def MatchingEngine_init_def EngineStats_init_def
      InstrumentMap_init_def im_at_def)

lemma records_run:
  assumes "records oc lc e a" "all_admissible (spec_step oc lc) event_ok (fst a) es"
  shows "\<exists>e'. exec_list engine_step e es = Some e' \<and> records oc lc e' (foldl (feed_step oc lc) a es)"
  using recorded.run_sim [OF assms(1)] assms(2) by (simp add: admissible_feed)

end
