(* ===== verification/Time_Priority.thy ===== *)
theory Time_Priority
  imports Engine_Machine "HOL-Library.Sublist"
begin

text \<open>
  Price-time priority of the abstract queues. The time of an order is read off the feed: the number of
  the last event after which its reference number was in no queue. Fills, cancels and deletes keep the
  order of a queue; an order that joins goes behind every order of its price, since each of them was
  there before it.
\<close>

section \<open>Times\<close>

definition view_after :: "nat \<Rightarrow> nat \<Rightarrow> event list \<Rightarrow> nat \<Rightarrow> view" where
  "view_after oc lc es k = foldl (spec_step oc lc) no_orders (take k es)"

definition last_absent :: "nat \<Rightarrow> nat \<Rightarrow> event list \<Rightarrow> OrderReferenceNumber \<Rightarrow> nat" where
  "last_absent oc lc es oid = last (filter (\<lambda>k. v_find (view_after oc lc es k) oid = None) [0..<Suc (length es)])"

text \<open>Better prices first, and at one price the earlier order first.\<close>

definition price_time_sorted :: "(OrderReferenceNumber \<Rightarrow> nat) \<Rightarrow> Side \<Rightarrow> Order list \<Rightarrow> bool" where
  "price_time_sorted T s q \<longleftrightarrow> sorted_wrt (\<lambda>y z. better s (o_price_cents y) (o_price_cents z) \<or>
     o_price_cents y = o_price_cents z \<and> T (o_order_id y) < T (o_order_id z)) q"

lemma no_order_found [simp]: "v_find no_orders oid = None"
  by (simp add: v_find_None)

lemma last_absent_snoc:
  "last_absent oc lc (es @ [ev]) oid =
     (if v_find (foldl (spec_step oc lc) no_orders (es @ [ev])) oid = None then Suc (length es)
      else last_absent oc lc es oid)"
proof -
  have "filter (\<lambda>k. v_find (view_after oc lc (es @ [ev]) k) oid = None) [0..<Suc (length es)] =
      filter (\<lambda>k. v_find (view_after oc lc es k) oid = None) [0..<Suc (length es)]"
    by (rule filter_cong [OF refl]) (auto simp: view_after_def less_Suc_eq)
  then show ?thesis by (simp add: last_absent_def view_after_def)
qed

lemma last_absent_le: "last_absent oc lc es oid \<le> length es"
  by (induction es rule: rev_induct) (simp_all add: last_absent_snoc last_absent_def [of _ _ "[]"] view_after_def)

lemma last_absent_absent:
  "v_find (foldl (spec_step oc lc) no_orders es) oid = None \<Longrightarrow> last_absent oc lc es oid = length es"
  by (simp add: last_absent_def view_after_def)

lemma last_absent_present:
  assumes "v_find (foldl (spec_step oc lc) no_orders es) oid \<noteq> None"
  shows "last_absent oc lc es oid < length es"
proof (cases es rule: rev_cases)
  case (snoc es' ev)
  with assms last_absent_le [of oc lc es' oid] show ?thesis by (simp add: last_absent_snoc)
qed (use assms in simp)

section \<open>What keeps a queue in order\<close>

definition key :: "Order \<Rightarrow> OrderReferenceNumber \<times> Price" where
  "key y = (o_order_id y, o_price_cents y)"

lemma price_time_keys:
  "price_time_sorted T s q \<longleftrightarrow>
     sorted_wrt (\<lambda>(i, p) (j, r). better s p r \<or> p = r \<and> T i < T j) (map key q)"
  by (simp add: price_time_sorted_def sorted_wrt_map key_def)

lemma sorted_wrt_subseq: "subseq xs ys \<Longrightarrow> sorted_wrt P ys \<Longrightarrow> sorted_wrt P xs"
proof (induction rule: list_emb.induct)
  case (list_emb_Cons2 x y xs ys)
  then show ?case using list_emb_set by fastforce
qed auto

lemma price_time_subseq:
  "subseq (map key q') (map key q) \<Longrightarrow> price_time_sorted T s q \<Longrightarrow> price_time_sorted T s q'"
  unfolding price_time_keys by (rule sorted_wrt_subseq)

lemma price_time_times:
  "(\<And>y. y \<in> set q \<Longrightarrow> T' (o_order_id y) = T (o_order_id y)) \<Longrightarrow> price_time_sorted T s q \<Longrightarrow> price_time_sorted T' s q"
  unfolding price_time_sorted_def by (erule sorted_wrt_mono_rel [rotated]) auto

lemma set_q_add: "set (q_add x q) = insert x (set q)"
  unfolding q_add_def by (metis list.simps(15) set_append Un_insert_right takeWhile_dropWhile_id)

lemma price_time_add:
  assumes sorted: "price_time_sorted T s q" and side: "o_side x = s"
    and late: "\<And>y. y \<in> set q \<Longrightarrow> T (o_order_id y) < T (o_order_id x)"
  shows "price_time_sorted T s (q_add x q)"
proof -
  let ?P = "\<lambda>y. \<not> better s (o_price_cents x) (o_price_cents y)"
  let ?R = "\<lambda>y z. better s (o_price_cents y) (o_price_cents z) \<or>
     o_price_cents y = o_price_cents z \<and> T (o_order_id y) < T (o_order_id z)"
  have "sorted_wrt ?R (takeWhile ?P q @ dropWhile ?P q)" using sorted by (simp add: price_time_sorted_def)
  note split = this [unfolded sorted_wrt_append]
  have before: "?R y x" if "y \<in> set (takeWhile ?P q)" for y
    using set_takeWhileD [OF that] late [of y] better_linear [of "o_price_cents y" "o_price_cents x" s] by blast
  have after: "?R x z" if z: "z \<in> set (dropWhile ?P q)" for z
  proof -
    from z obtain h t where d: "dropWhile ?P q = h # t" by (cases "dropWhile ?P q") auto
    then have h: "better s (o_price_cents x) (o_price_cents h)" using hd_dropWhile [of ?P q] by simp
    from split d z have "z = h \<or> ?R h z" by (auto simp del: takeWhile_dropWhile_id)
    then show ?thesis using h better_trans [OF h, of "o_price_cents z"] by auto
  qed
  have "sorted_wrt ?R (takeWhile ?P q @ x # dropWhile ?P q)"
    unfolding sorted_wrt_append using split before after by simp
  then show ?thesis by (simp add: price_time_sorted_def q_add_def side)
qed

lemma subseq_fill: "subseq (map key (q_fill oid n q)) (map key q)"
  by (induction q) (auto simp: q_fill_def fill1_def key_def)

lemma subseq_remove: "subseq (map key (q_remove oid q)) (map key q)"
  by (simp add: q_remove_def subseq_map)

section \<open>One event\<close>

text \<open>
  An event leaves a queue with part of its orders, in their order, and may add one whose reference
  number was in no queue.
\<close>

lemma s_add_queue:
  "s_add oc lc x V loc s = V loc s \<or>
   o_side x = s \<and> v_find V (o_order_id x) = None \<and> s_add oc lc x V loc s = q_add x (V loc s)"
  by (auto simp: s_add_def Let_def upd_queue_def)

lemma step_queue:
  "subseq (map key (spec_step oc lc V ev loc s)) (map key (V loc s)) \<or>
   (\<exists>x q. spec_step oc lc V ev loc s = q_add x q \<and> subseq (map key q) (map key (V loc s)) \<and>
      o_side x = s \<and> v_find V (o_order_id x) = None)"
proof (cases ev)
  case (AddOrder loc' oid bsi qty px ts mpid attributed)
  then show ?thesis
    using s_add_queue [of oc lc "Order_init oid loc' px qty (to_side bsi) ts (if attributed then mpid else no_mpid)" V loc s]
    by (metis spec_step.simps(1) subseq_order.order_refl)
next
  case (OrderReplace loc' old new qty px ts)
  show ?thesis
  proof (cases "v_find V old = None \<or> v_find V new \<noteq> None \<or> length (v_all V) = oc")
    case True
    then have "spec_step oc lc V ev loc s = V loc s" by (auto simp: OrderReplace s_replace_def split: option.splits)
    then show ?thesis by simp
  next
    case False
    then obtain y where y: "v_find V old = Some y" by auto
    let ?x = "Order_init new (o_locate y) px qty (o_side y) ts (o_mpid y)"
    have step: "spec_step oc lc V ev = s_add oc lc ?x (s_delete old V)"
      using y False by (simp add: OrderReplace s_replace_def)
    have "subseq (map key (s_delete old V loc s)) (map key (V loc s))" by (simp add: s_delete_def subseq_remove)
    moreover have "o_order_id ?x = new" by (simp add: Order_init_def)
    ultimately show ?thesis using s_add_queue [of oc lc ?x "s_delete old V" loc s] False unfolding step by metis
  qed
next
  case (CrossTrade loc' xtype)
  then show ?thesis by (simp add: s_cross_def)
qed (simp_all add: s_fill_def s_delete_def subseq_fill subseq_remove)

lemma queued_found: "y \<in> set (V loc s) \<Longrightarrow> v_find V (o_order_id y) \<noteq> None"
  by (auto simp: v_find_None)

lemma subseq_keys: "subseq (map key q') (map key q) \<Longrightarrow> y \<in> set q' \<Longrightarrow> \<exists>z\<in>set q. o_order_id z = o_order_id y"
proof -
  assume sub: "subseq (map key q') (map key q)" and y: "y \<in> set q'"
  have "key y \<in> set (map key q')" using y by simp
  from list_emb_set [OF sub this] obtain w where w: "w \<in> set (map key q)" "key y = w" .
  then obtain z where "z \<in> set q" "key z = key y" by auto
  then show ?thesis by (intro bexI [of _ z]) (simp_all add: key_def)
qed

theorem queues_price_time:
  "price_time_sorted (last_absent oc lc es) s (foldl (spec_step oc lc) no_orders es loc s)"
proof (induction es rule: rev_induct)
  case Nil
  then show ?case by (simp add: price_time_sorted_def)
next
  case (snoc ev es)
  let ?V = "foldl (spec_step oc lc) no_orders es" and ?T = "last_absent oc lc es"
  let ?V' = "spec_step oc lc ?V ev" and ?T' = "last_absent oc lc (es @ [ev])"
  have time: "?T' (o_order_id y) = ?T (o_order_id y)" if "y \<in> set (?V' loc s)" for y
    using queued_found [of y ?V' loc s] that by (simp add: last_absent_snoc del: not_None_eq)
  from step_queue [of oc lc ?V ev loc s] have "price_time_sorted ?T' s (?V' loc s)"
  proof (elim disjE exE conjE)
    assume "subseq (map key (?V' loc s)) (map key (?V loc s))"
    from price_time_times [OF time price_time_subseq [OF this snoc]] show ?thesis .
  next
    fix x q assume add: "?V' loc s = q_add x q" and q: "subseq (map key q) (map key (?V loc s))"
      and x: "o_side x = s" "v_find ?V (o_order_id x) = None"
    have old: "?T' (o_order_id y) = ?T (o_order_id y)" "?T (o_order_id y) < length es" if "y \<in> set q" for y
    proof -
      show "?T' (o_order_id y) = ?T (o_order_id y)" using time [of y] that by (simp add: add set_q_add)
      from subseq_keys [OF q that] obtain z where "z \<in> set (?V loc s)" "o_order_id z = o_order_id y" by blast
      with queued_found [of z ?V loc s] last_absent_present [of oc lc es "o_order_id y"]
      show "?T (o_order_id y) < length es" by simp
    qed
    have new: "?T' (o_order_id x) = length es"
      using time [of x] last_absent_absent [OF x(2)] by (simp add: add set_q_add)
    show ?thesis
      unfolding add
    proof (rule price_time_add [OF price_time_times [OF old(1) price_time_subseq [OF q snoc]] x(1)])
      show "?T' (o_order_id y) < ?T' (o_order_id x)" if "y \<in> set q" for y using old [OF that] new by simp
    qed
  qed
  then show ?case by simp
qed

end
