(* ===== verification/Engine_Properties.thy ===== *)
theory Engine_Properties
  imports Time_Priority
begin

text \<open>
  The properties of \<open>MatchingEngine\<close>: every run from a fresh engine refines the abstract queues,
  the pools, the index and the live counters agree with them exactly, and the error paths leave
  the state as it was.
\<close>

section \<open>What can be observed of an engine\<close>

text \<open>The orders \<open>for_each_order\<close> visits in the book of an instrument, without their links.\<close>

definition observe :: "MatchingEngine \<Rightarrow> StockLocate \<Rightarrow> Order list exec" where
  "observe e loc = (case book_at e loc of
      None \<Rightarrow> Some []
    | Some b \<Rightarrow> do { is \<leftarrow> for_each_order b (me_arena e); Some (map (data_at (me_arena e)) is) })"

lemma refinesD:
  assumes "refines oc lc e V"
  shows "\<exists>G. engine_rep e G \<and> engine_view e G = V" "engine_caps e = (oc, lc)"
    "mp_capacity (ar_orders (me_arena e)) = oc" "mp_capacity (ar_levels (me_arena e)) = lc"
  using assms by (auto simp: refines_def engine_caps_def)

lemma refines_observe: "refines oc lc e V \<Longrightarrow> observe e loc = Some (V loc Buy @ V loc Sell)"
proof -
  assume "refines oc lc e V"
  from refinesD(1) [OF this] obtain G where G: "engine_rep e G" "engine_view e G = V" by blast
  note mid = engine_repD [OF G(1)]
  show ?thesis
  proof (cases "book_at e loc")
    case None
    then have "G loc = (\<lambda>_. [])" using books_okD(2) midD(1) [OF mid] by blast
    then have "V loc = (\<lambda>_. [])"
      unfolding G(2) [symmetric] by (simp add: engine_view_def book_view_def fun_eq_iff)
    with None show ?thesis by (simp add: observe_def)
  next
    case (Some b)
    from for_each_order_ok [OF mid_rep [OF mid Some]] Some show ?thesis
      by (simp add: observe_def engine_view_def book_view_def flip: G(2))
  qed
qed

lemma book_orders_UN: "book_orders G = (\<Union>s. set (orders_of (G s)))"
proof -
  have sides: "(UNIV :: Side set) = {Buy, Sell}" using Side.exhaust by blast
  show ?thesis unfolding sides by (simp add: book_orders_def)
qed

lemma index_count:
  assumes mid: "engine_mid e G Q R no nl"
  shows "ix_count (me_index e) = of_nat (card R)"
proof -
  note I = midD(4) [OF mid]
  let ?id = "\<lambda>i. o_order_id (data_at (me_arena e) i)"
  have "dom (ix_content (me_arena e) (me_index e)) = ?id ` R"
  proof (intro equalityI subsetI)
    fix oid assume "oid \<in> dom (ix_content (me_arena e) (me_index e))"
    then obtain i where "ix_content (me_arena e) (me_index e) oid = Some i" by blast
    then show "oid \<in> ?id ` R" unfolding mid_found [OF mid] by (force simp: data_at_order)
  next
    fix oid assume "oid \<in> ?id ` R"
    then obtain i where i: "i \<in> R" "oid = ?id i" by blast
    from index_okD(2) [OF I i(1)] obtain x where x: "order_at (me_arena e) i x" by blast
    then have "ix_content (me_arena e) (me_index e) oid = Some i"
      unfolding mid_found [OF mid] using i by (auto simp: data_at_order)
    then show "oid \<in> dom (ix_content (me_arena e) (me_index e))" by blast
  qed
  moreover have "inj_on ?id R"
  proof (rule inj_onI)
    fix i j assume ij: "i \<in> R" "j \<in> R" "?id i = ?id j"
    from index_okD(2) [OF I ij(1)] index_okD(2) [OF I ij(2)] obtain x y where
      "order_at (me_arena e) i x" "order_at (me_arena e) j y" by blast
    with ij show "i = j" using index_unique [OF I ij(1,2)] by (simp add: data_at_order)
  qed
  ultimately show ?thesis using ix_okD(6) [OF index_okD(1) [OF I]] by (simp add: card_image)
qed

lemma refines_resources:
  assumes "refines oc lc e V"
  shows "order_pool_free e = Some (of_nat (oc - length (v_all V)))"
    "level_pool_free e = Some (of_nat (lc - v_levels V))"
    "order_index_size e = of_nat (length (v_all V))"
    "st_live_orders (me_stats e) = of_nat (length (v_all V))" "st_live_levels (me_stats e) = of_nat (v_levels V)"
    "st_live_orders (me_stats e) \<le> st_peak_live_orders (me_stats e)"
    "st_live_levels (me_stats e) \<le> st_peak_live_levels (me_stats e)"
    "length (v_all V) \<le> oc" "v_levels V \<le> lc"
proof -
  from refinesD(1) [OF assms] obtain G where G: "engine_rep e G" "engine_view e G = V" by blast
  note mid = engine_repD [OF G(1)]
  note M = midD [OF mid]
  have sizes: "length (v_all V) = card (all_orders G)" "v_levels V = card (all_levels G)"
    using view_size [OF mid] view_levels [OF mid] G(2) by simp_all
  show "order_pool_free e = Some (of_nat (oc - length (v_all V)))"
    "level_pool_free e = Some (of_nat (lc - v_levels V))"
    using free_count_owned [OF M(2)] free_count_owned [OF M(3)] refinesD(3,4) [OF assms]
    by (simp_all add: order_pool_free_def level_pool_free_def sizes)
  show "order_index_size e = of_nat (length (v_all V))"
    using index_count [OF mid] by (simp add: order_index_size_def sizes)
  show "st_live_orders (me_stats e) = of_nat (length (v_all V))" "st_live_levels (me_stats e) = of_nat (v_levels V)"
    "st_live_orders (me_stats e) \<le> st_peak_live_orders (me_stats e)"
    "st_live_levels (me_stats e) \<le> st_peak_live_levels (me_stats e)"
    using M(7) unfolding sizes stats_ok_def by blast+
  show "length (v_all V) \<le> oc" "v_levels V \<le> lc"
    using mid_bounds(3,4) [OF mid] refinesD(3,4) [OF assms] by (simp_all add: sizes)
qed

lemma refines_queues:
  assumes "refines oc lc e V"
  shows "price_sorted s (V loc s)" "y \<in> set (V loc s) \<Longrightarrow> o_locate y = loc \<and> o_side y = s"
    "distinct (map o_order_id (v_all V))"
proof -
  from refinesD(1) [OF assms] obtain G where G: "engine_rep e G" "engine_view e G = V" by blast
  note mid = engine_repD [OF G(1)]
  show "price_sorted s (V loc s)"
    using view_sorted [OF mid_side [OF mid]] by (simp add: engine_view_def book_view_def flip: G(2))
  show "y \<in> set (V loc s) \<Longrightarrow> o_locate y = loc \<and> o_side y = s"
    using view_order [OF mid, of y loc s] G(2) by auto
  let ?id = "\<lambda>i. o_order_id (data_at (me_arena e) i)"
  have data: "\<exists>x. order_at (me_arena e) i x" if "i \<in> all_orders G" for i
    using index_okD(2) [OF midD(4) [OF mid] that] .
  have "inj_on ?id (all_orders G)"
  proof (rule inj_onI)
    fix i j assume ij: "i \<in> all_orders G" "j \<in> all_orders G" "?id i = ?id j"
    from data [OF ij(1)] data [OF ij(2)] obtain x y where
      "order_at (me_arena e) i x" "order_at (me_arena e) j y" by blast
    with ij show "i = j" using index_unique [OF midD(4) [OF mid] ij(1,2)] by (simp add: data_at_order)
  qed
  moreover have "?id ` all_orders G = o_order_id ` set (v_all V)"
  proof -
    have "set (v_all V) = data_at (me_arena e) ` all_orders G"
      unfolding set_v_all all_orders_def book_orders_UN G(2) [symmetric] engine_view_def book_view_def
      by (simp add: image_UN)
    then show ?thesis by (simp add: image_image)
  qed
  ultimately have "card (set (map o_order_id (v_all V))) = length (map o_order_id (v_all V))"
    using view_size [OF mid] G(2) by (simp add: card_image flip: \<open>?id ` all_orders G = _\<close>)
  then show "distinct (map o_order_id (v_all V))" by (rule card_distinct)
qed

lemma refines_find:
  assumes "refines oc lc e V"
  shows "\<exists>q. index_find e oid = Some q \<and> map_option (data_at (me_arena e)) q = v_find V oid"
proof -
  from refinesD(1) [OF assms] obtain G where G: "engine_rep e G" "engine_view e G = V" by blast
  note mid = engine_repD [OF G(1)]
  show ?thesis
  proof (cases "ix_content (me_arena e) (me_index e) oid")
    case None
    then show ?thesis using mid_view_find(1) [OF mid refl None] G(2) by (simp add: mid_find [OF mid])
  next
    case (Some i)
    from rep_found [OF G(1) Some] Some G(2) show ?thesis by (auto simp: mid_find [OF mid] data_at_order)
  qed
qed

section \<open>Views of one instrument\<close>

lemma concat_single:
  assumes "n < m" "\<And>k. k \<noteq> n \<Longrightarrow> k < m \<Longrightarrow> f k = []"
  shows "concat (map f [0..<m]) = f n"
proof -
  have "[0..<m] = [0..<n] @ n # [Suc n..<m]" using assms(1) by (metis less_imp_le_nat upt_add_eq_append le_add_diff_inverse upt_conv_Cons zero_le)
  moreover have "concat (map f [0..<n]) = []" "concat (map f [Suc n..<m]) = []" using assms by auto
  ultimately show ?thesis by (simp del: concat_eq_Nil_conv)
qed

lemma concat_pairs: "concat (concat (map (\<lambda>n. [f n, g n]) ns)) = concat (map (\<lambda>n. f n @ g n) ns)"
  by (induction ns) simp_all

lemma v_all_single: "v_all (no_orders(loc := q)) = q Buy @ q Sell"
proof -
  let ?V = "no_orders(loc := q)"
  have "v_all ?V = concat (map (\<lambda>n. ?V (of_nat n) Buy @ ?V (of_nat n) Sell) [0..<kMaxInstruments])"
    unfolding v_all_def v_sides_def by (rule concat_pairs)
  also have "\<dots> = ?V (of_nat (unat loc)) Buy @ ?V (of_nat (unat loc)) Sell"
    using kMax_locates(2) [of loc] kMax_locates(1) by (intro concat_single) auto
  finally show ?thesis by simp
qed

lemma v_levels_single: "v_levels (no_orders(loc := q)) = length (q_prices (q Buy)) + length (q_prices (q Sell))"
proof -
  have "v_levels (no_orders(loc := q)) = (\<Sum>l\<in>{loc} \<union> - {loc}. length (q_prices ((no_orders(loc := q)) l Buy)) +
      length (q_prices ((no_orders(loc := q)) l Sell)))"
    unfolding v_levels_sum by (simp add: Compl_partition)
  also have "\<dots> = length (q_prices (q Buy)) + length (q_prices (q Sell))"
    by (subst sum.union_disjoint) (auto simp: q_prices_def)
  finally show ?thesis .
qed

section \<open>A small feed\<close>

definition demo_add :: "OrderReferenceNumber \<Rightarrow> Price \<Rightarrow> event" where
  "demo_add oid px = AddOrder 7 oid BuyOrder 10 px 0 [] False"

definition demo_entry :: "OrderReferenceNumber \<Rightarrow> Price \<Rightarrow> Order" where
  "demo_entry oid px = Order_init oid 7 px 10 Buy 0 no_mpid"

definition demo_queue :: "Order list \<Rightarrow> Side \<Rightarrow> Order list" where
  "demo_queue q = (\<lambda>_. [])(Buy := q)"

definition demo_view :: "Order list \<Rightarrow> view" where
  "demo_view q = no_orders(7 := demo_queue q)"

lemma demo_entry_sel [simp]:
  "o_order_id (demo_entry oid px) = oid" "o_price_cents (demo_entry oid px) = px"
  "o_side (demo_entry oid px) = Buy" "o_locate (demo_entry oid px) = 7"
  "o_shares_remaining (demo_entry oid px) = 10" "o_mpid (demo_entry oid px) = no_mpid"
  by (simp_all add: demo_entry_def Order_init_def)

lemma demo_view_sel [simp]:
  "demo_view q 7 Buy = q" "demo_view q 7 Sell = []" "v_all (demo_view q) = q"
  "v_levels (demo_view q) = length (q_prices q)"
  "v_find (demo_view q) oid = List.find (\<lambda>y. o_order_id y = oid) q"
  by (simp_all add: demo_view_def demo_queue_def v_all_single v_levels_single v_find_def q_prices_def)

lemma demo_view_upd [simp]: "upd_queue 7 Buy f (demo_view q) = demo_view (f q)"
  by (simp add: demo_view_def demo_queue_def upd_queue_def)

lemma demo_view_empty: "no_orders = demo_view []"
  by (auto simp: demo_view_def demo_queue_def fun_eq_iff)

lemma demo_fill [simp]: "s_fill oid n (demo_view q) = demo_view (q_fill oid n q)"
  "s_delete oid (demo_view q) = demo_view (q_remove oid q)"
  by (auto simp: s_fill_def s_delete_def demo_view_def demo_queue_def fun_eq_iff q_fill_def q_remove_def)

lemma demo_spec_add [simp]:
  "spec_step oc lc (demo_view q) (demo_add oid px) =
     (if List.find (\<lambda>y. o_order_id y = oid) q \<noteq> None \<or> length q = oc \<or> (px \<notin> set (q_prices q) \<and> length (q_prices q) = lc)
      then demo_view q else demo_view (q_add (demo_entry oid px) q))"
  by (simp add: demo_add_def s_add_def Let_def to_side_enumerators flip: demo_entry_def)

lemma demo_ok [simp]:
  "event_ok (demo_view q) (demo_add oid px) \<longleftrightarrow> px \<noteq> kEmptyPrice \<and> length (q_prices q) < 8192"
  by (simp add: demo_add_def to_side_enumerators)

lemma demo_price [simp]: "100 \<noteq> kEmptyPrice" "101 \<noteq> kEmptyPrice"
  by (simp_all add: kEmptyPrice_def)

text \<open>An engine with two orders at one price.\<close>

lemma demo_run:
  assumes "2 \<le> oc" "oc < 2 ^ 32" "1 \<le> lc" "lc < 2 ^ 64"
  shows "\<exists>e. exec_list engine_step (MatchingEngine_init oc lc) [demo_add 1 100, demo_add 2 100] = Some e \<and>
    refines oc lc e (demo_view [demo_entry 1 100, demo_entry 2 100])"
proof -
  have "q_add (demo_entry 2 100) [demo_entry 1 100] = [demo_entry 1 100, demo_entry 2 100]"
    by (simp add: q_add_def better_def)
  then have run: "foldl (spec_step oc lc) no_orders [demo_add 1 100, demo_add 2 100] =
      demo_view [demo_entry 1 100, demo_entry 2 100]"
    and ok: "all_admissible (spec_step oc lc) event_ok no_orders [demo_add 1 100, demo_add 2 100]"
    using assms unfolding demo_view_empty by (simp_all add: q_prices_def q_add_def better_def)
  from engine.run_sim [OF refines_init [OF assms(2,4)] ok] run show ?thesis by simp
qed

section \<open>Runs\<close>

text \<open>
  C1. Every admissible feed, handled from a fresh engine, runs without undefined behaviour, and
  at the end the book of every instrument holds exactly the orders the abstract queues hold,
  bids then asks, each side in queue order.
\<close>

theorem engine_run_refines:
  assumes "oc < 2 ^ 32" "lc < 2 ^ 64" "all_admissible (spec_step oc lc) event_ok no_orders es"
  shows "\<exists>e. exec_list engine_step (MatchingEngine_init oc lc) es = Some e \<and>
    (\<forall>loc. observe e loc = Some (foldl (spec_step oc lc) no_orders es loc Buy @
                                 foldl (spec_step oc lc) no_orders es loc Sell))"
  using engine.run_sim [OF refines_init [OF assms(1,2)] assms(3)] refines_observe by blast

theorem engine_run_refines_witness:
  "\<exists>e. exec_list engine_step (MatchingEngine_init 4 2) [demo_add 1 100, OrderExecuted 7 1 4, demo_add 2 101] = Some e \<and>
     observe e 7 = Some [demo_entry 2 101, (demo_entry 1 100)\<lparr>o_shares_remaining := 6\<rparr>]"
proof -
  have fill: "q_fill 1 4 [demo_entry 1 100] = [(demo_entry 1 100)\<lparr>o_shares_remaining := 6\<rparr>]"
    by (simp add: q_fill_def fill1_def)
  have ok: "all_admissible (spec_step 4 2) event_ok no_orders [demo_add 1 100, OrderExecuted 7 1 4, demo_add 2 101]"
    unfolding demo_view_empty by (simp add: q_prices_def q_add_def better_def fill)
  have spec: "foldl (spec_step 4 2) no_orders [demo_add 1 100, OrderExecuted 7 1 4, demo_add 2 101] =
      demo_view [demo_entry 2 101, (demo_entry 1 100)\<lparr>o_shares_remaining := 6\<rparr>]"
    unfolding demo_view_empty by (simp add: q_prices_def q_add_def better_def fill)
  from engine_run_refines [OF _ _ ok] obtain e where e:
    "exec_list engine_step (MatchingEngine_init 4 2) [demo_add 1 100, OrderExecuted 7 1 4, demo_add 2 101] = Some e"
    "observe e 7 = Some (demo_view [demo_entry 2 101, (demo_entry 1 100)\<lparr>o_shares_remaining := 6\<rparr>] 7 Buy @
       demo_view [demo_entry 2 101, (demo_entry 1 100)\<lparr>o_shares_remaining := 6\<rparr>] 7 Sell)"
    unfolding spec by auto
  then show ?thesis by simp
qed

text \<open>
  C8. After every admissible feed the book of every instrument holds, bids then asks, queues in price-time
  priority: better prices first, and at one price the order first whose reference number joined the
  engine first, where the time of an order is the number of the last event after which no queue had it.
  The orders carry their side and locate, and no reference number occurs twice in the whole engine.
\<close>

theorem engine_queues_invariant:
  assumes "oc < 2 ^ 32" "lc < 2 ^ 64" "all_admissible (spec_step oc lc) event_ok no_orders es"
    and V: "V = foldl (spec_step oc lc) no_orders es"
  shows "\<exists>e. exec_list engine_step (MatchingEngine_init oc lc) es = Some e \<and>
    (\<forall>loc. observe e loc = Some (V loc Buy @ V loc Sell)) \<and> distinct (map o_order_id (v_all V)) \<and>
    (\<forall>loc s. price_time_sorted (last_absent oc lc es) s (V loc s) \<and>
      (\<forall>y\<in>set (V loc s). o_locate y = loc \<and> o_side y = s))"
proof -
  from engine.run_sim [OF refines_init [OF assms(1,2)] assms(3)] obtain e where e:
    "exec_list engine_step (MatchingEngine_init oc lc) es = Some e" "refines oc lc e V" unfolding V by blast
  with refines_observe [OF e(2)] refines_queues(2,3) [OF e(2)] queues_price_time [of oc lc es] show ?thesis
    unfolding V by blast
qed

theorem engine_queues_invariant_witness:
  "\<exists>e. exec_list engine_step (MatchingEngine_init 4 2) [demo_add 1 100, demo_add 2 100] = Some e \<and>
     observe e 7 = Some [demo_entry 1 100, demo_entry 2 100] \<and>
     last_absent 4 2 [demo_add 1 100, demo_add 2 100] 1 < last_absent 4 2 [demo_add 1 100, demo_add 2 100] 2"
proof -
  have q: "q_add (demo_entry 2 100) [demo_entry 1 100] = [demo_entry 1 100, demo_entry 2 100]"
    by (simp add: q_add_def better_def)
  have c: "(4::nat) < 2 ^ 32" "(2::nat) < 2 ^ 64"
    "all_admissible (spec_step 4 2) event_ok no_orders [demo_add 1 100, demo_add 2 100]"
    "demo_view [demo_entry 1 100, demo_entry 2 100] = foldl (spec_step 4 2) no_orders [demo_add 1 100, demo_add 2 100]"
    unfolding demo_view_empty by (simp_all add: q_prices_def q_add_def better_def q)
  from engine_queues_invariant [OF c] obtain e where
    "exec_list engine_step (MatchingEngine_init 4 2) [demo_add 1 100, demo_add 2 100] = Some e"
    "observe e 7 = Some (demo_view [demo_entry 1 100, demo_entry 2 100] 7 Buy @ demo_view [demo_entry 1 100, demo_entry 2 100] 7 Sell)"
    "price_time_sorted (last_absent 4 2 [demo_add 1 100, demo_add 2 100]) Buy (demo_view [demo_entry 1 100, demo_entry 2 100] 7 Buy)"
    by metis
  then show ?thesis by (simp add: price_time_sorted_def)
qed

section \<open>Lookups and rejected events\<close>

text \<open>
  C19. A lookup in the order index finds an order exactly when one with that reference number is
  live, and the slot it returns holds that order.
\<close>

theorem order_lookup_exact:
  assumes "refines oc lc e V"
  shows "\<exists>q. index_find e oid = Some q \<and> map_option (data_at (me_arena e)) q = v_find V oid"
  using assms by (rule refines_find)

theorem order_lookup_exact_witness:
  "\<exists>e i. exec_list engine_step (MatchingEngine_init 4 2) [demo_add 1 100, demo_add 2 100] = Some e \<and>
     index_find e 2 = Some (Some i) \<and> data_at (me_arena e) i = demo_entry 2 100 \<and> index_find e 3 = Some None"
proof -
  from demo_run [of 4 2] obtain e where
    e: "exec_list engine_step (MatchingEngine_init 4 2) [demo_add 1 100, demo_add 2 100] = Some e"
    "refines 4 2 e (demo_view [demo_entry 1 100, demo_entry 2 100])" by auto
  from order_lookup_exact [OF e(2), of 2] order_lookup_exact [OF e(2), of 3] e(1) show ?thesis by auto
qed

lemma refines_unknown:
  assumes "refines oc lc e V" "v_find V oid = None"
  shows "index_find e oid = Some None"
  using refines_find [OF assms(1), of oid] assms(2) by auto

lemma refines_known:
  assumes "refines oc lc e V" "v_find V oid = Some y"
  shows "\<exists>i. index_find e oid = Some (Some i)"
  using refines_find [OF assms(1), of oid] assms(2) by auto

text \<open>
  C20. An execution, cancel, delete or replace of a reference number that is not live changes
  nothing but the counter of unknown order events.
\<close>

theorem unknown_order_ignored:
  assumes "refines oc lc e V" "v_find V oid = None"
  shows "\<forall>ev\<in>{OrderExecuted loc oid qty, OrderExecutedWithPrice loc oid qty, OrderCancel loc oid qty,
       OrderDelete loc oid, OrderReplace loc oid new qty px ts}. engine_step e ev = Some (bump inc_unknown e)"
  using refines_unknown [OF assms]
  by (simp add: on_order_executed_def on_order_executed_with_price_def on_order_cancel_def handle_fill_def
      on_order_delete_def on_order_replace_def)

theorem unknown_order_ignored_witness:
  "\<exists>e. exec_list engine_step (MatchingEngine_init 4 2) [demo_add 1 100, demo_add 2 100] = Some e \<and>
     engine_step e (OrderDelete 7 3) = Some (bump inc_unknown e)"
proof -
  from demo_run [of 4 2] obtain e where
    e: "exec_list engine_step (MatchingEngine_init 4 2) [demo_add 1 100, demo_add 2 100] = Some e"
    "refines 4 2 e (demo_view [demo_entry 1 100, demo_entry 2 100])" by auto
  from unknown_order_ignored [OF e(2), of 3] e(1) show ?thesis by simp
qed

text \<open>
  An add whose reference number is live already changes nothing but the counters of
  duplicate and of unknown events: the live order stays as it is.
\<close>

lemma duplicate_add_ignored:
  assumes "refines oc lc e V" "v_find V oid = Some y"
  shows "engine_step e (AddOrder loc oid bsi qty px ts mpid attributed) = Some (bump (inc_unknown \<circ> inc_duplicate) e)"
  using refines_known [OF assms] by (auto simp: on_add_order_def)

lemma duplicate_add_ignored_example:
  "\<exists>e. exec_list engine_step (MatchingEngine_init 4 2) [demo_add 1 100, demo_add 2 100] = Some e \<and>
     engine_step e (demo_add 2 101) = Some (bump (inc_unknown \<circ> inc_duplicate) e)"
proof -
  from demo_run [of 4 2] obtain e where
    e: "exec_list engine_step (MatchingEngine_init 4 2) [demo_add 1 100, demo_add 2 100] = Some e"
    "refines 4 2 e (demo_view [demo_entry 1 100, demo_entry 2 100])" by auto
  have "v_find (demo_view [demo_entry 1 100, demo_entry 2 100]) 2 = Some (demo_entry 2 100)" by simp
  from duplicate_add_ignored [OF e(2) this] e(1) show ?thesis by (simp add: demo_add_def)
qed

text \<open>
  When every slot of the order pool is in use, an add of a new reference number is rejected:
  all queues stay as they are, and the rejection is counted.
\<close>

lemma full_pool_rejects_add:
  assumes ref: "refines oc lc e V" and new: "v_find V oid = None" and full: "length (v_all V) = oc"
    and ok: "event_ok V (AddOrder loc oid bsi qty px ts mpid attributed)"
  shows "\<exists>e'. engine_step e (AddOrder loc oid bsi qty px ts mpid attributed) = Some e' \<and> refines oc lc e' V \<and>
    st_add_rejected_pool_exhausted (me_stats e') = st_add_rejected_pool_exhausted (me_stats e) + 1 \<and>
    me_arena e' = me_arena e \<and> me_index e' = me_index e"
proof -
  from refinesD(1) [OF ref] obtain G where G: "engine_rep e G" "engine_view e G = V" by blast
  note mid = engine_repD [OF G(1)]
  have "card (all_orders G) = mp_capacity (ar_orders (me_arena e))"
    using view_size [OF mid] G(2) full refinesD(3) [OF ref] by simp
  then have acq: "acquire (ar_orders (me_arena e)) = Some (None, ar_orders (me_arena e))"
    by (rule pool.acq_full [OF midD(2) [OF mid]])
  obtain inst im where c: "get_or_create (me_instruments e) loc = (inst, im)" by fastforce
  let ?f = "\<lambda>s. inc_pool_exhausted (s\<lparr>st_add_rejected_pool_exhausted := st_add_rejected_pool_exhausted s + 1\<rparr>)"
  let ?e = "bump ?f (e\<lparr>me_instruments := im_put im loc (ensure_book inst)\<rparr>)"
  have step: "engine_step e (AddOrder loc oid bsi qty px ts mpid attributed) = Some ?e"
    using refines_unknown [OF ref new] acq by (simp add: on_add_order_def c acquire_order_def)
  have "s_add oc lc (Order_init oid loc px qty (to_side bsi) ts (if attributed then mpid else no_mpid)) V = V"
    using full by (simp add: s_add_def Let_def)
  then have "refines oc lc ?e V" using engine.step_sim [OF ref ok] step by simp
  with step show ?thesis by (simp add: bump_def inc_pool_exhausted_def)
qed

lemma full_pool_rejects_add_example:
  "\<exists>e e'. exec_list engine_step (MatchingEngine_init 2 2) [demo_add 1 100, demo_add 2 100] = Some e \<and>
     engine_step e (demo_add 3 100) = Some e' \<and> refines 2 2 e' (demo_view [demo_entry 1 100, demo_entry 2 100])"
proof -
  let ?V = "demo_view [demo_entry 1 100, demo_entry 2 100]"
  from demo_run [of 2 2] obtain e where
    e: "exec_list engine_step (MatchingEngine_init 2 2) [demo_add 1 100, demo_add 2 100] = Some e" "refines 2 2 e ?V"
    by auto
  have "v_find ?V 3 = None" "length (v_all ?V) = 2" "event_ok ?V (demo_add 3 100)" by (simp_all add: q_prices_def)
  from full_pool_rejects_add [OF e(2) this(1,2) this(3) [unfolded demo_add_def]] e(1) show ?thesis
    by (auto simp: demo_add_def)
qed

section \<open>Adds take effect, and deletes undo them\<close>

lemma q_remove_add:
  assumes "o_order_id x \<notin> o_order_id ` set q"
  shows "q_remove (o_order_id x) (q_add x q) = q"
proof -
  let ?P = "\<lambda>y. \<not> better (o_side x) (o_price_cents x) (o_price_cents y)"
  have "set (takeWhile ?P q) \<subseteq> set q" "set (dropWhile ?P q) \<subseteq> set q" by (auto dest: set_takeWhileD set_dropWhileD)
  then have "q_remove (o_order_id x) (takeWhile ?P q) = takeWhile ?P q"
    "q_remove (o_order_id x) (dropWhile ?P q) = dropWhile ?P q"
    using assms by (auto intro!: q_remove_absent)
  then show ?thesis by (simp add: q_add_def q_remove_def)
qed

lemma s_delete_upd_add:
  assumes "v_find V (o_order_id x) = None"
  shows "s_delete (o_order_id x) (upd_queue (o_locate x) (o_side x) (q_add x) V) = V"
  using assms by (auto simp: s_delete_def upd_queue_def fun_eq_iff v_find_None q_remove_add q_remove_absent)

lemma v_find_added:
  assumes "v_find V (o_order_id x) = None"
  shows "v_find (upd_queue (o_locate x) (o_side x) (q_add x) V) (o_order_id x) = Some x"
proof (rule v_find_Some)
  show "x \<in> set (upd_queue (o_locate x) (o_side x) (q_add x) V (o_locate x) (o_side x))"
    by (simp add: upd_queue_def q_add_def)
  have absent: "z \<in> set (V l t) \<Longrightarrow> o_order_id z \<noteq> o_order_id x" for l t z
    using assms unfolding v_find_None by (metis image_eqI)
  fix l t z assume "z \<in> set (upd_queue (o_locate x) (o_side x) (q_add x) V l t)" "o_order_id z = o_order_id x"
  then show "z = x"
    by (auto simp: upd_queue_def q_add_def split: if_splits dest: absent set_takeWhileD set_dropWhileD)
qed simp

definition added_order :: "event \<Rightarrow> Order" where
  "added_order ev = (case ev of AddOrder loc oid bsi qty px ts mpid attributed \<Rightarrow>
      Order_init oid loc px qty (to_side bsi) ts (if attributed then mpid else no_mpid)
    | _ \<Rightarrow> Order_init 0 0 0 0 Buy 0 [])"

text \<open>
  C18. An admissible add of a new reference number takes effect whenever the order pool has a free
  slot and its price has a level or the level pool has a free slot: afterwards the index finds the
  order, with the data of the message, and a delete of it gives back the queues as they were.
\<close>

theorem add_takes_effect:
  assumes ref: "refines oc lc e V" and ev: "ev = AddOrder loc oid bsi qty px ts mpid attributed"
    and ok: "event_ok V ev" and new: "v_find V oid = None" and room: "length (v_all V) < oc"
    and level: "px \<in> set (q_prices (V loc (to_side bsi))) \<or> v_levels V < lc"
  shows "\<exists>e' i e''. engine_step e ev = Some e' \<and> index_find e' oid = Some (Some i) \<and>
    data_at (me_arena e') i = added_order ev \<and>
    engine_step e' (OrderDelete loc' oid) = Some e'' \<and> refines oc lc e'' V"
proof -
  let ?x = "added_order ev"
  have keys: "o_order_id ?x = oid" "o_locate ?x = loc" "o_side ?x = to_side bsi" "o_price_cents ?x = px"
    by (simp_all add: added_order_def ev Order_init_def)
  let ?V = "upd_queue (o_locate ?x) (o_side ?x) (q_add ?x) V"
  have new': "v_find V (o_order_id ?x) = None" using new keys(1) by simp
  have "spec_step oc lc V ev = s_add oc lc ?x V" by (simp add: ev added_order_def)
  also have "\<dots> = ?V"
    using s_add_accepted [of V ?x oc lc] new' room level keys by (auto simp: no_level_for_def)
  finally obtain e' where e': "engine_step e ev = Some e'" "refines oc lc e' ?V"
    using engine.step_sim [OF ref ok] by auto
  have "v_find ?V oid = Some ?x" using v_find_added [OF new'] keys(1) by simp
  with refines_find [OF e'(2), of oid] obtain i where i: "index_find e' oid = Some (Some i)"
    "data_at (me_arena e') i = ?x" by auto
  have "spec_step oc lc ?V (OrderDelete loc' oid) = V" using s_delete_upd_add [OF new'] keys(1) by simp
  with engine.step_sim [OF e'(2), of "OrderDelete loc' oid"] obtain e'' where
    "engine_step e' (OrderDelete loc' oid) = Some e''" "refines oc lc e'' V" by auto
  with e'(1) i show ?thesis by blast
qed

theorem add_takes_effect_witness:
  "\<exists>e e' i. exec_list engine_step (MatchingEngine_init 4 2) [demo_add 1 100, demo_add 2 100] = Some e \<and>
     engine_step e (demo_add 3 101) = Some e' \<and> index_find e' 3 = Some (Some i) \<and>
     data_at (me_arena e') i = demo_entry 3 101"
proof -
  let ?V = "demo_view [demo_entry 1 100, demo_entry 2 100]"
  from demo_run [of 4 2] obtain e where
    e: "exec_list engine_step (MatchingEngine_init 4 2) [demo_add 1 100, demo_add 2 100] = Some e" "refines 4 2 e ?V"
    by auto
  have h: "event_ok ?V (demo_add 3 101)" "v_find ?V 3 = None" "length (v_all ?V) < 4"
    "101 \<in> set (q_prices (?V 7 (to_side BuyOrder))) \<or> v_levels ?V < 2" by (simp_all add: q_prices_def)
  from add_takes_effect [OF e(2) demo_add_def h(1-3) h(4), of 7] obtain e' i where
    "engine_step e (demo_add 3 101) = Some e'" "index_find e' 3 = Some (Some i)"
    "data_at (me_arena e') i = added_order (demo_add 3 101)" by blast
  moreover have "added_order (demo_add 3 101) = demo_entry 3 101"
    by (simp add: added_order_def demo_add_def demo_entry_def to_side_enumerators)
  ultimately show ?thesis using e(1) by metis
qed

section \<open>A replace can lose the order\<close>

text \<open>
  C17. When the level pool is full once the old order has left and no level has the new price, a
  replace removes the old order and adds nothing: the replaced order is lost, although the comment
  on \<open>on_order_replace\<close> says that any failure leaves the old order untouched.
\<close>

theorem replace_loses_order:
  assumes ref: "refines oc lc e V" and old: "v_find V old = Some y" and new: "v_find V new = None"
    and ok: "event_ok V (OrderReplace loc old new qty px ts)" and room: "length (v_all V) < oc"
    and full: "v_levels (s_delete old V) = lc" "px \<notin> set (q_prices (s_delete old V (o_locate y) (o_side y)))"
  shows "\<exists>e'. engine_step e (OrderReplace loc old new qty px ts) = Some e' \<and> refines oc lc e' (s_delete old V) \<and>
    index_find e' old = Some None \<and> index_find e' new = Some None"
proof -
  let ?x = "Order_init new (o_locate y) px qty (o_side y) ts (o_mpid y)"
  have "s_add oc lc ?x (s_delete old V) = s_delete old V"
    using full by (simp add: s_add_def Let_def Order_init_def)
  then have "spec_step oc lc V (OrderReplace loc old new qty px ts) = s_delete old V"
    using old new room by (simp add: s_replace_def)
  with engine.step_sim [OF ref ok] obtain e' where e': "engine_step e (OrderReplace loc old new qty px ts) = Some e'"
    "refines oc lc e' (s_delete old V)" by auto
  have "v_find (s_delete old V) old = None" by (auto simp: v_find_None s_delete_def q_remove_def)
  with refines_unknown [OF e'(2)] s_delete_find [OF new] e' show ?thesis by blast
qed

theorem replace_loses_order_witness:
  "\<exists>e e'. exec_list engine_step (MatchingEngine_init 4 1) [demo_add 1 100, demo_add 2 100] = Some e \<and>
     engine_step e (OrderReplace 7 1 3 10 101 0) = Some e' \<and> refines 4 1 e' (demo_view [demo_entry 2 100])"
proof -
  let ?V = "demo_view [demo_entry 1 100, demo_entry 2 100]"
  from demo_run [of 4 1] obtain e where
    e: "exec_list engine_step (MatchingEngine_init 4 1) [demo_add 1 100, demo_add 2 100] = Some e" "refines 4 1 e ?V"
    by auto
  have V: "s_delete 1 ?V = demo_view [demo_entry 2 100]" by (simp add: q_remove_def)
  have h: "v_find ?V 1 = Some (demo_entry 1 100)" "v_find ?V 3 = None" "event_ok ?V (OrderReplace 7 1 3 10 101 0)"
    "length (v_all ?V) < 4" "v_levels (s_delete 1 ?V) = 1"
    "101 \<notin> set (q_prices (s_delete 1 ?V (o_locate (demo_entry 1 100)) (o_side (demo_entry 1 100))))"
    unfolding V by (simp_all add: q_prices_def)
  from replace_loses_order [OF e(2) h] e(1) show ?thesis unfolding V by blast
qed

end
