(* ===== verification/Parser_Spec.thy ===== *)
theory Parser_Spec
  imports Parser Engine_Properties
begin

text \<open>
  What the parser promises, stated on lists of bytes without offsets or reads: how a file splits into
  length-prefixed frames, which event the bytes of a payload stand for, and the effect of a frame on
  the engine and the statistics. The inverse direction, from events to bytes, says which bytes an
  exchange that follows the specification sends.
\<close>

section \<open>Frames\<close>

datatype frame = Cut | Empty | Payload "byte list"

fun frames :: "byte list \<Rightarrow> frame list" where
  "frames (a # b # r) =
     (let n = unat (be_val [a, b] :: u16)
      in if length r < n then [Cut]
         else if n = 0 then Empty # frames r
         else Payload (take n r) # frames (drop n r))"
| "frames _ = []"

fun frame_size :: "frame \<Rightarrow> nat" where
  "frame_size (Payload b) = 2 + length b"
| "frame_size _ = 2"

section \<open>Payloads\<close>

definition num :: "layout \<Rightarrow> string \<Rightarrow> byte list \<Rightarrow> 'a::len word" where
  "num M f b = be_val (fld M f b)"

definition tag :: "layout \<Rightarrow> string \<Rightarrow> byte list \<Rightarrow> byte" where
  "tag M f b = hd (fld M f b)"

definition locate :: "layout \<Rightarrow> byte list \<Rightarrow> StockLocate" where
  "locate M b = be_val (fld M ''stockLocateHi'' b @ fld M ''stockLocateLo'' b)"

definition event_of :: "byte \<Rightarrow> byte list \<Rightarrow> event option" where
  "event_of t b =
    (if t = ascii (CHR ''R'') then
       Some (StockDirectory (locate StockDirectoryMsg b) (fld StockDirectoryMsg ''stock'' b) (tag StockDirectoryMsg ''marketCategory'' b)
          (tag StockDirectoryMsg ''financialStatusIndicator'' b) (num StockDirectoryMsg ''roundLotSize'' b)
          (tag StockDirectoryMsg ''roundLotsOnly'' b) (tag StockDirectoryMsg ''authenticity'' b)
          (tag StockDirectoryMsg ''shortScaleThresholdIndicator'' b) (tag StockDirectoryMsg ''ipoFlag'' b)
          (tag StockDirectoryMsg ''luldReferencePriceTier'' b) (tag StockDirectoryMsg ''etpFlag'' b)
          (num StockDirectoryMsg ''etpLeverageFactor'' b) (tag StockDirectoryMsg ''inverseIndicator'' b))
     else if t = ascii (CHR ''H'') then
       Some (TradingAction (locate StockTradingActionMsg b) (tag StockTradingActionMsg ''tradingState'' b))
     else if t = ascii (CHR ''Y'') then
       Some (RegSHO (locate RegSHOMsg b) (tag RegSHOMsg ''regSHOAction'' b))
     else if t = ascii (CHR ''A'') then
       Some (AddOrder (locate AddOrderMsg b) (num AddOrderMsg ''orderReferenceNumber'' b) (tag AddOrderMsg ''buySellIndicator'' b)
          (num AddOrderMsg ''shares'' b) (num AddOrderMsg ''price'' b) (num AddOrderMsg ''ts'' b) empty_mpid False)
     else if t = ascii (CHR ''F'') then
       Some (AddOrder (locate AddOrderMPIDMsg b) (num AddOrderMPIDMsg ''orderReferenceNumber'' b)
          (tag AddOrderMPIDMsg ''buySellIndicator'' b) (num AddOrderMPIDMsg ''shares'' b)
          (num AddOrderMPIDMsg ''price'' b) (num AddOrderMPIDMsg ''ts'' b) (fld AddOrderMPIDMsg ''attribution'' b) True)
     else if t = ascii (CHR ''E'') then
       Some (OrderExecuted (locate OrderExecutedMsg b) (num OrderExecutedMsg ''orderReferenceNumber'' b)
          (num OrderExecutedMsg ''executedShares'' b))
     else if t = ascii (CHR ''C'') then
       Some (OrderExecutedWithPrice (locate OrderExecutedWithPriceMsg b) (num OrderExecutedWithPriceMsg ''orderReferenceNumber'' b)
          (num OrderExecutedWithPriceMsg ''executedShares'' b))
     else if t = ascii (CHR ''X'') then
       Some (OrderCancel (locate OrderCancelMsg b) (num OrderCancelMsg ''orderReferenceNumber'' b)
          (num OrderCancelMsg ''cancelledShares'' b))
     else if t = ascii (CHR ''D'') then
       Some (OrderDelete (locate OrderDeleteMsg b) (num OrderDeleteMsg ''orderReferenceNumber'' b))
     else if t = ascii (CHR ''U'') then
       Some (OrderReplace (locate OrderReplaceMsg b) (num OrderReplaceMsg ''originalOrderReferenceNumber'' b)
          (num OrderReplaceMsg ''newOrderReferenceNumber'' b) (num OrderReplaceMsg ''shares'' b)
          (num OrderReplaceMsg ''price'' b) (num OrderReplaceMsg ''ts'' b))
     else if t = ascii (CHR ''P'') then Some NonCrossTrade
     else if t = ascii (CHR ''Q'') then
       Some (CrossTrade (locate CrossTradeMsg b) (tag CrossTradeMsg ''crossType'' b))
     else if t = ascii (CHR ''B'') then Some BrokenTrade
     else None)"

datatype message = Unknown | Short | Info | Ev event

definition decode :: "byte list \<Rightarrow> message" where
  "decode b =
     (let t = hd b; n = wire_payload_size t
      in if n = 0 then Unknown
         else if length b < n then Short
         else (case event_of t b of None \<Rightarrow> Info | Some ev \<Rightarrow> Ev ev))"

section \<open>The effect of a frame\<close>

fun message_step :: "MatchingEngine \<times> Stats \<Rightarrow> message \<Rightarrow> (MatchingEngine \<times> Stats) exec" where
  "message_step (e, s) Unknown = Some (e, on_parse_error s)"
| "message_step (e, s) Short = Some (e, on_truncated s)"
| "message_step (e, s) Info = Some (e, s)"
| "message_step (e, s) (Ev ev) = do { e \<leftarrow> engine_step e ev; Some (e, s) }"

fun frame_step :: "MatchingEngine \<times> Stats \<Rightarrow> frame \<Rightarrow> (MatchingEngine \<times> Stats) exec" where
  "frame_step (e, s) (Payload b) = message_step (e, on_message (hd b) (of_nat (length b)) s) (decode b)"
| "frame_step (e, s) _ = Some (e, on_parse_error s)"

section \<open>Encoding\<close>

definition to_be :: "nat \<Rightarrow> 'a::len word \<Rightarrow> byte list" where
  "to_be n v = rev (map (byte_of v) [0..<n])"

definition hdr :: "StockLocate \<Rightarrow> (string \<times> byte list) list" where
  "hdr loc = [(''stockLocateHi'', [byte_of loc 1]), (''stockLocateLo'', [byte_of loc 0])]"

text \<open>The struct, the type and the members an event determines; the other members (tracking number,
match number and so on) are free.\<close>

fun wire_of :: "event \<Rightarrow> layout \<times> byte \<times> (string \<times> byte list) list" where
  "wire_of (StockDirectory loc stock mc fsi rls rlo auth ssti ipo luld etp elf invi) =
     (StockDirectoryMsg, ascii (CHR ''R''), hdr loc @ [(''stock'', stock), (''marketCategory'', [mc]), (''financialStatusIndicator'', [fsi]),
      (''roundLotSize'', to_be 4 rls), (''roundLotsOnly'', [rlo]), (''authenticity'', [auth]),
      (''shortScaleThresholdIndicator'', [ssti]), (''ipoFlag'', [ipo]),
      (''luldReferencePriceTier'', [luld]), (''etpFlag'', [etp]), (''etpLeverageFactor'', to_be 4 elf),
      (''inverseIndicator'', [invi])])"
| "wire_of (TradingAction loc state) =
     (StockTradingActionMsg, ascii (CHR ''H''), hdr loc @ [(''tradingState'', [state])])"
| "wire_of (RegSHO loc action) =
     (RegSHOMsg, ascii (CHR ''Y''), hdr loc @ [(''regSHOAction'', [action])])"
| "wire_of (AddOrder loc oid bsi qty px ts mpid attributed) =
     (let fs = hdr loc @ [(''orderReferenceNumber'', to_be 8 oid), (''buySellIndicator'', [bsi]), (''shares'', to_be 4 qty),
      (''price'', to_be 4 px), (''ts'', to_be 6 ts)]
      in if attributed then (AddOrderMPIDMsg, ascii (CHR ''F''), fs @ [(''attribution'', mpid)])
         else (AddOrderMsg, ascii (CHR ''A''), fs))"
| "wire_of (OrderExecuted loc oid qty) =
     (OrderExecutedMsg, ascii (CHR ''E''), hdr loc @ [(''orderReferenceNumber'', to_be 8 oid), (''executedShares'', to_be 4 qty)])"
| "wire_of (OrderExecutedWithPrice loc oid qty) =
     (OrderExecutedWithPriceMsg, ascii (CHR ''C''), hdr loc @ [(''orderReferenceNumber'', to_be 8 oid), (''executedShares'', to_be 4 qty)])"
| "wire_of (OrderCancel loc oid qty) =
     (OrderCancelMsg, ascii (CHR ''X''), hdr loc @ [(''orderReferenceNumber'', to_be 8 oid), (''cancelledShares'', to_be 4 qty)])"
| "wire_of (OrderDelete loc oid) =
     (OrderDeleteMsg, ascii (CHR ''D''), hdr loc @ [(''orderReferenceNumber'', to_be 8 oid)])"
| "wire_of (OrderReplace loc old new qty px ts) =
     (OrderReplaceMsg, ascii (CHR ''U''), hdr loc @ [(''originalOrderReferenceNumber'', to_be 8 old), (''newOrderReferenceNumber'', to_be 8 new),
      (''shares'', to_be 4 qty), (''price'', to_be 4 px), (''ts'', to_be 6 ts)])"
| "wire_of NonCrossTrade =
     (NonCrossTradeMsg, ascii (CHR ''P''), [])"
| "wire_of (CrossTrade loc xtype) =
     (CrossTradeMsg, ascii (CHR ''Q''), hdr loc @ [(''crossType'', [xtype])])"
| "wire_of BrokenTrade =
     (BrokenTradeMsg, ascii (CHR ''B''), [])"

definition encode :: "(string \<Rightarrow> byte list) \<Rightarrow> event \<Rightarrow> byte list" where
  "encode free ev = (case wire_of ev of (M, t, fs) \<Rightarrow>
     put_fields M (\<lambda>f. if f = ''messageType'' then [t] else case map_of fs f of Some bs \<Rightarrow> bs | None \<Rightarrow> free f))"

fun wire_event :: "event \<Rightarrow> bool" where
  "wire_event (StockDirectory loc stock mc fsi rls rlo auth ssti ipo luld etp elf invi) \<longleftrightarrow> length stock = 8"
| "wire_event (AddOrder loc oid bsi qty px ts mpid attributed) \<longleftrightarrow>
     unat ts < 2 ^ 48 \<and> (if attributed then length mpid = 4 else mpid = empty_mpid)"
| "wire_event (OrderReplace loc old new qty px ts) \<longleftrightarrow> unat ts < 2 ^ 48"
| "wire_event _ \<longleftrightarrow> True"

definition frame_bytes :: "byte list \<Rightarrow> byte list" where
  "frame_bytes b = to_be 2 (of_nat (length b) :: u16) @ b"

end
