(* ===== verification/Parser_Refines.thy ===== *)
theory Parser_Refines
  imports Parser_Spec
begin

text \<open>
  The handlers, the dispatch and the loop of the parser implement the specification: on every
  buffer, the parser performs the steps of its frames and never reads outside the buffer.
\<close>

section \<open>Reads inside a frame\<close>

definition in_frame :: "byte list \<Rightarrow> nat \<Rightarrow> byte list \<Rightarrow> bool" where
  "in_frame buf p b \<longleftrightarrow> p + length b \<le> length buf \<and> take (length b) (drop p buf) = b"

lemma in_frame_take: "p + n \<le> length buf \<Longrightarrow> in_frame buf p (take n (drop p buf))"
  by (simp add: in_frame_def min_def)

lemma rd_frame:
  assumes "in_frame buf p b" "k + n \<le> length b"
  shows "rd buf (p + k) n = Some (take n (drop k b))"
proof -
  have "take n (drop k b) = take n (drop k (take (length b) (drop p buf)))" using assms by (simp add: in_frame_def)
  also have "\<dots> = take n (drop (p + k) buf)" using assms(2) by (simp add: drop_take add.commute min_def)
  finally show ?thesis using assms by (simp add: rd_def in_frame_def)
qed

lemma rd8_frame:
  assumes "in_frame buf p b" "k < length b"
  shows "rd8 buf (p + k) = Some (b ! k)"
proof -
  have "b ! k = take (length b) (drop p buf) ! k" using assms by (simp add: in_frame_def)
  then show ?thesis using assms by (simp add: rd8_def in_frame_def)
qed

lemma loads_take:
  "2 \<le> length b \<Longrightarrow> load_be16 le (take 2 b) = be_val (take 2 b)"
  "4 \<le> length b \<Longrightarrow> load_be32 le (take 4 b) = be_val (take 4 b)"
  "6 \<le> length b \<Longrightarrow> load_be48 (take 6 b) = be_val (take 6 b)"
  "8 \<le> length b \<Longrightarrow> load_be64 le (take 8 b) = be_val (take 8 b)"
  by (simp_all add: load_be16_be_val load_be32_be_val load_be48_be_val load_be64_be_val)

lemma member_reads:
  assumes "in_frame buf p b"
  shows "offset_of M f + n \<le> length b \<Longrightarrow> rd buf (member M p f) n = Some (take n (drop (offset_of M f) b))"
    "offset_of M f < length b \<Longrightarrow> rd8 buf (member M p f) = Some (b ! offset_of M f)"
    "offset_of M f + 2 \<le> length b \<Longrightarrow> ld16 le buf (member M p f) = Some (be_val (take 2 (drop (offset_of M f) b)))"
    "offset_of M f + 4 \<le> length b \<Longrightarrow> ld32 le buf (member M p f) = Some (be_val (take 4 (drop (offset_of M f) b)))"
    "offset_of M f + 6 \<le> length b \<Longrightarrow> ld48 buf (member M p f) = Some (be_val (take 6 (drop (offset_of M f) b)))"
    "offset_of M f + 8 \<le> length b \<Longrightarrow> ld64 le buf (member M p f) = Some (be_val (take 8 (drop (offset_of M f) b)))"
  using assms
  by (simp_all add: member_def rd_frame rd8_frame ld16_def ld32_def ld48_def ld64_def loads_take)

lemma locate_bytes:
  "3 \<le> length b \<Longrightarrow> take (Suc 0) (drop (Suc 0) b) @ take (Suc 0) (drop (Suc (Suc 0)) b) = take 2 (drop (Suc 0) b)"
  by (simp add: take_Suc_conv_app_nth numeral_2_eq_2)

lemmas fld_simps = fld_def locate_def num_def tag_def locate_bytes hd_drop_conv_nth

section \<open>The handlers\<close>

definition handles :: "handler \<Rightarrow> byte \<Rightarrow> bool" where
  "handles h t \<longleftrightarrow> (\<forall>le buf p b len e s. in_frame buf p b \<and> unat len = length b \<longrightarrow>
     h le buf p len e s = (if length b < wire_payload_size t then Some (e, on_truncated s)
       else case event_of t b of None \<Rightarrow> Some (e, s) | Some ev \<Rightarrow> do { e \<leftarrow> engine_step e ev; Some (e, s) }))"

lemma checked_cast_cases:
  assumes "unat len = length b"
  shows "if_ok (checked_cast M p len) f e s =
    (if length b < sizeof_layout M then Some (e, on_truncated s) else do { e \<leftarrow> f p; Some (e, s) })"
  using assms by (simp add: checked_cast_def if_ok_def)

lemma payload_sizes:
  "wire_payload_size (ascii (CHR ''S'')) = 12"
  "wire_payload_size (ascii (CHR ''R'')) = 39"
  "wire_payload_size (ascii (CHR ''H'')) = 25"
  "wire_payload_size (ascii (CHR ''Y'')) = 20"
  "wire_payload_size (ascii (CHR ''L'')) = 26"
  "wire_payload_size (ascii (CHR ''V'')) = 35"
  "wire_payload_size (ascii (CHR ''W'')) = 12"
  "wire_payload_size (ascii (CHR ''K'')) = 28"
  "wire_payload_size (ascii (CHR ''J'')) = 35"
  "wire_payload_size (ascii (CHR ''h'')) = 21"
  "wire_payload_size (ascii (CHR ''A'')) = 36"
  "wire_payload_size (ascii (CHR ''F'')) = 40"
  "wire_payload_size (ascii (CHR ''E'')) = 31"
  "wire_payload_size (ascii (CHR ''C'')) = 36"
  "wire_payload_size (ascii (CHR ''X'')) = 23"
  "wire_payload_size (ascii (CHR ''D'')) = 19"
  "wire_payload_size (ascii (CHR ''U'')) = 35"
  "wire_payload_size (ascii (CHR ''P'')) = 44"
  "wire_payload_size (ascii (CHR ''Q'')) = 40"
  "wire_payload_size (ascii (CHR ''B'')) = 19"
  "wire_payload_size (ascii (CHR ''I'')) = 50"
  "wire_payload_size (ascii (CHR ''N'')) = 20"
  "wire_payload_size (ascii (CHR ''O'')) = 48"
  by (simp_all add: wire_payload_size_def kMsgMeta_def ascii_def)

lemmas handler_simps = checked_cast_cases member_reads event_of_def ascii_def layout_defs fld_simps

lemma handle_system_event_ok: "handles handle_system_event (ascii (CHR ''S''))"
  unfolding handles_def handle_system_event_def Let_def payload_sizes by (auto simp: handler_simps)

lemma handle_stock_directory_ok: "handles handle_stock_directory (ascii (CHR ''R''))"
  unfolding handles_def handle_stock_directory_def Let_def payload_sizes by (auto simp: handler_simps)

lemma handle_stock_trading_action_ok: "handles handle_stock_trading_action (ascii (CHR ''H''))"
  unfolding handles_def handle_stock_trading_action_def Let_def payload_sizes by (auto simp: handler_simps)

lemma handle_reg_sho_ok: "handles handle_reg_sho (ascii (CHR ''Y''))"
  unfolding handles_def handle_reg_sho_def Let_def payload_sizes by (auto simp: handler_simps)

lemma handle_market_participant_ok: "handles handle_market_participant (ascii (CHR ''L''))"
  unfolding handles_def handle_market_participant_def Let_def payload_sizes by (auto simp: handler_simps)

lemma handle_mwcb_decline_ok: "handles handle_mwcb_decline (ascii (CHR ''V''))"
  unfolding handles_def handle_mwcb_decline_def Let_def payload_sizes by (auto simp: handler_simps)

lemma handle_mwcb_status_ok: "handles handle_mwcb_status (ascii (CHR ''W''))"
  unfolding handles_def handle_mwcb_status_def Let_def payload_sizes by (auto simp: handler_simps)

lemma handle_ipo_quoting_period_ok: "handles handle_ipo_quoting_period (ascii (CHR ''K''))"
  unfolding handles_def handle_ipo_quoting_period_def Let_def payload_sizes by (auto simp: handler_simps)

lemma handle_luld_auction_collar_ok: "handles handle_luld_auction_collar (ascii (CHR ''J''))"
  unfolding handles_def handle_luld_auction_collar_def Let_def payload_sizes by (auto simp: handler_simps)

lemma handle_operational_halt_ok: "handles handle_operational_halt (ascii (CHR ''h''))"
  unfolding handles_def handle_operational_halt_def Let_def payload_sizes by (auto simp: handler_simps)

lemma handle_add_order_False_ok: "handles (handle_add_order False) (ascii (CHR ''A''))"
  unfolding handles_def handle_add_order_def Let_def payload_sizes by (auto simp: handler_simps)

lemma handle_add_order_True_ok: "handles (handle_add_order True) (ascii (CHR ''F''))"
  unfolding handles_def handle_add_order_def Let_def payload_sizes by (auto simp: handler_simps)

lemma handle_order_executed_ok: "handles handle_order_executed (ascii (CHR ''E''))"
  unfolding handles_def handle_order_executed_def Let_def payload_sizes by (auto simp: handler_simps)

lemma handle_order_executed_price_ok: "handles handle_order_executed_price (ascii (CHR ''C''))"
  unfolding handles_def handle_order_executed_price_def Let_def payload_sizes by (auto simp: handler_simps)

lemma handle_order_cancel_ok: "handles handle_order_cancel (ascii (CHR ''X''))"
  unfolding handles_def handle_order_cancel_def Let_def payload_sizes by (auto simp: handler_simps)

lemma handle_order_delete_ok: "handles handle_order_delete (ascii (CHR ''D''))"
  unfolding handles_def handle_order_delete_def Let_def payload_sizes by (auto simp: handler_simps)

lemma handle_order_replace_ok: "handles handle_order_replace (ascii (CHR ''U''))"
  unfolding handles_def handle_order_replace_def Let_def payload_sizes by (auto simp: handler_simps)

lemma handle_non_cross_trade_ok: "handles handle_non_cross_trade (ascii (CHR ''P''))"
  unfolding handles_def handle_non_cross_trade_def Let_def payload_sizes by (auto simp: handler_simps)

lemma handle_cross_trade_ok: "handles handle_cross_trade (ascii (CHR ''Q''))"
  unfolding handles_def handle_cross_trade_def Let_def payload_sizes by (auto simp: handler_simps)

lemma handle_broken_trade_ok: "handles handle_broken_trade (ascii (CHR ''B''))"
  unfolding handles_def handle_broken_trade_def Let_def payload_sizes by (auto simp: handler_simps)

lemma handle_noii_ok: "handles handle_noii (ascii (CHR ''I''))"
  unfolding handles_def handle_noii_def Let_def payload_sizes by (auto simp: handler_simps)

lemma handle_rpii_ok: "handles handle_rpii (ascii (CHR ''N''))"
  unfolding handles_def handle_rpii_def Let_def payload_sizes by (auto simp: handler_simps)

lemma handle_dlcr_ok: "handles handle_dlcr (ascii (CHR ''O''))"
  unfolding handles_def handle_dlcr_def Let_def payload_sizes by (auto simp: handler_simps)

section \<open>Dispatch\<close>

lemma handles_message:
  assumes "handles h t" "hd b = t" "wire_payload_size t \<noteq> 0" "in_frame buf p b" "unat len = length b"
  shows "h le buf p len e s = message_step (e, s) (decode b)"
  using assms by (auto simp: handles_def decode_def Let_def split: option.split)

lemma if_eqI: "(c \<Longrightarrow> x = z) \<Longrightarrow> (\<not> c \<Longrightarrow> y = z) \<Longrightarrow> (if c then x else y) = z"
  by simp

lemma dispatch_refines:
  assumes "in_frame buf p b" "unat len = length b"
  shows "dispatch (hd b) le buf p len e s = frame_step (e, s) (Payload b)"
proof -
  have len: "ucast len = (of_nat (length b) :: u32)" using assms(2) by (metis of_nat_unat)
  have unknown: "decode b = Unknown" if "\<forall>c\<in>set ''SRHYLVWKJhAFECXDUPQBINO''. hd b \<noteq> ascii c"
  proof -
    have "hd b \<notin> fst ` set kMsgMeta" using that by (simp add: kMsgMeta_def)
    then show ?thesis by (simp add: decode_def Let_def wire_payload_size_0)
  qed
  note m = handles_message [OF _ _ _ assms]
  show ?thesis
    unfolding dispatch_def Let_def len frame_step.simps
    by (intro if_eqI
      m [OF handle_system_event_ok]
      m [OF handle_stock_directory_ok]
      m [OF handle_stock_trading_action_ok]
      m [OF handle_reg_sho_ok]
      m [OF handle_market_participant_ok]
      m [OF handle_mwcb_decline_ok]
      m [OF handle_mwcb_status_ok]
      m [OF handle_ipo_quoting_period_ok]
      m [OF handle_luld_auction_collar_ok]
      m [OF handle_operational_halt_ok]
      m [OF handle_add_order_False_ok]
      m [OF handle_add_order_True_ok]
      m [OF handle_order_executed_ok]
      m [OF handle_order_executed_price_ok]
      m [OF handle_order_cancel_ok]
      m [OF handle_order_delete_ok]
      m [OF handle_order_replace_ok]
      m [OF handle_non_cross_trade_ok]
      m [OF handle_cross_trade_ok]
      m [OF handle_broken_trade_ok]
      m [OF handle_noii_ok]
      m [OF handle_rpii_ok]
      m [OF handle_dlcr_ok])
      (simp_all add: payload_sizes unknown)
qed

section \<open>The loop\<close>

fun frames_size :: "frame list \<Rightarrow> nat" where
  "frames_size [] = 0"
| "frames_size (f # fs) = frame_size f + frames_size fs"

lemma drop_two: "p + 2 \<le> length buf \<Longrightarrow> drop p buf = buf ! p # buf ! (p + 1) # drop (p + 2) buf"
  by (simp add: Cons_nth_drop_Suc)

lemma frames_short: "length b < 2 \<Longrightarrow> frames b = []"
  by (cases b rule: frames.cases) auto

lemma run_from_refines:
  "run_from le buf (length buf) p e s =
     do { (e', s') \<leftarrow> exec_list frame_step (e, s) (frames (drop p buf));
          Some (p + frames_size (frames (drop p buf)), e', s') }"
proof (induction "length buf - p" arbitrary: p e s rule: less_induct)
  case less
  show ?case
  proof (cases "p + 2 \<le> length buf")
    case False
    then show ?thesis by (subst run_from.simps) (simp add: frames_short)
  next
    case True
    define n q where "n = (be_val [buf ! p, buf ! (p + 1)] :: u16)" and "q = p + 2"
    have "ld16 le buf p = Some n"
      using True drop_two [OF True] by (simp add: ld16_def rd_def n_def load_be16_be_val numeral_2_eq_2)
    then have run: "run_from le buf (length buf) p e s =
      (if q + unat n > length buf then Some (q, e, on_parse_error s)
       else if n = 0 then run_from le buf (length buf) q e (on_parse_error s)
       else do { type \<leftarrow> rd8 buf q; (e, s) \<leftarrow> dispatch type le buf q n e s;
                 run_from le buf (length buf) (q + unat n) e s })"
      using True by (subst run_from.simps) (simp add: q_def Let_def)
    have fr: "frames (drop p buf) = (if q + unat n > length buf then [Cut] else if n = 0 then Empty # frames (drop q buf)
        else Payload (take (unat n) (drop q buf)) # frames (drop (q + unat n) buf))"
      using True unfolding drop_two [OF True] q_def frames.simps Let_def n_def
      by (auto simp: unat_eq_zero add.commute)
    have q: "q \<le> length buf" "length buf - q < length buf - p" "\<And>m. length buf - (q + m) < length buf - p"
      using True by (auto simp: q_def)
    consider (cut) "q + unat n > length buf" | (empty) "\<not> q + unat n > length buf" "n = 0"
      | (payload) "q + unat n \<le> length buf" "n \<noteq> 0" by linarith
    then show ?thesis
    proof cases
      case cut
      then show ?thesis by (simp add: run fr q_def)
    next
      case empty
      then show ?thesis by (simp add: run fr less(1) [OF q(2)]) (simp add: q_def)
    next
      case payload
      let ?b = "take (unat n) (drop q buf)"
      have b: "in_frame buf q ?b" "unat n = length ?b" using payload by (simp_all add: in_frame_take)
      have "0 < unat n" using payload by (simp add: unat_gt_0)
      then have "rd8 buf q = Some (hd ?b)" using payload by (simp add: rd8_def hd_drop_conv_nth)
      then have "run_from le buf (length buf) p e s = do { (e, s) \<leftarrow> frame_step (e, s) (Payload ?b);
          run_from le buf (length buf) (q + unat n) e s }"
        using payload dispatch_refines [OF b, of le e s] by (simp add: run)
      moreover have "frame_size (Payload ?b) = 2 + unat n" using payload by simp
      ultimately show ?thesis
        using payload less(1) [OF q(3)]
        by (simp add: fr q_def split: Option.bind_splits del: frame_step.simps)
    qed
  qed
qed

end
