(* ===== verification/Parser_Roundtrip.thy ===== *)
theory Parser_Roundtrip
  imports Parser_Refines
begin

text \<open>
  Encoding is the inverse of the parser's decoding: big-endian integers, the members of the structs,
  the payload of every event, and the length-prefixed frames.
\<close>

section \<open>Payloads\<close>

lemma be_val_to_be:
  assumes "unat v < 2 ^ (8 * n)"
  shows "be_val (to_be n v) = (v :: 'a::len word)"
proof (rule bit_word_eqI)
  fix i assume i: "i < LENGTH('a)"
  have v: "take_bit (8 * n) v = v" using assms
    by (metis take_bit_nat_eq_self unsigned_take_bit_eq unsigned_word_eqI)
  show "bit (be_val (to_be n v) :: 'a word) i = bit v i"
  proof (cases "i < 8 * n")
    case True
    then have "i div 8 < n" "bit (byte_of v (i div 8)) (i mod 8) = bit v i"
      using i by (auto simp: byte_of_def bit_simps)
    then show ?thesis using i by (simp add: to_be_def bit_be_val_rev)
  next
    case False
    then have "\<not> bit v i" by (subst v [symmetric]) (simp add: bit_simps)
    moreover have "\<not> i div 8 < n" using False by simp
    ultimately show ?thesis by (simp add: to_be_def bit_be_val_rev)
  qed
qed

lemma length_to_be [simp]: "length (to_be n v) = n"
  by (simp add: to_be_def)

lemma be_val_to_be_full:
  "be_val (to_be 2 v) = (v :: u16)" "be_val (to_be 4 w) = (w :: u32)" "be_val (to_be 8 x) = (x :: u64)"
  using unsigned_less [of v, where 'a = nat] unsigned_less [of w, where 'a = nat] unsigned_less [of x, where 'a = nat]
  by (simp_all add: be_val_to_be)

lemma locate_to_be: "be_val [byte_of loc 1, byte_of loc 0] = (loc :: u16)"
  using be_val_to_be_full(1) [of loc] by (simp add: to_be_def numeral_2_eq_2)

lemma encode_parts:
  assumes "wire_of ev = (M, t, fs)" and "f \<in> fst ` set M"
  shows "fld M f (encode free ev @ r) =
    fit (width_of M f) (if f = ''messageType'' then [t] else case map_of fs f of Some bs \<Rightarrow> bs | None \<Rightarrow> free f)"
  using assms by (simp add: encode_def fld_put_fields)

lemma decode_event:
  assumes "wire_of ev = ((''messageType'', 1) # M, t, fs)" and "wire_payload_size t = Suc (sizeof_layout M)"
    and "event_of t (encode free ev @ r) = Some ev'" and "ev = ev'"
  shows "decode (encode free ev @ r) = Ev ev"
proof -
  have "hd (encode free ev @ r) = t" using assms(1) by (simp add: encode_def put_fields_def fit_def)
  moreover have "length (encode free ev) = Suc (sizeof_layout M)"
    using assms(1) by (simp add: encode_def) (simp add: sizeof_layout_def)
  ultimately show ?thesis using assms by (simp add: decode_def)
qed

lemmas roundtrip_simps =
  event_of_def ascii_def num_def tag_def locate_def layout_defs hdr_def fit_id be_val_to_be_full be_val_to_be locate_to_be

lemma decode_StockDirectory:
  assumes ev: "ev = StockDirectory loc stock mc fsi rls rlo auth ssti ipo luld etp elf invi" and len: "length stock = 8"
  shows "decode (encode free ev @ r) = Ev ev"
proof -
  from ev have w: "wire_of ev = (StockDirectoryMsg, ascii (CHR ''R''),
      hdr loc @ [(''stock'', stock), (''marketCategory'', [mc]), (
      ''financialStatusIndicator'', [fsi]), (''roundLotSize'', to_be 4 rls), (
      ''roundLotsOnly'', [rlo]), (''authenticity'', [auth]), (
      ''shortScaleThresholdIndicator'', [ssti]), (''ipoFlag'', [ipo]), (
      ''luldReferencePriceTier'', [luld]), (''etpFlag'', [etp]), (
      ''etpLeverageFactor'', to_be 4 elf), (''inverseIndicator'', [invi])])" by simp
  show ?thesis
  proof (rule decode_event [OF w [unfolded layout_defs append.simps] _ _ ev])
    show "event_of (ascii (CHR ''R'')) (encode free ev @ r) = Some (StockDirectory loc stock mc fsi rls rlo auth ssti ipo luld etp elf invi)"
      using len by (simp add: encode_parts [OF w, unfolded layout_defs append.simps] roundtrip_simps del: One_nat_def)
  qed (simp_all add: payload_sizes sizeof_layout_def)
qed

lemma decode_TradingAction:
  assumes ev: "ev = TradingAction loc state"
  shows "decode (encode free ev @ r) = Ev ev"
proof -
  from ev have w: "wire_of ev = (StockTradingActionMsg, ascii (CHR ''H''),
      hdr loc @ [(''tradingState'', [state])])" by simp
  show ?thesis
  proof (rule decode_event [OF w [unfolded layout_defs append.simps] _ _ ev])
    show "event_of (ascii (CHR ''H'')) (encode free ev @ r) = Some (TradingAction loc state)"
      by (simp add: encode_parts [OF w, unfolded layout_defs append.simps] roundtrip_simps del: One_nat_def)
  qed (simp_all add: payload_sizes sizeof_layout_def)
qed

lemma decode_RegSHO:
  assumes ev: "ev = RegSHO loc action"
  shows "decode (encode free ev @ r) = Ev ev"
proof -
  from ev have w: "wire_of ev = (RegSHOMsg, ascii (CHR ''Y''),
      hdr loc @ [(''regSHOAction'', [action])])" by simp
  show ?thesis
  proof (rule decode_event [OF w [unfolded layout_defs append.simps] _ _ ev])
    show "event_of (ascii (CHR ''Y'')) (encode free ev @ r) = Some (RegSHO loc action)"
      by (simp add: encode_parts [OF w, unfolded layout_defs append.simps] roundtrip_simps del: One_nat_def)
  qed (simp_all add: payload_sizes sizeof_layout_def)
qed

lemma decode_AddOrder:
  assumes ev: "ev = AddOrder loc oid bsi qty px ts empty_mpid False" and len: "unat ts < 2 ^ 48"
  shows "decode (encode free ev @ r) = Ev ev"
proof -
  from ev have w: "wire_of ev = (AddOrderMsg, ascii (CHR ''A''),
      hdr loc @ [(''orderReferenceNumber'', to_be 8 oid), (''buySellIndicator'', [bsi]), (
      ''shares'', to_be 4 qty), (''price'', to_be 4 px), (''ts'', to_be 6 ts)])" by simp
  show ?thesis
  proof (rule decode_event [OF w [unfolded layout_defs append.simps] _ _ ev])
    show "event_of (ascii (CHR ''A'')) (encode free ev @ r) = Some (AddOrder loc oid bsi qty px ts empty_mpid False)"
      using len by (simp add: encode_parts [OF w, unfolded layout_defs append.simps] roundtrip_simps del: One_nat_def)
  qed (simp_all add: payload_sizes sizeof_layout_def)
qed

lemma decode_AddOrderMPID:
  assumes ev: "ev = AddOrder loc oid bsi qty px ts mpid True" and len: "unat ts < 2 ^ 48" "length mpid = 4"
  shows "decode (encode free ev @ r) = Ev ev"
proof -
  from ev have w: "wire_of ev = (AddOrderMPIDMsg, ascii (CHR ''F''),
      (hdr loc @ [(''orderReferenceNumber'', to_be 8 oid), (''buySellIndicator'', [bsi]), (
      ''shares'', to_be 4 qty), (''price'', to_be 4 px), (
      ''ts'', to_be 6 ts)]) @ [(''attribution'', mpid)])" by simp
  show ?thesis
  proof (rule decode_event [OF w [unfolded layout_defs append.simps] _ _ ev])
    show "event_of (ascii (CHR ''F'')) (encode free ev @ r) = Some (AddOrder loc oid bsi qty px ts mpid True)"
      using len by (simp add: encode_parts [OF w, unfolded layout_defs append.simps] roundtrip_simps del: One_nat_def)
  qed (simp_all add: payload_sizes sizeof_layout_def)
qed

lemma decode_OrderExecuted:
  assumes ev: "ev = OrderExecuted loc oid qty"
  shows "decode (encode free ev @ r) = Ev ev"
proof -
  from ev have w: "wire_of ev = (OrderExecutedMsg, ascii (CHR ''E''),
      hdr loc @ [(''orderReferenceNumber'', to_be 8 oid), (''executedShares'', to_be 4 qty)])" by simp
  show ?thesis
  proof (rule decode_event [OF w [unfolded layout_defs append.simps] _ _ ev])
    show "event_of (ascii (CHR ''E'')) (encode free ev @ r) = Some (OrderExecuted loc oid qty)"
      by (simp add: encode_parts [OF w, unfolded layout_defs append.simps] roundtrip_simps del: One_nat_def)
  qed (simp_all add: payload_sizes sizeof_layout_def)
qed

lemma decode_OrderExecutedWithPrice:
  assumes ev: "ev = OrderExecutedWithPrice loc oid qty"
  shows "decode (encode free ev @ r) = Ev ev"
proof -
  from ev have w: "wire_of ev = (OrderExecutedWithPriceMsg, ascii (CHR ''C''),
      hdr loc @ [(''orderReferenceNumber'', to_be 8 oid), (''executedShares'', to_be 4 qty)])" by simp
  show ?thesis
  proof (rule decode_event [OF w [unfolded layout_defs append.simps] _ _ ev])
    show "event_of (ascii (CHR ''C'')) (encode free ev @ r) = Some (OrderExecutedWithPrice loc oid qty)"
      by (simp add: encode_parts [OF w, unfolded layout_defs append.simps] roundtrip_simps del: One_nat_def)
  qed (simp_all add: payload_sizes sizeof_layout_def)
qed

lemma decode_OrderCancel:
  assumes ev: "ev = OrderCancel loc oid qty"
  shows "decode (encode free ev @ r) = Ev ev"
proof -
  from ev have w: "wire_of ev = (OrderCancelMsg, ascii (CHR ''X''),
      hdr loc @ [(''orderReferenceNumber'', to_be 8 oid), (''cancelledShares'', to_be 4 qty)])" by simp
  show ?thesis
  proof (rule decode_event [OF w [unfolded layout_defs append.simps] _ _ ev])
    show "event_of (ascii (CHR ''X'')) (encode free ev @ r) = Some (OrderCancel loc oid qty)"
      by (simp add: encode_parts [OF w, unfolded layout_defs append.simps] roundtrip_simps del: One_nat_def)
  qed (simp_all add: payload_sizes sizeof_layout_def)
qed

lemma decode_OrderDelete:
  assumes ev: "ev = OrderDelete loc oid"
  shows "decode (encode free ev @ r) = Ev ev"
proof -
  from ev have w: "wire_of ev = (OrderDeleteMsg, ascii (CHR ''D''),
      hdr loc @ [(''orderReferenceNumber'', to_be 8 oid)])" by simp
  show ?thesis
  proof (rule decode_event [OF w [unfolded layout_defs append.simps] _ _ ev])
    show "event_of (ascii (CHR ''D'')) (encode free ev @ r) = Some (OrderDelete loc oid)"
      by (simp add: encode_parts [OF w, unfolded layout_defs append.simps] roundtrip_simps del: One_nat_def)
  qed (simp_all add: payload_sizes sizeof_layout_def)
qed

lemma decode_OrderReplace:
  assumes ev: "ev = OrderReplace loc old new qty px ts" and len: "unat ts < 2 ^ 48"
  shows "decode (encode free ev @ r) = Ev ev"
proof -
  from ev have w: "wire_of ev = (OrderReplaceMsg, ascii (CHR ''U''),
      hdr loc @ [(''originalOrderReferenceNumber'', to_be 8 old), (
      ''newOrderReferenceNumber'', to_be 8 new), (''shares'', to_be 4 qty), (
      ''price'', to_be 4 px), (''ts'', to_be 6 ts)])" by simp
  show ?thesis
  proof (rule decode_event [OF w [unfolded layout_defs append.simps] _ _ ev])
    show "event_of (ascii (CHR ''U'')) (encode free ev @ r) = Some (OrderReplace loc old new qty px ts)"
      using len by (simp add: encode_parts [OF w, unfolded layout_defs append.simps] roundtrip_simps del: One_nat_def)
  qed (simp_all add: payload_sizes sizeof_layout_def)
qed

lemma decode_NonCrossTrade:
  assumes ev: "ev = NonCrossTrade"
  shows "decode (encode free ev @ r) = Ev ev"
proof -
  from ev have w: "wire_of ev = (NonCrossTradeMsg, ascii (CHR ''P''),
      [])" by simp
  show ?thesis
  proof (rule decode_event [OF w [unfolded layout_defs append.simps] _ _ ev])
    show "event_of (ascii (CHR ''P'')) (encode free ev @ r) = Some (NonCrossTrade)"
      by (simp add: encode_parts [OF w, unfolded layout_defs append.simps] roundtrip_simps del: One_nat_def)
  qed (simp_all add: payload_sizes sizeof_layout_def)
qed

lemma decode_CrossTrade:
  assumes ev: "ev = CrossTrade loc xtype"
  shows "decode (encode free ev @ r) = Ev ev"
proof -
  from ev have w: "wire_of ev = (CrossTradeMsg, ascii (CHR ''Q''),
      hdr loc @ [(''crossType'', [xtype])])" by simp
  show ?thesis
  proof (rule decode_event [OF w [unfolded layout_defs append.simps] _ _ ev])
    show "event_of (ascii (CHR ''Q'')) (encode free ev @ r) = Some (CrossTrade loc xtype)"
      by (simp add: encode_parts [OF w, unfolded layout_defs append.simps] roundtrip_simps del: One_nat_def)
  qed (simp_all add: payload_sizes sizeof_layout_def)
qed

lemma decode_BrokenTrade:
  assumes ev: "ev = BrokenTrade"
  shows "decode (encode free ev @ r) = Ev ev"
proof -
  from ev have w: "wire_of ev = (BrokenTradeMsg, ascii (CHR ''B''),
      [])" by simp
  show ?thesis
  proof (rule decode_event [OF w [unfolded layout_defs append.simps] _ _ ev])
    show "event_of (ascii (CHR ''B'')) (encode free ev @ r) = Some (BrokenTrade)"
      by (simp add: encode_parts [OF w, unfolded layout_defs append.simps] roundtrip_simps del: One_nat_def)
  qed (simp_all add: payload_sizes sizeof_layout_def)
qed

lemma decode_event_payload:
  assumes "wire_event ev"
  shows "decode (encode free ev @ extra) = Ev ev"
proof (cases ev)
  case (AddOrder loc oid bsi qty px ts mpid attributed)
  then show ?thesis
    using assms decode_AddOrder [of ev] decode_AddOrderMPID [of ev] by (cases attributed) simp_all
qed (use assms in \<open>simp_all add: decode_StockDirectory decode_TradingAction decode_RegSHO decode_OrderExecuted decode_OrderExecutedWithPrice decode_OrderCancel decode_OrderDelete decode_OrderReplace decode_NonCrossTrade decode_CrossTrade decode_BrokenTrade\<close>)

section \<open>Frames\<close>

definition whole_frame :: "byte list \<Rightarrow> bool" where
  "whole_frame b \<longleftrightarrow> b \<noteq> [] \<and> length b < 2 ^ 16"

lemma frames_frame_bytes:
  assumes "length b < 2 ^ 16"
  shows "frames (frame_bytes b @ r) = (if b = [] then Empty else Payload b) # frames r"
proof -
  have n: "unat (of_nat (length b) :: u16) = length b" using assms by (simp add: unat_of_nat take_bit_nat_eq_self)
  obtain x y where xy: "to_be 2 (of_nat (length b) :: u16) = [x, y]" by (simp add: to_be_def numeral_2_eq_2)
  have "be_val [x, y] = (of_nat (length b) :: u16)" using be_val_to_be_full(1) xy by metis
  then show ?thesis using n by (auto simp: frame_bytes_def xy)
qed

lemma frames_concat:
  "(\<And>b. b \<in> set ps \<Longrightarrow> length b < 2 ^ 16) \<Longrightarrow>
   frames (concat (map frame_bytes ps) @ r) = map (\<lambda>b. if b = [] then Empty else Payload b) ps @ frames r"
  by (induction ps) (simp_all add: frames_frame_bytes)

lemma encode_length:
  "length (encode free ev) = sizeof_layout (fst (wire_of ev))"
  "0 < length (encode free ev) \<and> length (encode free ev) < 2 ^ 16"
proof -
  show len: "length (encode free ev) = sizeof_layout (fst (wire_of ev))"
    by (simp add: encode_def split: prod.split)
  show "0 < length (encode free ev) \<and> length (encode free ev) < 2 ^ 16"
    unfolding len by (cases ev) (simp_all add: Let_def)
qed

end
