(* ===== verification/Parser_Properties.thy ===== *)
theory Parser_Properties
  imports Parser_Roundtrip
begin

text \<open>
  The properties of the parser, and of the parser and the engine together: what a run over a buffer
  does, what the statistics count, and that encoding events and parsing them gives the events back.
\<close>

section \<open>Events and statistics of the frames\<close>

fun frame_events :: "frame \<Rightarrow> event list" where
  "frame_events (Payload b) = (case decode b of Ev ev \<Rightarrow> [ev] | _ \<Rightarrow> [])"
| "frame_events _ = []"

definition events :: "byte list \<Rightarrow> event list" where
  "events buf = concat (map frame_events (frames buf))"

fun frame_stats :: "Stats \<Rightarrow> frame \<Rightarrow> Stats" where
  "frame_stats s (Payload b) =
     (let s = on_message (hd b) (of_nat (length b)) s
      in case decode b of Unknown \<Rightarrow> on_parse_error s | Short \<Rightarrow> on_truncated s | _ \<Rightarrow> s)"
| "frame_stats s _ = on_parse_error s"

lemma frame_step_split:
  "frame_step (e, s) f = do { e' \<leftarrow> exec_list engine_step e (frame_events f); Some (e', frame_stats s f) }"
  by (cases f) (auto simp: Let_def split: message.split)

lemma frame_steps_split:
  "exec_list frame_step (e, s) fs =
     do { e' \<leftarrow> exec_list engine_step e (concat (map frame_events fs)); Some (e', foldl frame_stats s fs) }"
  by (induction fs arbitrary: e s) (simp_all add: frame_step_split exec_list_append del: frame_step.simps
      split: Option.bind_splits)

lemma frames_size_le: "frames_size (frames b) \<le> length b"
  by (induction b rule: frames.induct) (auto simp: Let_def min_def)

lemma frames_size_rest:
  "frames b = [] \<or> last (frames b) \<noteq> Cut \<Longrightarrow> length b < frames_size (frames b) + 2"
  by (induction b rule: frames.induct) (auto simp: Let_def min_def split: if_splits)

text \<open>
  C6. On every buffer, engine and statistics the parser never reads outside the buffer: its run
  handles the events of the buffer's frames in order, counts every frame, and returns the number of
  bytes of the frames.
\<close>

theorem parser_runs_frames:
  "run le buf (length buf) e s =
     do { e' \<leftarrow> exec_list engine_step e (events buf);
          Some (frames_size (frames buf), e', foldl frame_stats s (frames buf)) }"
  by (simp add: run_def run_from_refines frame_steps_split events_def split: Option.bind_splits)

text \<open>
  C10. When the events of a buffer are admissible, parsing it with a fresh engine returns: the engine
  implements the abstract queues of the events, the position is inside the buffer, and unless the
  last frame is cut, at most one byte is left.
\<close>

theorem parser_total:
  assumes "oc < 2 ^ 32" "lc < 2 ^ 64" "all_admissible (spec_step oc lc) event_ok no_orders (events buf)"
  shows "\<exists>n e s'. run le buf (length buf) (MatchingEngine_init oc lc) s = Some (n, e, s') \<and>
    refines oc lc e (foldl (spec_step oc lc) no_orders (events buf)) \<and>
    n \<le> length buf \<and> (frames buf = [] \<or> last (frames buf) \<noteq> Cut \<longrightarrow> length buf < n + 2)"
proof -
  from engine.run_sim [OF refines_init [OF assms(1,2)] assms(3)] obtain e where
    "exec_list engine_step (MatchingEngine_init oc lc) (events buf) = Some e"
    "refines oc lc e (foldl (spec_step oc lc) no_orders (events buf))" by blast
  then show ?thesis
    using frames_size_le [of buf] frames_size_rest [of buf]
    by (cases "frames buf = []") (simp_all add: run_def run_from_refines frame_steps_split events_def)
qed

section \<open>The counters\<close>

fun payloads :: "frame list \<Rightarrow> byte list list" where
  "payloads [] = []"
| "payloads (Payload b # fs) = b # payloads fs"
| "payloads (_ # fs) = payloads fs"

lemma payloads_append [simp]: "payloads (fs @ fs') = payloads fs @ payloads fs'"
  by (induction fs rule: payloads.induct) auto

lemma payload_length: "b \<in> set (payloads (frames buf)) \<Longrightarrow> b \<noteq> [] \<and> length b < 2 ^ 16"
proof (induction buf rule: frames.induct)
  case (1 x y r)
  have "unat (be_val [x, y] :: u16) < 2 ^ 16" using unsigned_less [of "be_val [x, y] :: u16", where 'a = nat] by simp
  then show ?case using 1 by (auto simp: Let_def min_def split: if_splits)
qed auto

lemma stats_of_frames:
  assumes "\<And>b. b \<in> set (payloads fs) \<Longrightarrow> length b < 2 ^ 16"
  shows "foldl frame_stats s fs = s\<lparr>per_type := (\<lambda>t. per_type s t + of_nat (length (filter (\<lambda>b. hd b = t) (payloads fs)))),
    total_messages := total_messages s + of_nat (length (payloads fs)),
    total_bytes := total_bytes s + of_nat (sum_list (map length (payloads fs))),
    total_framing_bytes := total_framing_bytes s + of_nat (2 * length (payloads fs)),
    parse_errors := parse_errors s + of_nat (length fs - length (payloads fs)
      + length (filter (\<lambda>b. decode b = Unknown) (payloads fs))),
    truncated_messages := truncated_messages s + of_nat (length (filter (\<lambda>b. decode b = Short) (payloads fs)))\<rparr>"
  using assms
proof (induction fs arbitrary: s)
  case Nil
  then show ?case by simp
next
  case (Cons f fs)
  have le: "length (payloads fs) \<le> length fs" by (induction fs rule: payloads.induct) auto
  show ?case
  proof (cases f)
    case (Payload b)
    have "length b < 2 ^ 32" using Cons.prems [of b] Payload by simp
    then have "ucast (of_nat (length b) :: u32) = (of_nat (length b) :: u64)"
      by (simp add: unsigned_of_nat take_bit_nat_eq_self)
    then show ?thesis
      using Cons Payload by (auto simp: on_message_def on_parse_error_def on_truncated_def Let_def fun_eq_iff
          split: message.split)
  qed (use Cons le in \<open>auto simp: on_parse_error_def Suc_diff_le\<close>)
qed

lemma payloads_le: "length (payloads fs) \<le> length fs"
  by (induction fs rule: payloads.induct) auto

lemma frames_size_payloads:
  "frames_size fs = sum_list (map length (payloads fs)) + 2 * length (payloads fs) + 2 * (length fs - length (payloads fs))"
proof (induction fs)
  case (Cons f fs)
  then show ?case using payloads_le [of fs] by (cases f) (auto simp: Suc_diff_le)
qed simp

lemma unat_count: "k \<le> m \<Longrightarrow> m < 2 ^ 64 \<Longrightarrow> unat (of_nat k :: u64) = k"
  by (simp add: unat_of_nat take_bit_nat_eq_self)

text \<open>
  C15. The counters are exact: after a run over a buffer from reset statistics, the messages, their
  payload and framing bytes, the messages of every type, the truncated ones and the errors (cut
  frames, empty frames, unknown types) are those of the buffer's frames, without wrap-around, and the
  bytes consumed are the payload and framing bytes plus the prefixes of the cut and empty frames.
\<close>

theorem parser_counters_exact:
  assumes len: "length buf < 2 ^ 64" and run: "run le buf (length buf) e (reset_stats now s) = Some (n, e', s')"
  shows "let ps = payloads (frames buf); skipped = length (frames buf) - length ps in
    unat (total_messages s') = length ps \<and> unat (total_bytes s') = sum_list (map length ps) \<and>
    unat (total_framing_bytes s') = 2 * length ps \<and>
    (\<forall>t. unat (per_type s' t) = length (filter (\<lambda>b. hd b = t) ps)) \<and>
    unat (truncated_messages s') = length (filter (\<lambda>b. decode b = Short) ps) \<and>
    unat (parse_errors s') = skipped + length (filter (\<lambda>b. decode b = Unknown) ps) \<and>
    n = unat (total_bytes s') + unat (total_framing_bytes s') + 2 * skipped"
proof -
  let ?fs = "frames buf"
  let ?ps = "payloads ?fs"
  from run have n: "n = frames_size ?fs" and s': "s' = foldl frame_stats (reset_stats now s) ?fs"
    by (auto simp: run_def run_from_refines frame_steps_split events_def split: bind_splits)
  have size: "frames_size ?fs \<le> length buf" by (rule frames_size_le)
  note sum = frames_size_payloads [of ?fs]
  have filter: "length (filter P ?ps) \<le> length ?ps" for P by (rule length_filter_le)
  have small: "sum_list (map length ?ps) \<le> length buf" "2 * length ?ps \<le> length buf" "length ?ps \<le> length buf"
    "length ?fs - length ?ps + length (filter P ?ps) \<le> length buf" "length (filter P ?ps) \<le> length buf" for P
    using sum size filter [of P] by linarith+
  note eq = stats_of_frames [of ?fs "reset_stats now s", OF payload_length [THEN conjunct2], folded s']
  show ?thesis
    unfolding Let_def using small [THEN unat_count [OF _ len]] sum n
    by (simp add: eq reset_stats_def)
qed

section \<open>Round trips\<close>

text \<open>
  C32. A payload that follows the layout of an event's message makes the dispatch hand exactly that
  event to the engine, at any place of the buffer, whatever the members are that the engine does not
  use, and whatever bytes follow the struct in the frame.
\<close>

theorem dispatch_encode:
  assumes "wire_event ev" and "length b < 2 ^ 16" and "b = encode free ev @ extra"
  shows "dispatch (hd b) le (pre @ b @ post) (length pre) (of_nat (length b)) e s =
    do { e \<leftarrow> engine_step e ev; Some (e, on_message (hd b) (of_nat (length b)) s) }"
proof -
  have "in_frame (pre @ b @ post) (length pre) b" by (simp add: in_frame_def)
  moreover have "unat (of_nat (length b) :: u16) = length b"
    using assms(2) by (simp add: unat_of_nat take_bit_nat_eq_self)
  moreover have "decode b = Ev ev" unfolding assms(3) by (rule decode_event_payload [OF assms(1)])
  ultimately show ?thesis by (simp add: dispatch_refines)
qed

theorem dispatch_encode_witness:
  "dispatch (hd (encode (\<lambda>_. []) (RegSHO 7 48))) True ([1, 2] @ encode (\<lambda>_. []) (RegSHO 7 48) @ [3]) (length [1, 2 :: byte]) 20
      (MatchingEngine_init 4 2) Stats_init =
    Some (on_reg_sho (MatchingEngine_init 4 2) 7 48, on_message (hd (encode (\<lambda>_. []) (RegSHO 7 48))) 20 Stats_init)"
  using dispatch_encode [of "RegSHO 7 48" "encode (\<lambda>_. []) (RegSHO 7 48)" "\<lambda>_. []" "[]" True "[1, 2]" "[3]"
      "MatchingEngine_init 4 2" Stats_init]
  by (simp add: encode_length)

section \<open>The byte offsets of the ITCH specification\<close>

text \<open>
  The sizes of the messages and, for those the engine handles, the event by the numbers of the bytes, as
  the ITCH 5.0 specification tabulates them; neither uses the layouts of the structs.
\<close>

definition itch_sizes :: "(byte \<times> nat) list" where
  "itch_sizes = zip (map ascii ''SRHYLVWKJhAFECXDUPQBINO'')
     [12, 39, 25, 20, 26, 35, 12, 28, 35, 21, 36, 40, 31, 36, 23, 19, 35, 44, 40, 19, 50, 20, 48]"

definition be_at :: "nat \<Rightarrow> nat \<Rightarrow> byte list \<Rightarrow> 'a::len word" where
  "be_at k n b = be_val (take n (drop k b))"

definition itch_event :: "byte list \<Rightarrow> event option" where
  "itch_event b =
    (let is = (\<lambda>c. hd b = ascii c); stock_locate = be_at 1 2 b; timestamp = be_at 5 6 b
     in if is CHR ''R'' then Some (StockDirectory stock_locate (take 8 (drop 11 b)) (b ! 19) (b ! 20) (be_at 21 4 b) (b ! 25)
            (b ! 29) (b ! 30) (b ! 31) (b ! 32) (b ! 33) (be_at 34 4 b) (b ! 38))
        else if is CHR ''H'' then Some (TradingAction stock_locate (b ! 19))
        else if is CHR ''Y'' then Some (RegSHO stock_locate (b ! 19))
        else if is CHR ''A'' then Some (AddOrder stock_locate (be_at 11 8 b) (b ! 19) (be_at 20 4 b) (be_at 32 4 b) timestamp empty_mpid False)
        else if is CHR ''F'' then Some (AddOrder stock_locate (be_at 11 8 b) (b ! 19) (be_at 20 4 b) (be_at 32 4 b) timestamp (take 4 (drop 36 b)) True)
        else if is CHR ''E'' then Some (OrderExecuted stock_locate (be_at 11 8 b) (be_at 19 4 b))
        else if is CHR ''C'' then Some (OrderExecutedWithPrice stock_locate (be_at 11 8 b) (be_at 19 4 b))
        else if is CHR ''X'' then Some (OrderCancel stock_locate (be_at 11 8 b) (be_at 19 4 b))
        else if is CHR ''D'' then Some (OrderDelete stock_locate (be_at 11 8 b))
        else if is CHR ''U'' then Some (OrderReplace stock_locate (be_at 11 8 b) (be_at 19 8 b) (be_at 27 4 b) (be_at 31 4 b) timestamp)
        else if is CHR ''P'' then Some NonCrossTrade
        else if is CHR ''Q'' then Some (CrossTrade stock_locate (b ! 39))
        else if is CHR ''B'' then Some BrokenTrade
        else None)"

lemma itch_sizes_payload: "wire_payload_size t = (case map_of itch_sizes t of None \<Rightarrow> 0 | Some n \<Rightarrow> n)"
  by (simp add: wire_payload_size_def kMsgMeta_def itch_sizes_def ascii_def)

lemmas itch_simps = itch_event_def be_at_def event_of_def ascii_def layout_defs fld_simps

lemma five: "(5 :: nat) = Suc (Suc (Suc (Suc (Suc 0))))"
  by simp

lemma itch_event_cases:
  "hd b = ascii CHR ''R'' \<Longrightarrow> 39 \<le> length b \<Longrightarrow> event_of (ascii CHR ''R'') b = itch_event b"
  "hd b = ascii CHR ''H'' \<Longrightarrow> 25 \<le> length b \<Longrightarrow> event_of (ascii CHR ''H'') b = itch_event b"
  "hd b = ascii CHR ''Y'' \<Longrightarrow> 20 \<le> length b \<Longrightarrow> event_of (ascii CHR ''Y'') b = itch_event b"
  "hd b = ascii CHR ''A'' \<Longrightarrow> 36 \<le> length b \<Longrightarrow> event_of (ascii CHR ''A'') b = itch_event b"
  "hd b = ascii CHR ''F'' \<Longrightarrow> 40 \<le> length b \<Longrightarrow> event_of (ascii CHR ''F'') b = itch_event b"
  "hd b = ascii CHR ''E'' \<Longrightarrow> 31 \<le> length b \<Longrightarrow> event_of (ascii CHR ''E'') b = itch_event b"
  "hd b = ascii CHR ''C'' \<Longrightarrow> 36 \<le> length b \<Longrightarrow> event_of (ascii CHR ''C'') b = itch_event b"
  "hd b = ascii CHR ''X'' \<Longrightarrow> 23 \<le> length b \<Longrightarrow> event_of (ascii CHR ''X'') b = itch_event b"
  "hd b = ascii CHR ''D'' \<Longrightarrow> 19 \<le> length b \<Longrightarrow> event_of (ascii CHR ''D'') b = itch_event b"
  "hd b = ascii CHR ''U'' \<Longrightarrow> 35 \<le> length b \<Longrightarrow> event_of (ascii CHR ''U'') b = itch_event b"
  "hd b = ascii CHR ''P'' \<Longrightarrow> 44 \<le> length b \<Longrightarrow> event_of (ascii CHR ''P'') b = itch_event b"
  "hd b = ascii CHR ''Q'' \<Longrightarrow> 40 \<le> length b \<Longrightarrow> event_of (ascii CHR ''Q'') b = itch_event b"
  "hd b = ascii CHR ''B'' \<Longrightarrow> 19 \<le> length b \<Longrightarrow> event_of (ascii CHR ''B'') b = itch_event b"
  by (simp_all add: itch_simps five)

lemma itch_event_of:
  assumes "wire_payload_size (hd b) \<le> length b"
  shows "event_of (hd b) b = itch_event b"
proof -
  consider (known) c where "c \<in> set ''RHYAFECXDUPQB''" "hd b = ascii c" | (other) "\<forall>c\<in>set ''RHYAFECXDUPQB''. hd b \<noteq> ascii c" by blast
  then show ?thesis
  proof cases
    case known
    note size = assms [unfolded known(2)]
    from known(1) consider "c = CHR ''R''" | "c = CHR ''H''" | "c = CHR ''Y''" | "c = CHR ''A''" | "c = CHR ''F''" | "c = CHR ''E''" |
      "c = CHR ''C''" | "c = CHR ''X''" | "c = CHR ''D''" | "c = CHR ''U''" | "c = CHR ''P''" | "c = CHR ''Q''" | "c = CHR ''B''" by auto
    then show ?thesis
      unfolding known(2) using size known(2) by cases (simp_all only: payload_sizes itch_event_cases)
  next
    case other
    then show ?thesis by (simp add: itch_event_def event_of_def Let_def)
  qed
qed

text \<open>
  C34. The dispatch reads a payload at the byte offsets of the ITCH specification: at any place of the
  buffer, a payload whose first byte is no message type counts as an error and one shorter than the
  size of its type as truncated; any other hands the engine exactly the event whose locate, reference
  numbers, shares, price, timestamp and codes stand at the specified bytes, big-endian, and nothing for
  the types without an event. Every payload is counted once, before that.
\<close>

theorem itch_offsets:
  assumes "length b < 2 ^ 16"
  shows "dispatch (hd b) le (pre @ b @ post) (length pre) (of_nat (length b)) e s =
    (let counted = on_message (hd b) (of_nat (length b)) s
     in case map_of itch_sizes (hd b) of
          None \<Rightarrow> Some (e, on_parse_error counted)
        | Some n \<Rightarrow> if length b < n then Some (e, on_truncated counted)
            else case itch_event b of None \<Rightarrow> Some (e, counted) | Some ev \<Rightarrow> map_option (\<lambda>e. (e, counted)) (engine_step e ev))"
proof -
  have "in_frame (pre @ b @ post) (length pre) b" by (simp add: in_frame_def)
  moreover have "unat (of_nat (length b) :: u16) = length b"
    using assms by (simp add: unat_of_nat take_bit_nat_eq_self)
  ultimately have dispatch: "dispatch (hd b) le (pre @ b @ post) (length pre) (of_nat (length b)) e s =
      message_step (e, on_message (hd b) (of_nat (length b)) s) (decode b)" by (simp add: dispatch_refines)
  have pos: "0 < n" if "map_of itch_sizes (hd b) = Some n" for n
    using map_of_SomeD [OF that] by (auto simp: itch_sizes_def)
  show ?thesis
  proof (cases "map_of itch_sizes (hd b)")
    case None
    then show ?thesis unfolding dispatch by (simp add: decode_def itch_sizes_payload)
  next
    case (Some n)
    then have size: "wire_payload_size (hd b) = n" "0 < n" using pos by (simp_all add: itch_sizes_payload)
    show ?thesis
    proof (cases "length b < n")
      case True
      then show ?thesis unfolding dispatch using Some size by (simp add: decode_def)
    next
      case False
      then have "event_of (hd b) b = itch_event b" using size by (intro itch_event_of) simp
      with False Some size show ?thesis
        unfolding dispatch by (cases "itch_event b"; cases "engine_step e (the (itch_event b))") (simp_all add: decode_def Let_def)
    qed
  qed
qed

text \<open>An order delete of reference number 258 behind two other bytes.\<close>

definition demo_delete :: "byte list" where
  "demo_delete = [68, 0, 7, 0, 0, 0, 0, 0, 0, 0, 0] @ [0, 0, 0, 0, 0, 0, 1, 2]"

theorem itch_offsets_witness:
  "dispatch 68 True ([1, 2] @ demo_delete @ [3]) 2 19 (MatchingEngine_init 4 2) Stats_init =
     map_option (\<lambda>e. (e, on_message 68 19 Stats_init)) (on_order_delete (MatchingEngine_init 4 2) 7 258)"
proof -
  have hd: "hd demo_delete = 68" "length demo_delete = 19" by (simp_all add: demo_delete_def)
  have sz: "map_of itch_sizes 68 = Some 19" by (simp add: itch_sizes_def ascii_def)
  have "itch_event demo_delete = Some (OrderDelete 7 258)"
    by (simp add: itch_event_def demo_delete_def ascii_def be_at_def be_val_def Let_def)
  then have "dispatch 68 True ([1, 2] @ demo_delete @ [3]) (Suc (Suc 0)) 19 (MatchingEngine_init 4 2) Stats_init =
     map_option (\<lambda>e. (e, on_message 68 19 Stats_init)) (on_order_delete (MatchingEngine_init 4 2) 7 258)"
    using itch_offsets [of demo_delete True "[1, 2]" "[3]" "MatchingEngine_init 4 2" Stats_init] by (simp add: hd sz)
  then show ?thesis by (simp add: numeral_2_eq_2)
qed

lemma exec_list_map:
  "(\<And>s x. x \<in> set xs \<Longrightarrow> f s (h x) = g s x) \<Longrightarrow> exec_list f s (map h xs) = exec_list g s xs"
  by (induction xs arbitrary: s) (auto intro!: Option.bind_cong)

lemma dispatch_alone:
  assumes "whole_frame b"
  shows "dispatch (hd b) le b 0 (of_nat (length b)) e s = frame_step (e, s) (Payload b)"
proof (rule dispatch_refines)
  show "in_frame b 0 b" by (simp add: in_frame_def)
  show "unat (of_nat (length b) :: u16) = length b"
    using assms by (simp add: whole_frame_def unat_of_nat take_bit_nat_eq_self)
qed

text \<open>
  Framing is undone exactly: when payloads of at least one and less than 65536 bytes are written
  with their length prefixes one after the other, the parser dispatches these payloads in order, each
  as if it stood alone in memory, and consumes the whole file.
\<close>

lemma framed_payloads:
  assumes "list_all whole_frame ps"
  shows "let file = concat (map frame_bytes ps) in
    run le file (length file) e s =
      do { (e', s') \<leftarrow> exec_list (\<lambda>(e, s) b. dispatch (hd b) le b 0 (of_nat (length b)) e s) (e, s) ps;
           Some (length file, e', s') }"
proof -
  let ?file = "concat (map frame_bytes ps)"
  have ps: "\<And>b. b \<in> set ps \<Longrightarrow> length b < 2 ^ 16" "\<And>b. b \<in> set ps \<Longrightarrow> b \<noteq> []"
    using assms by (auto simp: list_all_iff whole_frame_def)
  have "frames ?file = map (\<lambda>b. if b = [] then Empty else Payload b) ps" using frames_concat [OF ps(1), where r = "[]"] by simp
  also have "\<dots> = map Payload ps" using ps(2) by (intro map_cong) simp_all
  finally have fr: "frames ?file = map Payload ps" .
  have "exec_list frame_step es (map Payload ps) =
      exec_list (\<lambda>(e, s) b. dispatch (hd b) le b 0 (of_nat (length b)) e s) es ps" for es
    using assms by (intro exec_list_map) (auto simp: dispatch_alone list_all_iff simp del: frame_step.simps)
  moreover have "frames_size (map Payload ps) = length ?file" by (induction ps) (simp_all add: frame_bytes_def)
  ultimately show ?thesis by (simp add: Let_def run_def run_from_refines fr)
qed

lemma framed_payloads_example:
  "run True (concat (map frame_bytes [[83], [1, 2]])) (length (concat (map frame_bytes [[83], [1, 2]])))
      (MatchingEngine_init 4 2) Stats_init =
    Some (7, MatchingEngine_init 4 2, on_parse_error (on_message 1 2 (on_truncated (on_message 83 1 Stats_init))))"
proof -
  have ps: "list_all whole_frame [[83], [1, 2]]" by (simp add: whole_frame_def)
  have len: "length (concat (map frame_bytes [[83], [1, 2]])) = 7" by (simp add: frame_bytes_def)
  have "whole_frame [83]" "whole_frame [1, 2]" by (simp_all add: whole_frame_def)
  note alone = this [THEN dispatch_alone, of True]
  have dec: "decode [83] = Short" "decode [1, 2] = Unknown"
    by (simp_all add: decode_def wire_payload_size_def kMsgMeta_def ascii_def)
  show ?thesis
    using framed_payloads [OF ps, of True "MatchingEngine_init 4 2" Stats_init] alone
    unfolding Let_def len by (simp add: dec numeral_2_eq_2)
qed

lemma events_concat:
  "(\<And>b. b \<in> set ps \<Longrightarrow> length b < 2 ^ 16) \<Longrightarrow>
   events (concat (map frame_bytes ps) @ r) =
     concat (map (\<lambda>b. frame_events (if b = [] then Empty else Payload b)) ps) @ events r"
  by (simp add: events_def frames_concat comp_def)

lemma frames_size_append [simp]: "frames_size (fs @ fs') = frames_size fs + frames_size fs'"
  by (induction fs) auto

text \<open>
  C16. A frame that carries no event (an empty one, one of an unknown type, or one too short for its
  type) does not disturb the rest of the file: with or without it, at any place between frames, the
  engine ends in the same state, and the parser consumes exactly the bytes of the frame more.
\<close>

theorem bad_frame_skipped:
  assumes "\<forall>b\<in>set ps. length b < 2 ^ 16" and "length b < 2 ^ 16" and "b = [] \<or> decode b \<in> {Unknown, Short, Info}"
  shows "let file = (\<lambda>bad. concat (map frame_bytes ps) @ bad @ r) in
    map_option (\<lambda>(n, e, s). (n, e)) (run le (file (frame_bytes b)) (length (file (frame_bytes b))) e s) =
    map_option (\<lambda>(n, e, s). (n + 2 + length b, e)) (run le (file []) (length (file [])) e s)"
proof -
  let ?pre = "concat (map frame_bytes ps)"
  have ps: "\<And>b. b \<in> set ps \<Longrightarrow> length b < 2 ^ 16" using assms(1) by blast
  have "events (frame_bytes b @ r) = events r"
    using assms(3) by (auto simp: events_def frames_frame_bytes [OF assms(2)])
  then have ev: "events (?pre @ frame_bytes b @ r) = events (?pre @ r)"
    by (simp add: events_concat [OF ps])
  have "frames_size (frames (frame_bytes b @ r)) = 2 + length b + frames_size (frames r)"
    by (simp add: frames_frame_bytes [OF assms(2)])
  then have "frames_size (frames (?pre @ frame_bytes b @ r)) = frames_size (frames (?pre @ r)) + 2 + length b"
    by (simp add: frames_concat [OF ps])
  with ev show ?thesis
    by (simp add: Let_def run_def run_from_refines frame_steps_split split: Option.bind_splits
      flip: events_def)
qed

section \<open>Feeds\<close>

text \<open>
  A file of framed, well-formed messages: those that carry an event, each with its own members that the
  event does not determine, and those of the ten types the engine does not handle, at least as long as
  their struct.
\<close>

datatype wire_message = Sent "string \<Rightarrow> byte list" event | Information "byte list"

fun wire_bytes :: "wire_message \<Rightarrow> byte list" where
  "wire_bytes (Sent free ev) = encode free ev"
| "wire_bytes (Information b) = b"

fun wire_events :: "wire_message \<Rightarrow> event list" where
  "wire_events (Sent free ev) = [ev]"
| "wire_events (Information b) = []"

fun wire_ok :: "wire_message \<Rightarrow> bool" where
  "wire_ok (Sent free ev) \<longleftrightarrow> wire_event ev"
| "wire_ok (Information b) \<longleftrightarrow>
     hd b \<in> set (map ascii ''SLVWKJhINO'') \<and> wire_payload_size (hd b) \<le> length b \<and> length b < 2 ^ 16"

definition feed :: "wire_message list \<Rightarrow> byte list" where
  "feed ms = concat (map frame_bytes (map wire_bytes ms))"

definition feed_events :: "wire_message list \<Rightarrow> event list" where
  "feed_events ms = concat (map wire_events ms)"

lemma decode_wire:
  assumes "wire_ok m"
  shows "decode (wire_bytes m) = (case m of Sent free ev \<Rightarrow> Ev ev | Information b \<Rightarrow> Info)"
    "wire_bytes m \<noteq> []" "length (wire_bytes m) < 2 ^ 16"
proof -
  have info: "wire_payload_size (hd b) \<noteq> 0 \<and> event_of (hd b) b = None" if "hd b \<in> set (map ascii ''SLVWKJhINO'')" for b
    using that by (auto simp: wire_payload_size_0 kMsgMeta_def event_of_def ascii_def)
  show "decode (wire_bytes m) = (case m of Sent free ev \<Rightarrow> Ev ev | Information b \<Rightarrow> Info)"
  proof (cases m)
    case (Sent free ev)
    then show ?thesis using assms decode_event_payload [of ev free "[]"] by simp
  next
    case (Information b)
    then show ?thesis using assms info [of b] by (simp add: decode_def Let_def)
  qed
  have "wire_bytes m \<noteq> [] \<and> length (wire_bytes m) < 2 ^ 16"
  proof (cases m)
    case (Sent free ev)
    then show ?thesis using encode_length(2) [of free ev] by auto
  next
    case (Information b)
    then show ?thesis using assms info [of b] by auto
  qed
  then show "wire_bytes m \<noteq> []" "length (wire_bytes m) < 2 ^ 16" by simp_all
qed

lemma frames_feed:
  assumes "list_all wire_ok ms"
  shows "frames (feed ms) = map (\<lambda>m. Payload (wire_bytes m)) ms"
proof -
  have ok: "wire_bytes m \<noteq> []" "length (wire_bytes m) < 2 ^ 16" if "m \<in> set ms" for m
    using assms decode_wire(2,3) that by (auto simp: list_all_iff)
  then have "\<And>b. b \<in> set (map wire_bytes ms) \<Longrightarrow> length b < 2 ^ 16" by auto
  from frames_concat [of "map wire_bytes ms" "[]", OF this] ok(1) show ?thesis by (simp add: feed_def)
qed

lemma events_feed:
  assumes "list_all wire_ok ms"
  shows "events (feed ms) = feed_events ms"
proof -
  have "frame_events (Payload (wire_bytes m)) = wire_events m" if "m \<in> set ms" for m
    using decode_wire(1) [of m] assms that by (cases m) (auto simp: list_all_iff)
  then have "map frame_events (map (\<lambda>m. Payload (wire_bytes m)) ms) = map wire_events ms" by simp
  then show ?thesis by (simp only: events_def frames_feed [OF assms] feed_events_def)
qed

lemma frames_size_feed:
  assumes "list_all wire_ok ms"
  shows "frames_size (frames (feed ms)) = length (feed ms)"
proof -
  have "frames_size (map (\<lambda>m. Payload (wire_bytes m)) ms) = length (feed ms)" for ms
    by (induction ms) (auto simp: feed_def frame_bytes_def)
  then show ?thesis by (simp add: frames_feed [OF assms])
qed

lemma feed_stats:
  assumes "list_all wire_ok ms"
  shows "let s' = foldl frame_stats s (frames (feed ms)) in parse_errors s' = parse_errors s \<and>
    truncated_messages s' = truncated_messages s \<and> total_messages s' = total_messages s + of_nat (length ms)"
proof -
  have "let s' = foldl frame_stats s (map (\<lambda>m. Payload (wire_bytes m)) ms) in parse_errors s' = parse_errors s \<and>
    truncated_messages s' = truncated_messages s \<and> total_messages s' = total_messages s + of_nat (length ms)"
    using assms
  proof (induction ms arbitrary: s)
    case (Cons m ms)
    have "frame_stats s (Payload (wire_bytes m)) = on_message (hd (wire_bytes m)) (of_nat (length (wire_bytes m))) s"
      using decode_wire(1) [of m] Cons.prems by (cases m) (simp_all add: Let_def)
    with Cons show ?case by (simp add: Let_def on_message_def)
  qed simp
  then show ?thesis by (simp only: frames_feed [OF assms])
qed

text \<open>
  C2. End to end: a file of framed, well-formed messages of all 23 types is parsed with a fresh engine.
  When the pools have less than \<open>2 ^ 32\<close> orders and \<open>2 ^ 64\<close> levels and the events of the file are
  admissible (no price is the sentinel \<open>0xFFFFFFFF\<close>, and no order goes to a side that has 8192 price
  levels), the parser consumes the whole file, counts every message and no error, and leaves in
  every book exactly the orders of the abstract price-time queues that the events describe, the bids
  before the asks, and in the counters and the reference data what the specification records of them.
\<close>

theorem feed_end_to_end:
  assumes caps: "oc < 2 ^ 32" "lc < 2 ^ 64" and wire: "list_all wire_ok ms"
    and ok: "all_admissible (spec_step oc lc) event_ok no_orders (feed_events ms)"
  shows "\<exists>e s'. run le (feed ms) (length (feed ms)) (MatchingEngine_init oc lc) (reset_stats now s) =
      Some (length (feed ms), e, s') \<and>
    (let V = foldl (spec_step oc lc) no_orders (feed_events ms) in \<forall>loc. observe e loc = Some (V loc Buy @ V loc Sell)) \<and>
    ledger e = snd (foldl (feed_step oc lc) fresh (feed_events ms)) \<and>
    parse_errors s' = 0 \<and> truncated_messages s' = 0 \<and> total_messages s' = of_nat (length ms)"
proof -
  have "all_admissible (spec_step oc lc) event_ok (fst fresh) (feed_events ms)" using ok by (simp add: fresh_def)
  from records_run [OF records_init [OF caps] this] obtain e where
    e: "exec_list engine_step (MatchingEngine_init oc lc) (feed_events ms) = Some e"
    "refines oc lc e (foldl (spec_step oc lc) no_orders (feed_events ms))"
    "ledger e = snd (foldl (feed_step oc lc) fresh (feed_events ms))"
    by (auto simp: records_def fst_feed fresh_def)
  let ?s = "foldl frame_stats (reset_stats now s) (frames (feed ms))"
  have run: "run le (feed ms) (length (feed ms)) (MatchingEngine_init oc lc) (reset_stats now s) =
      Some (length (feed ms), e, ?s)"
    using e(1) events_feed [OF wire] frames_size_feed [OF wire]
    by (simp add: run_def run_from_refines frame_steps_split flip: events_def)
  have "parse_errors ?s = 0 \<and> truncated_messages ?s = 0 \<and> total_messages ?s = of_nat (length ms)"
    using feed_stats [OF wire, of "reset_stats now s"] by (simp add: Let_def reset_stats_def)
  with run refines_observe [OF e(2)] e(3) show ?thesis by (simp add: Let_def)
qed

section \<open>Applications\<close>

definition demo_wire :: "OrderReferenceNumber \<Rightarrow> Price \<Rightarrow> wire_message" where
  "demo_wire oid px = Sent (\<lambda>_. []) (AddOrder 7 oid BuyOrder 10 px 0 empty_mpid False)"

definition demo_system :: wire_message where
  "demo_system = Information (ascii CHR ''S'' # replicate 11 0)"

lemma demo_wire_sel [simp]:
  "wire_events (demo_wire oid px) = [AddOrder 7 oid BuyOrder 10 px 0 empty_mpid False]" "wire_ok (demo_wire oid px)"
  "wire_events demo_system = []" "wire_ok demo_system"
  by (simp_all add: demo_wire_def demo_system_def payload_sizes)

lemma demo_wire_event [simp]:
  "spec_step oc lc V (AddOrder 7 oid BuyOrder 10 px 0 empty_mpid False) = spec_step oc lc V (demo_add oid px)"
  "event_ok V (AddOrder 7 oid BuyOrder 10 px 0 empty_mpid False) = event_ok V (demo_add oid px)"
  by (simp_all add: demo_add_def)

lemma demo_wire_run:
  "list_all wire_ok [demo_wire 1 100, demo_wire 2 101]"
  "all_admissible (spec_step 4 2) event_ok no_orders (feed_events [demo_wire 1 100, demo_wire 2 101])"
  "foldl (spec_step 4 2) no_orders (feed_events [demo_wire 1 100, demo_wire 2 101]) =
     demo_view [demo_entry 2 101, demo_entry 1 100]"
  "feed_events [demo_wire 1 100, demo_system, demo_wire 2 101] = feed_events [demo_wire 1 100, demo_wire 2 101]"
  unfolding demo_view_empty
  by (simp_all add: q_prices_def q_add_def better_def feed_events_def del: spec_step.simps event_ok.simps)

theorem feed_end_to_end_witness:
  "\<exists>e s'. run True (feed [demo_wire 1 100, demo_system, demo_wire 2 101])
      (length (feed [demo_wire 1 100, demo_system, demo_wire 2 101])) (MatchingEngine_init 4 2) (reset_stats 0 Stats_init) =
      Some (length (feed [demo_wire 1 100, demo_system, demo_wire 2 101]), e, s') \<and>
    observe e 7 = Some [demo_entry 2 101, demo_entry 1 100] \<and> total_messages s' = 3"
proof -
  have c: "(4::nat) < 2 ^ 32" "(2::nat) < 2 ^ 64" "list_all wire_ok [demo_wire 1 100, demo_system, demo_wire 2 101]" by simp_all
  from feed_end_to_end [OF c, unfolded demo_wire_run(4), OF demo_wire_run(2), of True 0 Stats_init] show ?thesis
    unfolding demo_wire_run(3) Let_def by fastforce
qed

theorem parser_total_witness:
  "\<exists>n e s'. run True (feed [demo_wire 1 100, demo_wire 2 101]) (length (feed [demo_wire 1 100, demo_wire 2 101]))
      (MatchingEngine_init 4 2) Stats_init = Some (n, e, s') \<and> refines 4 2 e (demo_view [demo_entry 2 101, demo_entry 1 100])"
proof -
  have c: "(4::nat) < 2 ^ 32" "(2::nat) < 2 ^ 64" by simp_all
  have ev: "events (feed [demo_wire 1 100, demo_wire 2 101]) = feed_events [demo_wire 1 100, demo_wire 2 101]"
    by (rule events_feed [OF demo_wire_run(1)])
  from parser_total [OF c, where buf = "feed [demo_wire 1 100, demo_wire 2 101]"] demo_wire_run(2,3)
  show ?thesis unfolding ev by metis
qed

text \<open>A message of an unknown type and an empty frame.\<close>

definition demo_file :: "byte list" where
  "demo_file = frame_bytes [90] @ [0, 0]"

lemma demo_file_frames: "frame_bytes [90] = [0, 1, 90]" "frames demo_file = [Payload [90], Empty]" "decode [90] = Unknown"
proof -
  show "frame_bytes [90] = [0, 1, 90]" by (simp add: frame_bytes_def to_be_def numeral_2_eq_2 byte_of_def)
  then show "frames demo_file = [Payload [90], Empty]" by (simp add: demo_file_def be_val_def)
  show "decode [90] = Unknown" by (simp add: decode_def wire_payload_size_def kMsgMeta_def ascii_def)
qed

theorem parser_counters_exact_witness:
  "\<exists>n e' s'. run True demo_file (length demo_file) (MatchingEngine_init 4 2) (reset_stats 0 Stats_init) = Some (n, e', s') \<and>
     unat (total_messages s') = 1 \<and> unat (parse_errors s') = 2 \<and> n = 5"
proof -
  let ?s = "foldl frame_stats (reset_stats 0 Stats_init) (frames demo_file)"
  have run: "run True demo_file (length demo_file) (MatchingEngine_init 4 2) (reset_stats 0 Stats_init) =
      Some (5, MatchingEngine_init 4 2, ?s)"
    by (simp add: run_def run_from_refines frame_steps_split demo_file_frames)
  have "length demo_file < 2 ^ 64" by (simp add: demo_file_def demo_file_frames)
  from parser_counters_exact [OF this run] run show ?thesis by (auto simp: demo_file_frames Let_def)
qed

theorem bad_frame_skipped_witness:
  "map_option (\<lambda>(n, e, s). (n, e)) (run True demo_file (length demo_file) (MatchingEngine_init 4 2) Stats_init) =
   map_option (\<lambda>(n, e, s). (n + 2 + 1, e)) (run True [0, 0] 2 (MatchingEngine_init 4 2) Stats_init)"
proof -
  have two: "length [0, 0 :: byte] = 2" by simp
  show ?thesis
    using bad_frame_skipped [of "[]" "[90]" "[0, 0]" True "MatchingEngine_init 4 2" Stats_init]
    unfolding Let_def list.map concat.simps append.simps two demo_file_def [symmetric]
    by (simp add: demo_file_frames(3))
qed

end
