(* ===== verification/Ledger_Properties.thy ===== *)
theory Ledger_Properties
  imports Engine_Properties
begin

text \<open>
  The properties of the engine's ledger: after every admissible feed the counters and the reference data
  are those of the specification, and the counters account for every event of the feed.
\<close>

section \<open>Exact counters and reference data\<close>

lemma raise_peaks_sel [simp]:
  "st_add_orders (raise_peaks V s) = st_add_orders s" "st_add_orders_with_mpid (raise_peaks V s) = st_add_orders_with_mpid s"
  "st_order_executed (raise_peaks V s) = st_order_executed s"
  "st_order_executed_with_price (raise_peaks V s) = st_order_executed_with_price s"
  "st_order_cancel (raise_peaks V s) = st_order_cancel s" "st_order_delete (raise_peaks V s) = st_order_delete s"
  "st_order_replace (raise_peaks V s) = st_order_replace s" "st_non_cross_trades (raise_peaks V s) = st_non_cross_trades s"
  "st_cross_trades (raise_peaks V s) = st_cross_trades s" "st_broken_trades (raise_peaks V s) = st_broken_trades s"
  "st_instruments_registered (raise_peaks V s) = st_instruments_registered s"
  "st_add_rejected_pool_exhausted (raise_peaks V s) = st_add_rejected_pool_exhausted s"
  "st_add_rejected_level_pool_exhausted (raise_peaks V s) = st_add_rejected_level_pool_exhausted s"
  "st_replace_rejected_pool_exhausted (raise_peaks V s) = st_replace_rejected_pool_exhausted s"
  "st_duplicate_adds (raise_peaks V s) = st_duplicate_adds s" "st_locate_mismatches (raise_peaks V s) = st_locate_mismatches s"
  "st_level_missing (raise_peaks V s) = st_level_missing s" "st_unknown_order_events (raise_peaks V s) = st_unknown_order_events s"
  "st_pool_exhausted (raise_peaks V s) = st_pool_exhausted s"
  "st_peak_live_orders (raise_peaks V s) = max (st_peak_live_orders s) (of_nat (length (v_all V)))"
  "st_peak_live_levels (raise_peaks V s) = max (st_peak_live_levels s) (of_nat (v_levels V))"
  by (simp_all add: raise_peaks_def)

lemma counters_sel [simp]:
  "st_add_orders (counters s) = st_add_orders s" "st_add_orders_with_mpid (counters s) = st_add_orders_with_mpid s"
  "st_order_executed (counters s) = st_order_executed s"
  "st_order_executed_with_price (counters s) = st_order_executed_with_price s"
  "st_order_cancel (counters s) = st_order_cancel s" "st_order_delete (counters s) = st_order_delete s"
  "st_order_replace (counters s) = st_order_replace s" "st_non_cross_trades (counters s) = st_non_cross_trades s"
  "st_cross_trades (counters s) = st_cross_trades s" "st_broken_trades (counters s) = st_broken_trades s"
  "st_instruments_registered (counters s) = st_instruments_registered s"
  "st_add_rejected_pool_exhausted (counters s) = st_add_rejected_pool_exhausted s"
  "st_add_rejected_level_pool_exhausted (counters s) = st_add_rejected_level_pool_exhausted s"
  "st_replace_rejected_pool_exhausted (counters s) = st_replace_rejected_pool_exhausted s"
  "st_duplicate_adds (counters s) = st_duplicate_adds s" "st_locate_mismatches (counters s) = st_locate_mismatches s"
  "st_level_missing (counters s) = st_level_missing s" "st_unknown_order_events (counters s) = st_unknown_order_events s"
  "st_pool_exhausted (counters s) = st_pool_exhausted s" "st_peak_live_orders (counters s) = st_peak_live_orders s"
  "st_peak_live_levels (counters s) = st_peak_live_levels s"
  by (simp_all add: counters_def)

lemma recordsD:
  assumes "records oc lc e (V, s, R)"
  shows "refines oc lc e V" "counters (me_stats e) = s" "ref_data e = R"
  using assms by (simp_all add: records_def ledger_def)

text \<open>
  C4. After every admissible feed all counters of the engine and the reference data of every instrument
  are the ones the specification computes from the queues before each event: which counter an event
  bumps on every branch (accepted, unknown, duplicate, order pool or level pool exhausted, with or without a
  locate mismatch), the peaks of the live orders and levels, and the last directory, trading and
  short-sale message of each locate.
\<close>

theorem engine_ledger_exact:
  assumes "oc < 2 ^ 32" "lc < 2 ^ 64" "all_admissible (spec_step oc lc) event_ok no_orders es"
  shows "\<exists>e. exec_list engine_step (MatchingEngine_init oc lc) es = Some e \<and>
    (counters (me_stats e), ref_data e) = snd (foldl (feed_step oc lc) fresh es)"
proof -
  have "fst fresh = no_orders" by (simp add: fresh_def)
  with records_run [OF records_init [OF assms(1,2)]] assms(3) show ?thesis by (auto simp: records_def ledger_def)
qed

lemma demo_ledger_add:
  "count_event oc lc V R (demo_add oid px) s = count_add oc lc (demo_entry oid px) False V s"
  "ref_event V (demo_add oid px) R = (if v_find V oid = None then R(7 := Some (ref_get 7 R)) else R)"
  by (simp_all add: demo_add_def to_side_enumerators flip: demo_entry_def)

theorem engine_ledger_exact_witness:
  "\<exists>e. exec_list engine_step (MatchingEngine_init 4 2)
      [demo_add 1 100, demo_add 1 101, OrderExecuted 8 1 4, OrderDelete 7 9, OrderDelete 7 1] = Some e \<and>
    st_add_orders (me_stats e) = 1 \<and> st_duplicate_adds (me_stats e) = 1 \<and> st_unknown_order_events (me_stats e) = 2 \<and>
    st_locate_mismatches (me_stats e) = 1 \<and> st_peak_live_orders (me_stats e) = 1 \<and> in_locate (the (ref_data e 7)) = 7"
proof -
  let ?es = "[demo_add 1 100, demo_add 1 101, OrderExecuted 8 1 4, OrderDelete 7 9, OrderDelete 7 1]"
  have fill: "q_fill 1 4 [demo_entry 1 100] = [(demo_entry 1 100)\<lparr>o_shares_remaining := 6\<rparr>]"
    "q_add (demo_entry 1 100) [] = [demo_entry 1 100]" by (simp_all add: q_fill_def fill1_def q_add_def)
  have ok: "all_admissible (spec_step 4 2) event_ok no_orders ?es"
    unfolding demo_view_empty by (simp add: q_prices_def fill)
  define a where "a = foldl (feed_step 4 2) fresh ?es"
  have known: "o_locate ((demo_entry 1 100)\<lparr>o_shares_remaining := n\<rparr>) = 7"
    "o_order_id ((demo_entry 1 100)\<lparr>o_shares_remaining := n\<rparr>) = 1" for n by (simp_all add: demo_entry_def Order_init_def)
  have a: "st_add_orders (fst (snd a)) = 1 \<and> st_duplicate_adds (fst (snd a)) = 1 \<and> st_unknown_order_events (fst (snd a)) = 2 \<and>
    st_locate_mismatches (fst (snd a)) = 1 \<and> st_peak_live_orders (fst (snd a)) = 1 \<and> in_locate (the (snd (snd a) 7)) = 7"
    unfolding a_def fresh_def demo_view_empty
    by (simp add: demo_ledger_add fill known q_prices_def count_known_def ref_get_def EngineStats_init_def Instrument_init_def
        inc_unknown_def inc_duplicate_def inc_mismatch_def q_remove_def count_add_def no_level_for_def)
  from engine_ledger_exact [OF _ _ ok] obtain e where e: "exec_list engine_step (MatchingEngine_init 4 2) ?es = Some e"
    "counters (me_stats e) = fst (snd a)" "ref_data e = snd (snd a)" unfolding a_def by (auto simp: prod_eq_iff)
  from a show ?thesis using e(1) unfolding e(2,3) [symmetric] by auto
qed

section \<open>Pools, index, live counters and peaks\<close>

definition peak :: "(view \<Rightarrow> nat) \<Rightarrow> nat \<Rightarrow> nat \<Rightarrow> event list \<Rightarrow> nat" where
  "peak f oc lc es = Max ((\<lambda>k. f (foldl (spec_step oc lc) no_orders (take k es))) ` {..length es})"

lemma peak_Nil [simp]: "peak f oc lc [] = f no_orders"
  by (simp add: peak_def)

lemma peak_snoc: "peak f oc lc (es @ [ev]) = max (peak f oc lc es) (f (foldl (spec_step oc lc) no_orders (es @ [ev])))"
proof -
  let ?g = "\<lambda>es k. f (foldl (spec_step oc lc) no_orders (take k es))"
  have "?g (es @ [ev]) ` {..length (es @ [ev])} = insert (?g (es @ [ev]) (Suc (length es))) (?g es ` {..length es})"
    by (auto simp: atMost_Suc image_iff)
  then show ?thesis by (simp add: peak_def max.commute)
qed

lemma peak_ge: "f (foldl (spec_step oc lc) no_orders es) \<le> peak f oc lc es"
  unfolding peak_def by (rule Max_ge) (auto intro: image_eqI [of _ _ "length es"])

lemma count_event_peaks [simp]:
  "st_peak_live_orders (count_event oc lc V R ev s) = st_peak_live_orders s"
  "st_peak_live_levels (count_event oc lc V R ev s) = st_peak_live_levels s"
  by (cases ev; simp add: count_add_def count_known_def count_replace_def inc_unknown_def inc_duplicate_def inc_mismatch_def
      inc_pool_exhausted_def inc_level_pool_exhausted_def split: option.splits)+

lemma max_of_nat64:
  assumes "a < 2 ^ 64" "b < 2 ^ 64"
  shows "max (of_nat a) (of_nat b) = (of_nat (max a b) :: u64)"
  using assms by (simp add: max_def word_le_nat_alt unat_of_nat64)

lemma v_sizes_empty: "length (v_all no_orders) = 0" "v_levels no_orders = 0"
  by (simp_all add: length_v_all v_levels_sum q_prices_def)

lemma feed_sizes:
  assumes "oc < 2 ^ 32" "lc < 2 ^ 64" "all_admissible (spec_step oc lc) event_ok no_orders es"
  shows "length (v_all (foldl (spec_step oc lc) no_orders es)) \<le> oc" "v_levels (foldl (spec_step oc lc) no_orders es) \<le> lc"
  using engine.run_sim [OF refines_init [OF assms(1,2)] assms(3)] refines_resources(8,9) by blast+

lemma feed_peaks:
  assumes "oc < 2 ^ 32" "lc < 2 ^ 64" "all_admissible (spec_step oc lc) event_ok no_orders es"
  shows "unat (st_peak_live_orders (fst (snd (foldl (feed_step oc lc) fresh es)))) = peak (\<lambda>V. length (v_all V)) oc lc es"
    "unat (st_peak_live_levels (fst (snd (foldl (feed_step oc lc) fresh es)))) = peak v_levels oc lc es"
proof -
  have "peak (\<lambda>V. length (v_all V)) oc lc es \<le> oc \<and> peak v_levels oc lc es \<le> lc \<and>
    st_peak_live_orders (fst (snd (foldl (feed_step oc lc) fresh es))) = of_nat (peak (\<lambda>V. length (v_all V)) oc lc es) \<and>
    st_peak_live_levels (fst (snd (foldl (feed_step oc lc) fresh es))) = of_nat (peak v_levels oc lc es)"
    using assms(3)
  proof (induction es rule: rev_induct)
    case Nil
    then show ?case by (simp add: v_sizes_empty fresh_def EngineStats_init_def)
  next
    case (snoc ev es)
    then have IH: "peak (\<lambda>V. length (v_all V)) oc lc es \<le> oc" "peak v_levels oc lc es \<le> lc"
      "st_peak_live_orders (fst (snd (foldl (feed_step oc lc) fresh es))) = of_nat (peak (\<lambda>V. length (v_all V)) oc lc es)"
      "st_peak_live_levels (fst (snd (foldl (feed_step oc lc) fresh es))) = of_nat (peak v_levels oc lc es)"
      by (auto simp: all_admissible_append)
    note sizes = feed_sizes [OF assms(1,2) snoc.prems]
    obtain V s R where a: "foldl (feed_step oc lc) fresh es = (V, s, R)" by (metis prod_cases3)
    have V: "foldl (spec_step oc lc) no_orders es = V" using a fst_feed [of oc lc fresh es] by (simp add: fresh_def)
    have "oc < 2 ^ 64" using assms(1) by simp
    then show ?case
      using IH sizes assms(2) by (simp add: a V peak_snoc max_of_nat64)
  qed
  moreover have "oc < 2 ^ 64" using assms(1) by simp
  ultimately show "unat (st_peak_live_orders (fst (snd (foldl (feed_step oc lc) fresh es)))) = peak (\<lambda>V. length (v_all V)) oc lc es"
    "unat (st_peak_live_levels (fst (snd (foldl (feed_step oc lc) fresh es)))) = peak v_levels oc lc es"
    using assms(2) by (simp_all add: unat_of_nat64)
qed

text \<open>
  C7. After every admissible feed the order pool, the level pool, the order index and the live
  counters agree exactly with the orders and levels in the books: nothing leaks and nothing is
  released twice. The peak counters are the largest numbers of orders and levels there were between events.
\<close>

theorem engine_resources_exact:
  assumes "oc < 2 ^ 32" "lc < 2 ^ 64" "all_admissible (spec_step oc lc) event_ok no_orders es"
  shows "\<exists>e. exec_list engine_step (MatchingEngine_init oc lc) es = Some e \<and>
    (let V = foldl (spec_step oc lc) no_orders es; n = length (v_all V); m = v_levels V; s = me_stats e
     in n \<le> oc \<and> m \<le> lc \<and> order_pool_free e = Some (of_nat (oc - n)) \<and> level_pool_free e = Some (of_nat (lc - m)) \<and>
        order_index_size e = of_nat n \<and> st_live_orders s = of_nat n \<and> st_live_levels s = of_nat m \<and>
        unat (st_peak_live_orders s) = peak (\<lambda>V. length (v_all V)) oc lc es \<and> unat (st_peak_live_levels s) = peak v_levels oc lc es)"
proof -
  have adm: "all_admissible (spec_step oc lc) event_ok (fst fresh) es" using assms(3) by (simp add: fresh_def)
  from records_run [OF records_init [OF assms(1,2)] adm] obtain e where
    e: "exec_list engine_step (MatchingEngine_init oc lc) es = Some e" "records oc lc e (foldl (feed_step oc lc) fresh es)" by blast
  then have "refines oc lc e (foldl (spec_step oc lc) no_orders es)" by (simp add: records_def fst_feed fresh_def)
  note r = refines_resources [OF this]
  have "fst (snd (foldl (feed_step oc lc) fresh es)) = counters (me_stats e)"
    using e(2) unfolding records_def ledger_def by (metis fst_conv)
  then have "unat (st_peak_live_orders (me_stats e)) = peak (\<lambda>V. length (v_all V)) oc lc es"
    "unat (st_peak_live_levels (me_stats e)) = peak v_levels oc lc es"
    using feed_peaks [OF assms] by simp_all
  with e(1) r show ?thesis unfolding Let_def by blast
qed

theorem engine_resources_exact_witness:
  "\<exists>e. exec_list engine_step (MatchingEngine_init 4 2) [demo_add 1 100, demo_add 2 100, OrderDelete 7 1] = Some e \<and>
     order_pool_free e = Some 3 \<and> level_pool_free e = Some 1 \<and> order_index_size e = 1"
proof -
  let ?es = "[demo_add 1 100, demo_add 2 100, OrderDelete 7 1]"
  have q: "q_add (demo_entry 2 100) [demo_entry 1 100] = [demo_entry 1 100, demo_entry 2 100]"
    "q_remove 1 [demo_entry 1 100, demo_entry 2 100] = [demo_entry 2 100]" "q_add (demo_entry 1 100) [] = [demo_entry 1 100]"
    by (simp_all add: q_add_def better_def q_remove_def)
  have ok: "all_admissible (spec_step 4 2) event_ok no_orders ?es"
    unfolding demo_view_empty by (simp add: q_prices_def q)
  have spec: "foldl (spec_step 4 2) no_orders ?es = demo_view [demo_entry 2 100]"
    unfolding demo_view_empty by (simp add: q_prices_def q)
  from engine_resources_exact [OF _ _ ok] obtain e where
    "exec_list engine_step (MatchingEngine_init 4 2) ?es = Some e"
    "order_pool_free e = Some (of_nat (4 - 1))" "level_pool_free e = Some (of_nat (2 - 1))" "order_index_size e = of_nat 1"
    unfolding spec Let_def by (auto simp: q_prices_def)
  then show ?thesis by simp
qed

section \<open>Every event is counted once\<close>

definition accepted_events :: "EngineStats \<Rightarrow> u64" where
  "accepted_events s = st_add_orders s + st_add_orders_with_mpid s + st_order_executed s + st_order_executed_with_price s +
     st_order_cancel s + st_order_delete s + st_order_replace s + st_non_cross_trades s + st_cross_trades s + st_broken_trades s"

definition rejected_events :: "EngineStats \<Rightarrow> u64" where
  "rejected_events s = st_add_rejected_pool_exhausted s + st_add_rejected_level_pool_exhausted s +
     st_replace_rejected_pool_exhausted s"

fun about_instrument :: "event \<Rightarrow> bool" where
  "about_instrument (StockDirectory loc symbol mc fsi rls rlo auth ssti ipo luld etp elf invi) \<longleftrightarrow> True"
| "about_instrument (TradingAction loc state) \<longleftrightarrow> True"
| "about_instrument (RegSHO loc action) \<longleftrightarrow> True"
| "about_instrument _ \<longleftrightarrow> False"

lemma count_event_accounts:
  fixes oc lc V R ev s
  defines "c \<equiv> count_event oc lc V R ev s"
  shows "accepted_events c + rejected_events c + st_unknown_order_events c =
      accepted_events s + rejected_events s + st_unknown_order_events s + (if about_instrument ev then 0 else 1)"
    "st_pool_exhausted c - rejected_events c = st_pool_exhausted s - rejected_events s" "st_level_missing c = st_level_missing s"
  unfolding c_def accepted_events_def rejected_events_def
  by (cases ev; simp add: count_add_def count_known_def count_replace_def inc_unknown_def inc_duplicate_def inc_mismatch_def
      inc_pool_exhausted_def inc_level_pool_exhausted_def split: option.splits)+

text \<open>
  C9. The counters account for the feed: every event that is not reference data is counted exactly once,
  as accepted, as rejected for want of a slot, or as unknown (where the code also puts duplicate adds); the total of
  exhausted pools is the sum of the three rejections; and no level is ever missing.
\<close>

theorem events_accounted:
  assumes "oc < 2 ^ 32" "lc < 2 ^ 64" "all_admissible (spec_step oc lc) event_ok no_orders es"
  shows "\<exists>e. exec_list engine_step (MatchingEngine_init oc lc) es = Some e \<and>
    (let s = me_stats e in
      accepted_events s + rejected_events s + st_unknown_order_events s = of_nat (length (filter (Not \<circ> about_instrument) es)) \<and>
      st_pool_exhausted s = rejected_events s \<and> st_level_missing s = 0)"
proof -
  have fold: "accepted_events c + rejected_events c + st_unknown_order_events c =
      accepted_events s + rejected_events s + st_unknown_order_events s + of_nat (length (filter (Not \<circ> about_instrument) es)) \<and>
    st_pool_exhausted c - rejected_events c = st_pool_exhausted s - rejected_events s \<and> st_level_missing c = st_level_missing s"
    if "foldl (feed_step oc lc) (V, s, R) es = (V', c, R')" for V s R V' c R'
    using that
  proof (induction es arbitrary: V s R)
    case (Cons ev es)
    have peaks: "accepted_events (raise_peaks W t) = accepted_events t" "rejected_events (raise_peaks W t) = rejected_events t" for W t
      by (simp_all add: accepted_events_def rejected_events_def)
    from Cons.IH [OF Cons.prems [unfolded foldl_Cons feed_step.simps]] show ?case by (auto simp: peaks count_event_accounts)
  qed simp
  have adm: "all_admissible (spec_step oc lc) event_ok (fst fresh) es" using assms(3) by (simp add: fresh_def)
  from records_run [OF records_init [OF assms(1,2)] adm] obtain e where
    e: "exec_list engine_step (MatchingEngine_init oc lc) es = Some e" "records oc lc e (foldl (feed_step oc lc) fresh es)" by blast
  then have "foldl (feed_step oc lc) (no_orders, EngineStats_init, \<lambda>_. None) es =
      (foldl (spec_step oc lc) no_orders es, counters (me_stats e), ref_data e)"
    using fst_feed [of oc lc fresh es] by (auto simp: records_def ledger_def fresh_def prod_eq_iff)
  from fold [OF this] e(1) show ?thesis
    by (auto simp: accepted_events_def rejected_events_def EngineStats_init_def)
qed

theorem events_accounted_witness:
  "\<exists>e. exec_list engine_step (MatchingEngine_init 4 2) [demo_add 1 100, demo_add 1 101, OrderDelete 7 9] = Some e \<and>
    accepted_events (me_stats e) + rejected_events (me_stats e) + st_unknown_order_events (me_stats e) = 3"
proof -
  have ok: "all_admissible (spec_step 4 2) event_ok no_orders [demo_add 1 100, demo_add 1 101, OrderDelete 7 9]"
    unfolding demo_view_empty by (simp add: q_prices_def q_add_def)
  from events_accounted [OF _ _ ok] show ?thesis by (simp add: demo_add_def Let_def) blast
qed

text \<open>
  The counter of registered instruments counts the directory messages that create an instrument: an add for the
  same locate that comes first creates it uncounted.
\<close>

lemma early_add_not_registered:
  assumes "R loc \<noteq> None"
  shows "count_event oc lc V R (StockDirectory loc symbol mc fsi rls rlo auth ssti ipo luld etp elf invi) s = s"
    "v_find V oid = None \<Longrightarrow> ref_event V (AddOrder loc oid bsi qty px ts mpid attributed) R' loc \<noteq> None"
  using assms by simp_all

end
