(* ===== verification/Report_Properties.thy ===== *)
theory Report_Properties
  imports Ledger_Properties Engine_Report Book_Properties
begin

text \<open>
  What the engine report says of an engine that implements given queues and keeps a given ledger: the
  quote and the symbol of every row of the sample, the verdict of the pool check, and the values.
\<close>

section \<open>Quotes and rows\<close>

definition side_quote :: "Order list \<Rightarrow> Price \<times> u64" where
  "side_quote q = (case q of [] \<Rightarrow> (0, 0)
     | y # _ \<Rightarrow> (o_price_cents y,
         of_nat (\<Sum>z\<leftarrow>filter (\<lambda>z. o_price_cents z = o_price_cents y) q. unat (o_shares_remaining z))))"

definition view_quote :: "view \<Rightarrow> StockLocate \<Rightarrow> quote" where
  "view_quote V loc = (fst (side_quote (V loc Buy)), snd (side_quote (V loc Buy)), fst (side_quote (V loc Sell)),
     snd (side_quote (V loc Sell)), of_nat (length (V loc Buy) + length (V loc Sell)))"

text \<open>A row of the sample: the symbol of the last directory message for the locate, and its quote.\<close>

definition row_of :: "view \<times> ledger \<Rightarrow> StockLocate \<Rightarrow> byte list \<times> quote" where
  "row_of a loc = (case snd (snd a) loc of None \<Rightarrow> [] | Some inst \<Rightarrow> sample_symbol inst, view_quote (fst a) loc)"

definition live_locates :: "view \<Rightarrow> StockLocate list" where
  "live_locates V = filter (\<lambda>loc. V loc Buy @ V loc Sell \<noteq> []) (map of_nat [0..<kMaxInstruments])"

lemma best_side_quote:
  assumes "book_rep ar b G" "mp_capacity (ar_orders ar) < 2 ^ 32"
  shows "best_price ar (best s b) = Some (fst (side_quote (book_view ar G s)))"
    "best_shares ar (best s b) = Some (snd (side_quote (book_view ar G s)))"
proof -
  obtain p n where q: "best_price ar (best s b) = Some p" "best_shares ar (best s b) = Some n"
    "case book_view ar G s of [] \<Rightarrow> p = 0 \<and> n = 0
      | y # _ \<Rightarrow> p = o_price_cents y \<and> unat n =
          (\<Sum>z\<leftarrow>filter (\<lambda>z. o_price_cents z = p) (book_view ar G s). unat (o_shares_remaining z))"
    using best_query [OF assms, of s] by blast
  have "(p, n) = side_quote (book_view ar G s)"
  proof (cases "book_view ar G s")
    case (Cons y r)
    let ?sum = "\<Sum>z\<leftarrow>filter (\<lambda>z. o_price_cents z = o_price_cents y) (book_view ar G s). unat (o_shares_remaining z)"
    have p: "p = o_price_cents y" and n: "unat n = ?sum" using q(3) by (auto simp: Cons)
    have "side_quote (book_view ar G s) = (o_price_cents y, of_nat ?sum)" by (simp add: side_quote_def Cons)
    then show ?thesis unfolding p n [symmetric] by simp
  qed (use q(3) in \<open>simp add: side_quote_def\<close>)
  then show "best_price ar (best s b) = Some (fst (side_quote (book_view ar G s)))"
    "best_shares ar (best s b) = Some (snd (side_quote (book_view ar G s)))"
    using q by (metis fst_conv snd_conv)+
qed

lemma length_view_le: "length (V loc Buy) + length (V loc Sell) \<le> length (v_all V)"
  unfolding length_v_all by (rule member_le_sum [of loc UNIV "\<lambda>l. length (V l Buy) + length (V l Sell)"]) auto

lemma refines_quote:
  assumes "refines oc lc e V" "oc < 2 ^ 32" "book_at e loc = Some b"
  shows "quote_of b (me_arena e) = Some (view_quote V loc)"
    "live_orders b = 0 \<longleftrightarrow> V loc Buy @ V loc Sell = []"
proof -
  from refinesD(1) [OF assms(1)] obtain G where G: "engine_rep e G" "engine_view e G = V" by blast
  note mid = engine_repD [OF G(1)]
  have rep: "book_rep (me_arena e) b (G loc)" using midD(1) [OF mid] assms(3) by (rule books_okD(1))
  have V: "book_view (me_arena e) (G loc) s = V loc s" for s using G(2) by (auto simp: engine_view_def)
  have cap: "mp_capacity (ar_orders (me_arena e)) < 2 ^ 32" using refinesD(3) [OF assms(1)] assms(2) by simp
  have len: "length (orders_of (G loc s)) = length (V loc s)" for s
    using V [of s] by (metis book_view_def length_map)
  have live: "live_orders b = of_nat (length (V loc Buy) + length (V loc Sell))"
    using rep by (simp add: live_orders_def book_rep_def len)
  show "quote_of b (me_arena e) = Some (view_quote V loc)"
    using best_side_quote [OF rep cap, of Buy] best_side_quote [OF rep cap, of Sell] live
    unfolding V best_sides
    by (simp add: quote_of_def best_bid_price_def best_bid_shares_def best_ask_price_def best_ask_shares_def view_quote_def)
  have "length (V loc Buy) + length (V loc Sell) < 2 ^ 64"
    using length_view_le [of V loc] refines_resources(8) [OF assms(1)] assms(2) by simp
  then have "unat (live_orders b) = length (V loc Buy) + length (V loc Sell)"
    unfolding live by (simp only: unat_of_nat) simp
  then show "live_orders b = 0 \<longleftrightarrow> V loc Buy @ V loc Sell = []" by (auto simp: unat_eq_zero)
qed

lemma refines_no_book:
  assumes "refines oc lc e V" "book_at e loc = None"
  shows "V loc Buy @ V loc Sell = []"
proof -
  from refinesD(1) [OF assms(1)] obtain G where G: "engine_rep e G" "engine_view e G = V" by blast
  have "G loc = (\<lambda>_. [])" using midD(1) [OF engine_repD [OF G(1)]] assms(2) by (rule books_okD(2))
  with G(2) show ?thesis by (auto simp: engine_view_def book_view_def orders_of_def)
qed

lemma records_sample:
  assumes rec: "records oc lc e a" and cap: "oc < 2 ^ 32"
  shows "sample_rows (me_arena e) shown (List.map_filter (\<lambda>n. im_slots (me_instruments e) (of_nat n)) ns) =
    Some (map (row_of a) (take (10 - shown) (filter (\<lambda>loc. fst a loc Buy @ fst a loc Sell \<noteq> []) (map of_nat ns))))"
proof (induction ns arbitrary: shown)
  case Nil
  then show ?case by (simp add: map_filter_simps)
next
  case (Cons n ns)
  have ref: "refines oc lc e (fst a)" using rec by (simp add: records_def)
  show ?case
  proof (cases "book_at e (of_nat n)")
    case None
    with refines_no_book [OF ref None] Cons [of shown] show ?thesis
      by (auto simp: map_filter_simps book_at_def im_at_def split: option.splits)
  next
    case (Some b)
    then obtain inst where inst: "im_slots (me_instruments e) (of_nat n) = Some inst" "in_book inst = Some b"
      by (auto simp: book_at_def im_at_def split: option.splits)
    have "snd (snd a) = ref_data e" using rec by (auto simp: records_def ledger_def prod_eq_iff)
    then have row: "row_of a (of_nat n) = (sample_symbol inst, view_quote (fst a) (of_nat n))"
      using inst(1) by (simp add: row_of_def ref_data_def im_at_def no_book_def sample_symbol_def)
    show ?thesis
    proof (cases "10 \<le> shown")
      case True
      with Cons [of shown] inst show ?thesis by (simp add: map_filter_simps)
    next
      case False
      then have "10 - shown = Suc (10 - (shown + 1))" by simp
      with Cons [of shown] Cons [of "shown + 1"] refines_quote [OF ref cap Some] inst row False show ?thesis
        by (auto simp: map_filter_simps)
    qed
  qed
qed

lemma refines_leak_check:
  assumes "refines oc lc e V" "oc < 2 ^ 32"
  shows "leak_check e = Some PoolsOk"
proof -
  note r = refines_resources [OF assms(1)]
  have u: "unat (of_nat n :: u64) = n" if "n \<le> oc" for n using that assms(2) by (simp add: unat_of_nat take_bit_nat_eq_self)
  define live free where "live = length (v_all V)" and "free = oc - length (v_all V)"
  have n: "unat (of_nat live :: u64) = live" "unat (of_nat oc :: u64) = oc" "unat (of_nat free :: u64) = free" "live + free = oc"
    using r(8) by (simp_all only: u live_def free_def)
  have "order_pool_free e = Some (of_nat free)" "st_live_orders (me_stats e) = of_nat live"
    using r(1,4) unfolding live_def free_def by blast+
  moreover have "\<not> ((of_nat live :: u64) \<noteq> 0 \<and> (of_nat free :: u64) = of_nat oc)"
    "\<not> ((of_nat live :: u64) = 0 \<and> (of_nat free :: u64) < of_nat oc)"
    using n by (auto simp: word_unat_eq_iff word_less_nat_alt)
  ultimately show ?thesis
    by (simp add: leak_check_def order_pool_capacity_def refinesD(3) [OF assms(1)] Let_def)
qed

section \<open>What the reports say\<close>

text \<open>The values of the engine report but the last two, which are about the inside of the order index.\<close>

definition report_values :: "nat \<Rightarrow> nat \<Rightarrow> view \<times> ledger \<Rightarrow> u64 list" where
  "report_values oc lc a = (case a of (V, s, R) \<Rightarrow>
     [st_instruments_registered s, st_add_orders s + st_add_orders_with_mpid s, st_add_orders s, st_add_orders_with_mpid s,
      st_order_executed s, st_order_executed_with_price s, st_order_cancel s, st_order_delete s, st_order_replace s,
      st_non_cross_trades s, st_cross_trades s, st_broken_trades s,
      st_add_rejected_pool_exhausted s, st_add_rejected_level_pool_exhausted s, st_replace_rejected_pool_exhausted s,
      st_duplicate_adds s, st_locate_mismatches s, st_level_missing s, st_unknown_order_events s, st_pool_exhausted s,
      of_nat (oc - length (v_all V)), of_nat oc, st_peak_live_orders s,
      of_nat (lc - v_levels V), of_nat lc, st_peak_live_levels s,
      of_nat (length (v_all V)), of_nat (v_levels V), of_nat (length (v_all V)), ix_kCapacity])"

lemma records_values:
  assumes "records oc lc e a"
  shows "\<exists>overflow collisions. engine_values e = Some (report_values oc lc a @ [overflow, collisions])"
proof -
  obtain V s R where a: "a = (V, s, R)" by (cases a)
  note D = recordsD [OF assms [unfolded a]]
  note r = refines_resources [OF D(1)]
  have caps: "order_pool_capacity e = oc" "level_pool_capacity e = lc"
    using refinesD(3,4) [OF D(1)] by (simp_all add: order_pool_capacity_def level_pool_capacity_def)
  show ?thesis
    using r(1,2) unfolding a by (simp add: engine_values_def report_values_def Let_def r(3,4,5) caps del: of_nat_diff flip: D(2))
qed

definition stdout_of :: "Stats \<Rightarrow> string \<Rightarrow> u64 list \<Rightarrow> (byte list \<times> quote) list \<Rightarrow> string exec" where
  "stdout_of s dash vs rows = do { t \<leftarrow> print_report s; t' \<leftarrow> report_text dash vs PoolsOk rows; Some (t @ t') }"

text \<open>What the report of an engine says that implements the queues and the ledger \<open>a\<close>.\<close>

definition reports :: "nat \<Rightarrow> nat \<Rightarrow> view \<times> ledger \<Rightarrow> u64 list \<Rightarrow> (byte list \<times> quote) list \<Rightarrow> bool" where
  "reports oc lc a vs rows \<longleftrightarrow> (\<exists>overflow collisions. vs = report_values oc lc a @ [overflow, collisions]) \<and>
     rows = map (row_of a) (take 10 (live_locates (fst a)))"

lemma records_report:
  assumes "records oc lc e a" "oc < 2 ^ 32" "dash = ''-'' \<or> dash = em_dash"
  shows "\<exists>vs rows t t'. reports oc lc a vs rows \<and> print_report s = Some t \<and> engine_report_text dash e = Some t' \<and>
    stdout_of s dash vs rows = Some (t @ t')"
proof -
  have rows: "top_of_book e = Some (map (row_of a) (take 10 (live_locates (fst a))))" (is "_ = Some ?rows")
    using records_sample [OF assms(1,2), of 0 "[0..<kMaxInstruments]"]
    by (simp add: top_of_book_def im_for_each_def live_locates_def)
  from records_values [OF assms(1)] obtain vs where vs: "engine_values e = Some vs" "reports oc lc a vs ?rows"
    by (auto simp: reports_def)
  then have "length vs = 32" by (auto simp: reports_def report_values_def split: prod.splits)
  from report_text_total [OF assms(3) this, of PoolsOk ?rows] obtain t' where "report_text dash vs PoolsOk ?rows = Some t'" by blast
  moreover have "leak_check e = Some PoolsOk" using assms(1) unfolding records_def by (blast intro: refines_leak_check [OF _ assms(2)])
  ultimately have "report_text dash vs PoolsOk ?rows = Some t'" "engine_report_text dash e = Some t'"
    using vs(1) rows by (simp_all add: engine_report_text_def)
  moreover obtain t where "print_report s = Some t" using print_report_total by blast
  ultimately show ?thesis using vs(2)
    by (intro exI [of _ vs] exI [of _ ?rows] exI [of _ t] exI [of _ t']) (simp add: stdout_of_def)
qed

end
