(* ===== verification/MMap_Properties.thy ===== *)
theory MMap_Properties
  imports MMap_File
begin

text \<open>
  The properties of the owner of the mapped file: no operation closes or unmaps what is not its own,
  nothing leaks, and the page touching stays inside the mapping and ends.
\<close>

section \<open>Objects and their owners\<close>

text \<open>A program over named objects: every operation of the class as an event.\<close>

datatype file_event =
    Construct nat string answers
  | Open nat string answers
  | MoveConstruct nat nat
  | MoveAssign nat nat
  | Advise nat bool
  | Prefault nat
  | Destroy nat

type_synonym objects = "nat \<rightharpoonup> MMapFile"

fun file_step :: "objects \<times> kernel \<Rightarrow> file_event \<Rightarrow> (objects \<times> kernel) exec" where
  "file_step (ob, k) (Construct i path a) = do { (f, k) \<leftarrow> construct_file path a k; Some (ob(i \<mapsto> f), k) }"
| "file_step (ob, k) (Open i path a) = do {
     (r, k) \<leftarrow> open_file path a k;
     Some (case r of Inl ec \<Rightarrow> ob | Inr f \<Rightarrow> ob(i \<mapsto> f), k) }"
| "file_step (ob, k) (MoveConstruct i j) = do {
     other \<leftarrow> ob j;
     let (f, other) = move_construct other;
     Some (ob(j \<mapsto> other, i \<mapsto> f), k) }"
| "file_step (ob, k) (MoveAssign i j) =
     do {
       f \<leftarrow> ob i;
       other \<leftarrow> ob j;
       (f, other, k) \<leftarrow> move_assign (i = j) f other k;
       Some (ob(i \<mapsto> f, j \<mapsto> other), k) }"
| "file_step (ob, k) (Advise i hugepages) = do { f \<leftarrow> ob i; Some (ob, advise_sequential hugepages f k) }"
| "file_step (ob, k) (Prefault i) = do { f \<leftarrow> ob i; (n, k) \<leftarrow> prefault f k; Some (ob, k) }"
| "file_step (ob, k) (Destroy i) = do { f \<leftarrow> ob i; k \<leftarrow> destroy_file f k; Some (ob(i := None), k) }"

text \<open>The specification: every object owns at most one descriptor and one mapping, and moves hand them over.\<close>

type_synonym resources = "int set \<times> (nat \<times> u64) set"
type_synonym ownership = "nat \<rightharpoonup> resources"

definition owned_by :: "MMapFile \<Rightarrow> resources" where
  "owned_by f = (if mf_fd f \<ge> 0 then {mf_fd f} else {}, case mf_data f of None \<Rightarrow> {} | Some p \<Rightarrow> {(p, mf_size f)})"

definition opened :: "answers \<Rightarrow> resources option" where
  "opened a = (case (an_fstat a, an_mmap a) of
      (Inr (regular, st_size), Inr p) \<Rightarrow>
        if an_open a \<ge> 0 \<and> regular \<and> st_size > 0 then Some ({an_open a}, {(p, of_int st_size)}) else None
    | _ \<Rightarrow> None)"

fun owner_step :: "ownership \<Rightarrow> file_event \<Rightarrow> ownership" where
  "owner_step own (Construct i path a) = own(i \<mapsto> (case opened a of None \<Rightarrow> ({}, {}) | Some r \<Rightarrow> r))"
| "owner_step own (Open i path a) = (case opened a of None \<Rightarrow> own | Some r \<Rightarrow> own(i \<mapsto> r))"
| "owner_step own (MoveConstruct i j) = own(j \<mapsto> ({}, {}), i := own j)"
| "owner_step own (MoveAssign i j) = (if i = j then own else own(i := own j, j \<mapsto> ({}, {})))"
| "owner_step own (Advise i hugepages) = own"
| "owner_step own (Prefault i) = own"
| "owner_step own (Destroy i) = own(i := None)"

text \<open>What POSIX promises about the answers: a new descriptor is not open, a new mapping does not
start where another one does, a size fits the signed type \<open>off_t\<close>, and an error number is positive.\<close>

definition posix :: "ownership \<Rightarrow> answers \<Rightarrow> bool" where
  "posix own a \<longleftrightarrow> (\<forall>r\<in>ran own. an_open a \<notin> fst r \<and> (\<forall>p n. an_mmap a = Inr p \<longrightarrow> (p, n) \<notin> snd r)) \<and>
     (\<forall>regular st_size. an_fstat a = Inr (regular, st_size) \<longrightarrow> st_size < 2 ^ 63) \<and>
     an_open_errno a > 0 \<and> (\<forall>e. an_fstat a = Inl e \<longrightarrow> e > 0) \<and> (\<forall>e. an_mmap a = Inl e \<longrightarrow> e > 0)"

fun file_ok :: "ownership \<Rightarrow> file_event \<Rightarrow> bool" where
  "file_ok own (Construct i path a) \<longleftrightarrow> own i = None \<and> posix own a"
| "file_ok own (Open i path a) \<longleftrightarrow> own i = None \<and> posix own a"
| "file_ok own (MoveConstruct i j) \<longleftrightarrow> own i = None \<and> own j \<noteq> None"
| "file_ok own (MoveAssign i j) \<longleftrightarrow> own i \<noteq> None \<and> own j \<noteq> None"
| "file_ok own (Advise i hugepages) \<longleftrightarrow> own i \<noteq> None"
| "file_ok own (Prefault i) \<longleftrightarrow> own i \<noteq> None"
| "file_ok own (Destroy i) \<longleftrightarrow> own i \<noteq> None"

definition apart :: "resources \<Rightarrow> resources \<Rightarrow> bool" where
  "apart r s \<longleftrightarrow> fst r \<inter> fst s = {} \<and> snd r \<inter> snd s = {}"

definition disjoint_owners :: "ownership \<Rightarrow> bool" where
  "disjoint_owners own \<longleftrightarrow> (\<forall>i j r s. own i = Some r \<longrightarrow> own j = Some s \<longrightarrow> i \<noteq> j \<longrightarrow> apart r s)"

definition sizes_ok :: "resources \<Rightarrow> bool" where
  "sizes_ok r \<longleftrightarrow> (\<forall>(p, n)\<in>snd r. unat n < 2 ^ 63)"

definition resources_of :: "kernel \<Rightarrow> resources" where
  "resources_of k = (k_fds k, k_maps k)"

definition file_rep :: "objects \<times> kernel \<Rightarrow> ownership \<Rightarrow> bool" where
  "file_rep s own \<longleftrightarrow> map_option owned_by \<circ> fst s = own \<and> disjoint_owners own \<and>
     k_fds (snd s) = (\<Union>r\<in>ran own. fst r) \<and> k_maps (snd s) = (\<Union>r\<in>ran own. snd r) \<and> (\<forall>r\<in>ran own. sizes_ok r)"

section \<open>The steps\<close>

text \<open>A part of a run that writes diagnostics and gives advice, and does nothing else.\<close>

definition quiet :: "kernel \<Rightarrow> kernel \<Rightarrow> bool" where
  "quiet k k' \<longleftrightarrow> resources_of k' = resources_of k \<and> k_out k' = k_out k"

lemma quiet_refl [simp]: "quiet k k" and quiet_trans: "quiet k k' \<Longrightarrow> quiet k' k'' \<Longrightarrow> quiet k k''"
  by (simp_all add: quiet_def)

lemma println_err_total:
  assumes "map_option field_specs (parse_format f) = Some specs" "list_all2 fits specs args"
  shows "\<exists>t. println_err f args k = Some (k\<lparr>k_err := k_err k @ t\<rparr>)"
  using println_total [OF assms] by (auto simp: println_err_def)

lemma log_syserr_total: "\<exists>t. log_syserr a what err k = Some (k\<lparr>k_err := t\<rparr>)"
proof -
  have "map_option field_specs (parse_format ''[MMapFile] {} failed: {} (errno={})'') = Some [plain_spec, plain_spec, plain_spec]"
    by code_simp
  from println_err_total [OF this, of "[FStr what, FStr (case an_strerror a err of Some msg \<Rightarrow> msg | None \<Rightarrow> ''?''), FInt err]" k]
  obtain t where "println_err ''[MMapFile] {} failed: {} (errno={})''
      [FStr what, FStr (case an_strerror a err of Some msg \<Rightarrow> msg | None \<Rightarrow> ''?''), FInt err] k = Some (k\<lparr>k_err := k_err k @ t\<rparr>)"
    by (simp del: option.case) blast
  then show ?thesis unfolding log_syserr_def by blast
qed

lemma rejected_total:
  "\<exists>t. println_err ''[MMapFile] not a regular file: {}'' [FStr path] k = Some (k\<lparr>k_err := t\<rparr>)"
  "\<exists>t. println_err ''[MMapFile] empty file: {}'' [FStr path] k = Some (k\<lparr>k_err := t\<rparr>)"
proof -
  have f: "map_option field_specs (parse_format ''[MMapFile] not a regular file: {}'') = Some [plain_spec]"
    "map_option field_specs (parse_format ''[MMapFile] empty file: {}'') = Some [plain_spec]" by code_simp+
  show "\<exists>t. println_err ''[MMapFile] not a regular file: {}'' [FStr path] k = Some (k\<lparr>k_err := t\<rparr>)"
    using println_err_total [OF f(1), of "[FStr path]" k] fits_plain by auto
  show "\<exists>t. println_err ''[MMapFile] empty file: {}'' [FStr path] k = Some (k\<lparr>k_err := t\<rparr>)"
    using println_err_total [OF f(2), of "[FStr path]" k] fits_plain by auto
qed

lemma open_into_init:
  assumes "posix own a" "k_fds k = (\<Union>r\<in>ran own. fst r)"
  shows "\<exists>ec f k'. open_into path a MMapFile_init k = Some (ec, f, k') \<and>
    (case opened a of
       None \<Rightarrow> ec \<noteq> 0 \<and> owned_by f = ({}, {}) \<and> quiet k k'
     | Some r \<Rightarrow> ec = 0 \<and> owned_by f = r \<and> sizes_ok r \<and> k' = k\<lparr>k_fds := k_fds k \<union> fst r, k_maps := k_maps k \<union> snd r\<rparr>)"
proof -
  have fresh: "an_open a \<notin> k_fds k" "an_open_errno a > 0" using assms by (auto simp: posix_def)
  have errs: "an_fstat a = Inl e \<Longrightarrow> e \<noteq> 0" "an_mmap a = Inl e \<Longrightarrow> e \<noteq> 0" for e using assms(1) by (auto simp: posix_def)
  have close: "sys_close (an_open a) (k\<lparr>k_fds := insert (an_open a) (k_fds k), k_err := t\<rparr>) = Some (k\<lparr>k_err := t\<rparr>)" for t
    using fresh by (simp add: sys_close_def)
  have failed: ?thesis if "open_into path a MMapFile_init k = Some (ec, f, k')" "opened a = None" "ec \<noteq> 0"
      "owned_by f = ({}, {})" "quiet k k'" for ec f k'
    using that by auto
  note defs = open_into_def sys_open_def opened_def owned_by_def MMapFile_init_def quiet_def resources_of_def EINVAL_def Let_def
  show ?thesis
  proof (cases "an_open a < 0")
    case True
    then have "opened a = None" by (auto simp: opened_def split: sum.splits)
    moreover obtain t where "log_syserr a ''open'' (an_open_errno a) k = Some (k\<lparr>k_err := t\<rparr>)" using log_syserr_total by blast
    ultimately show ?thesis using True fresh
      by (intro failed [of "an_open_errno a" "\<lparr>mf_data = None, mf_size = 0, mf_fd = an_open a\<rparr>" "k\<lparr>k_err := t\<rparr>"]) (simp_all add: defs)
  next
    case False
    let ?k = "k\<lparr>k_fds := insert (an_open a) (k_fds k)\<rparr>"
    consider (fstat) e where "an_fstat a = Inl e" | (irregular) st_size where "an_fstat a = Inr (False, st_size)"
      | (empty) st_size where "an_fstat a = Inr (True, st_size)" "st_size \<le> 0"
      | (mmap) st_size e where "an_fstat a = Inr (True, st_size)" "st_size > 0" "an_mmap a = Inl e"
      | (mapped) st_size p where "an_fstat a = Inr (True, st_size)" "st_size > 0" "an_mmap a = Inr p"
    proof (cases "an_fstat a")
      case (Inl e)
      then show ?thesis by (rule that(1))
    next
      case (Inr st)
      obtain regular st_size where st: "st = (regular, st_size)" by (cases st)
      show ?thesis
      proof (cases "regular \<and> st_size > 0")
        case True
        then show ?thesis using that(4,5) Inr st by (cases "an_mmap a") simp_all
      next
        case False
        then show ?thesis using that(2,3) Inr st by (cases regular) simp_all
      qed
    qed
    then show ?thesis
    proof cases
      case fstat
      obtain t where "log_syserr a ''fstat'' e ?k = Some (?k\<lparr>k_err := t\<rparr>)" using log_syserr_total by blast
      with fstat errs close False show ?thesis
        by (intro failed [of e MMapFile_init "k\<lparr>k_err := t\<rparr>"]) (simp_all add: defs)
    next
      case irregular
      obtain t where "println_err ''[MMapFile] not a regular file: {}'' [FStr path] ?k = Some (?k\<lparr>k_err := t\<rparr>)"
        using rejected_total by blast
      with irregular close False show ?thesis
        by (intro failed [of EINVAL MMapFile_init "k\<lparr>k_err := t\<rparr>"]) (simp_all add: defs split: sum.split)
    next
      case empty
      obtain t where "println_err ''[MMapFile] empty file: {}'' [FStr path] ?k = Some (?k\<lparr>k_err := t\<rparr>)"
        using rejected_total by blast
      with empty close False show ?thesis
        by (intro failed [of EINVAL MMapFile_init "k\<lparr>k_err := t\<rparr>"]) (simp_all add: defs split: sum.split)
    next
      case mmap
      obtain t where "log_syserr a ''mmap'' e ?k = Some (?k\<lparr>k_err := t\<rparr>)" using log_syserr_total by blast
      with mmap errs close False show ?thesis
        by (intro failed [of e "MMapFile_init\<lparr>mf_size := of_int st_size\<rparr>" "k\<lparr>k_err := t\<rparr>"]) (simp_all add: defs)
    next
    case mapped
      then have "st_size < 2 ^ 63" using assms(1) by (auto simp: posix_def)
      then have "nat st_size < 2 ^ 63" "(of_int st_size :: u64) = of_nat (nat st_size)" using mapped by simp_all
      then have "unat (of_int st_size :: u64) < 2 ^ 63" using unat_of_nat64 [of "nat st_size"] by simp
      moreover have "opened a = Some ({an_open a}, {(p, of_int st_size)})" using mapped False by (simp add: opened_def)
      moreover have "open_into path a MMapFile_init k = Some (0, \<lparr>mf_data = Some p, mf_size = of_int st_size, mf_fd = an_open a\<rparr>,
          k\<lparr>k_fds := insert (an_open a) (k_fds k), k_maps := insert (p, of_int st_size) (k_maps k)\<rparr>)"
        using mapped False by (simp add: defs)
      ultimately show ?thesis using False by (simp add: owned_by_def sizes_ok_def)
    qed
  qed
qed

lemma release_owned:
  assumes "fst (owned_by f) \<subseteq> k_fds k" "snd (owned_by f) \<subseteq> k_maps k"
  shows "\<exists>f'. release_file f k = Some (f', k\<lparr>k_fds := k_fds k - fst (owned_by f), k_maps := k_maps k - snd (owned_by f)\<rparr>) \<and>
    owned_by f' = ({}, {})"
  using assms
  by (intro exI [of _ "f\<lparr>mf_data := None, mf_fd := if mf_fd f \<ge> 0 then - 1 else mf_fd f, mf_size := 0\<rparr>"])
    (cases "mf_data f"; cases "mf_fd f \<ge> 0"; simp add: release_file_def owned_by_def sys_close_def sys_munmap_def)

lemma destroy_owned:
  assumes "fst (owned_by f) \<subseteq> k_fds k" "snd (owned_by f) \<subseteq> k_maps k"
  shows "destroy_file f k = Some (k\<lparr>k_fds := k_fds k - fst (owned_by f), k_maps := k_maps k - snd (owned_by f)\<rparr>)"
  using release_owned [OF assms] by (auto simp: destroy_file_def)

lemma destroy_empty: "owned_by f = ({}, {}) \<Longrightarrow> destroy_file f k = Some k"
  using destroy_owned [of f k] by simp

lemma move_construct_owner:
  "owned_by (fst (move_construct f)) = owned_by f" "owned_by (snd (move_construct f)) = ({}, {})"
  by (simp_all add: move_construct_def owned_by_def split: option.split)

lemma open_file_init:
  assumes "posix own a" "k_fds k = (\<Union>r\<in>ran own. fst r)"
  shows "case opened a of
       None \<Rightarrow> \<exists>ec k'. open_file path a k = Some (Inl ec, k') \<and> quiet k k'
     | Some r \<Rightarrow> \<exists>f. open_file path a k = Some (Inr f, k\<lparr>k_fds := k_fds k \<union> fst r, k_maps := k_maps k \<union> snd r\<rparr>) \<and>
         owned_by f = r \<and> sizes_ok r"
proof -
  obtain ec f k' where o1: "open_into path a MMapFile_init k = Some (ec, f, k')"
    "case opened a of
       None \<Rightarrow> ec \<noteq> 0 \<and> owned_by f = ({}, {}) \<and> quiet k k'
     | Some r \<Rightarrow> ec = 0 \<and> owned_by f = r \<and> sizes_ok r \<and> k' = k\<lparr>k_fds := k_fds k \<union> fst r, k_maps := k_maps k \<union> snd r\<rparr>"
    using open_into_init [OF assms] by blast
  from destroy_empty [of f] destroy_empty [OF move_construct_owner(2) [of f]] show ?thesis
    using o1 move_construct_owner(1) [of f]
    by (auto simp: open_file_def split: option.splits prod.splits)
qed

lemma file_repD:
  assumes "file_rep (ob, k) own"
  shows "own = map_option owned_by \<circ> ob" "disjoint_owners own" "k_fds k = (\<Union>r\<in>ran own. fst r)"
    "k_maps k = (\<Union>r\<in>ran own. snd r)" "\<And>r. r \<in> ran own \<Longrightarrow> sizes_ok r"
  using assms by (auto simp: file_rep_def)

lemma no_resources_sizes: "sizes_ok ({}, {})"
  by (simp add: sizes_ok_def)

lemma file_rep_resources: "resources_of k' = resources_of k \<Longrightarrow> file_rep (ob, k') own \<longleftrightarrow> file_rep (ob, k) own"
  by (simp add: file_rep_def resources_of_def)

text \<open>Adding resources that nobody owns, taking the resources of an object away, and handing them over.\<close>

lemma apart_sym: "apart r s \<Longrightarrow> apart s r"
  by (auto simp: apart_def)

lemma apart_empty [simp]: "apart ({}, {}) s" "apart s ({}, {})"
  by (simp_all add: apart_def)

lemma disjoint_ownersD: "disjoint_owners own \<Longrightarrow> own i = Some r \<Longrightarrow> own j = Some s \<Longrightarrow> i \<noteq> j \<Longrightarrow> apart r s"
  unfolding disjoint_owners_def by blast

lemma own_new:
  assumes "disjoint_owners own" "own i = None" "\<And>s. s \<in> ran own \<Longrightarrow> apart r s"
  shows "disjoint_owners (own(i \<mapsto> r))" "ran (own(i \<mapsto> r)) = insert r (ran own)"
proof -
  show "disjoint_owners (own(i \<mapsto> r))" unfolding disjoint_owners_def
  proof (intro allI impI)
    fix j l x y assume xy: "(own(i \<mapsto> r)) j = Some x" "(own(i \<mapsto> r)) l = Some y" "j \<noteq> l"
    consider "j = i" "own l = Some y" | "l = i" "own j = Some x" | "own j = Some x" "own l = Some y"
      using xy by (auto split: if_splits)
    then show "apart x y"
    proof cases
      case 1
      then show ?thesis using xy assms(3) [of y] by (auto simp: ran_def)
    next
      case 2
      then have "x \<in> ran own" "y = r" using xy by (auto simp: ran_def)
      then show ?thesis using assms(3) [of x] by (auto intro: apart_sym)
    next
      case 3
      then show ?thesis using disjoint_ownersD [OF assms(1)] xy(3) by blast
    qed
  qed
  show "ran (own(i \<mapsto> r)) = insert r (ran own)" using assms(2) by (rule ran_map_upd)
qed

lemma own_remove:
  assumes "disjoint_owners own" "own i = Some r"
  shows "disjoint_owners (own(i := None))"
    "(\<Union>s\<in>ran (own(i := None)). fst s) = (\<Union>s\<in>ran own. fst s) - fst r"
    "(\<Union>s\<in>ran (own(i := None)). snd s) = (\<Union>s\<in>ran own. snd s) - snd r"
    "\<And>s. s \<in> ran (own(i := None)) \<Longrightarrow> apart r s"
proof -
  show "disjoint_owners (own(i := None))" using assms(1) unfolding disjoint_owners_def by (auto split: if_splits)
  show dis: "apart r s" if "s \<in> ran (own(i := None))" for s
  proof -
    from that obtain j where "own j = Some s" "j \<noteq> i" by (auto simp: ran_def split: if_splits)
    then show ?thesis using disjoint_ownersD [OF assms] by blast
  qed
  have "own = (own(i := None))(i \<mapsto> r)" using assms(2) by (simp add: fun_upd_idem)
  then have "ran own = insert r (ran (own(i := None)))"
    using ran_map_upd [of "own(i := None)" i r] by simp
  then have un: "(\<Union>s\<in>ran own. fst s) = fst r \<union> (\<Union>s\<in>ran (own(i := None)). fst s)"
    "(\<Union>s\<in>ran own. snd s) = snd r \<union> (\<Union>s\<in>ran (own(i := None)). snd s)" by simp_all
  have "fst r \<inter> (\<Union>s\<in>ran (own(i := None)). fst s) = {}" "snd r \<inter> (\<Union>s\<in>ran (own(i := None)). snd s) = {}"
    using dis unfolding apart_def by blast+
  then show "(\<Union>s\<in>ran (own(i := None)). fst s) = (\<Union>s\<in>ran own. fst s) - fst r"
    "(\<Union>s\<in>ran (own(i := None)). snd s) = (\<Union>s\<in>ran own. snd s) - snd r"
    unfolding un by blast+
qed

lemma rep_add:
  assumes rep: "file_rep (ob, k) own" and new: "own i = None" and ap: "\<And>s. s \<in> ran own \<Longrightarrow> apart (owned_by f) s"
    and sz: "sizes_ok (owned_by f)"
  shows "file_rep (ob(i \<mapsto> f), k\<lparr>k_fds := k_fds k \<union> fst (owned_by f), k_maps := k_maps k \<union> snd (owned_by f)\<rparr>) (own(i \<mapsto> owned_by f))"
proof -
  note D = file_repD [OF rep]
  note N = own_new [OF D(2) new ap]
  have "map_option owned_by \<circ> ob(i \<mapsto> f) = own(i \<mapsto> owned_by f)" using D(1) by (auto simp: fun_eq_iff)
  then show ?thesis using N D(3,4,5) sz by (simp add: file_rep_def Un_commute)
qed

lemma rep_remove:
  assumes rep: "file_rep (ob, k) own" and f: "ob i = Some f"
  shows "fst (owned_by f) \<subseteq> k_fds k" "snd (owned_by f) \<subseteq> k_maps k"
    "file_rep (ob(i := None), k\<lparr>k_fds := k_fds k - fst (owned_by f), k_maps := k_maps k - snd (owned_by f)\<rparr>) (own(i := None))"
proof -
  note D = file_repD [OF rep]
  have own: "own i = Some (owned_by f)" using D(1) f by simp
  then have "owned_by f \<in> ran own" by (auto simp: ran_def)
  then show "fst (owned_by f) \<subseteq> k_fds k" "snd (owned_by f) \<subseteq> k_maps k" using D(3,4) by auto
  have "map_option owned_by \<circ> ob(i := None) = own(i := None)" using D(1) by (auto simp: fun_eq_iff)
  moreover have "ran (own(i := None)) \<subseteq> ran own" by (auto simp: ran_def)
  ultimately show "file_rep (ob(i := None), k\<lparr>k_fds := k_fds k - fst (owned_by f), k_maps := k_maps k - snd (owned_by f)\<rparr>) (own(i := None))"
    using own_remove(1-3) [OF D(2) own] D(3,4,5) by (auto simp: file_rep_def)
qed

lemma posix_apart:
  assumes "posix own a" "opened a = Some r" "s \<in> ran own"
  shows "apart r s"
  using assms by (auto simp: opened_def posix_def apart_def split: sum.splits prod.splits if_splits)

lemma step_construct:
  assumes rep: "file_rep (ob, k) own" and ok: "own i = None" "posix own a"
  shows "\<exists>s'. file_step (ob, k) (Construct i path a) = Some s' \<and> file_rep s' (owner_step own (Construct i path a))"
proof -
  note D = file_repD [OF rep]
  obtain ec f k' where o1: "open_into path a MMapFile_init k = Some (ec, f, k')"
    "case opened a of
       None \<Rightarrow> ec \<noteq> 0 \<and> owned_by f = ({}, {}) \<and> quiet k k'
     | Some r \<Rightarrow> ec = 0 \<and> owned_by f = r \<and> sizes_ok r \<and> k' = k\<lparr>k_fds := k_fds k \<union> fst r, k_maps := k_maps k \<union> snd r\<rparr>"
    using open_into_init [OF ok(2) D(3)] by blast
  have sz: "sizes_ok (owned_by f)" using o1(2) by (cases "opened a") (auto simp: sizes_ok_def)
  have "apart (owned_by f) s" if "s \<in> ran own" for s
    using o1(2) posix_apart [OF ok(2) _ that] by (cases "opened a") auto
  note R = rep_add [OF rep ok(1) this sz]
  have res: "resources_of k' = resources_of (k\<lparr>k_fds := k_fds k \<union> fst (owned_by f), k_maps := k_maps k \<union> snd (owned_by f)\<rparr>)"
    using o1(2) by (cases "opened a") (simp_all add: resources_of_def quiet_def)
  have "owner_step own (Construct i path a) = own(i \<mapsto> owned_by f)" using o1(2) by (cases "opened a") auto
  moreover have "file_step (ob, k) (Construct i path a) = Some (ob(i \<mapsto> f), k')" using o1(1) by (simp add: construct_file_def)
  ultimately show ?thesis using R file_rep_resources [OF res] by simp
qed

lemma step_open:
  assumes rep: "file_rep (ob, k) own" and ok: "own i = None" "posix own a"
  shows "\<exists>s'. file_step (ob, k) (Open i path a) = Some s' \<and> file_rep s' (owner_step own (Open i path a))"
proof (cases "opened a")
  case None
  with open_file_init [OF ok(2) file_repD(3) [OF rep], of path] obtain ec k' where
    k': "open_file path a k = Some (Inl ec, k')" "resources_of k' = resources_of k" by (auto simp: quiet_def)
  from file_rep_resources [OF k'(2)] rep k'(1) None show ?thesis by simp
next
  case (Some r)
  with open_file_init [OF ok(2) file_repD(3) [OF rep], of path] obtain f where f:
    "open_file path a k = Some (Inr f, k\<lparr>k_fds := k_fds k \<union> fst r, k_maps := k_maps k \<union> snd r\<rparr>)" "owned_by f = r" "sizes_ok r" by auto
  have "apart (owned_by f) s" if "s \<in> ran own" for s using posix_apart [OF ok(2) Some that] f(2) by simp
  from rep_add [OF rep ok(1) this] f Some show ?thesis by simp
qed

lemma step_destroy:
  assumes rep: "file_rep (ob, k) own" and f: "own i \<noteq> None"
  shows "\<exists>s'. file_step (ob, k) (Destroy i) = Some s' \<and> file_rep s' (owner_step own (Destroy i))"
proof -
  from f file_repD(1) [OF rep] obtain g where g: "ob i = Some g" by auto
  note R = rep_remove [OF rep g]
  from destroy_owned [OF R(1,2)] R(3) g show ?thesis by simp
qed

text \<open>The loop of \<open>prefault\<close> reads the first byte of every page and ends.\<close>

definition pages :: "u64 \<Rightarrow> nat" where
  "pages len = (unat len + 4095) div 4096"

lemma prefault_from_pages:
  assumes map: "(p, len) \<in> k_maps k" and size: "unat len \<le> 2 ^ 64 - 4096" and i: "i \<le> pages len"
  shows "prefault_from p len (of_nat (4096 * i)) (of_nat (4096 * i)) k =
    Some (of_nat (4096 * pages len), k\<lparr>k_reads := k_reads k @ map (\<lambda>j. p + 4096 * j) [i..<pages len]\<rparr>)"
  using map i
proof (induction "pages len - i" arbitrary: i k)
  case 0
  have "pages len \<le> (2 ^ 64 - 4096 + 4095) div 4096" unfolding pages_def using size by (intro div_le_mono) simp
  then have "4096 * pages len < 2 ^ 64" by simp
  moreover have "unat len \<le> 4096 * pages len" by (simp add: pages_def)
  ultimately have "\<not> (of_nat (4096 * pages len) :: u64) < len"
    unfolding word_less_nat_alt by (subst unat_of_nat64) simp_all
  with 0 show ?case by (subst prefault_from.simps) simp
next
  case (Suc d)
  then have i: "i < pages len" by simp
  then have lt: "4096 * i < unat len" by (simp add: pages_def)
  then have u: "unat (of_nat (4096 * i) :: u64) = 4096 * i"
    using unsigned_less [of len, where 'a = nat] by (intro unat_of_nat64) simp
  have "read_byte (p + 4096 * i) k = Some (k\<lparr>k_reads := k_reads k @ [p + 4096 * i]\<rparr>)"
    using Suc.prems(1) lt by (auto simp: read_byte_def intro: bexI [of _ "(p, len)"])
  moreover have "(of_nat (4096 * i) + kPage :: u64) = of_nat (4096 * Suc i)" by (simp add: kPage_def)
  moreover have "[i..<pages len] = i # [Suc i..<pages len]" using i by (rule upt_conv_Cons)
  moreover have "d = pages len - Suc i" using Suc.hyps(2) by simp
  ultimately show ?case
    using Suc.hyps(1) [of "Suc i" "k\<lparr>k_reads := k_reads k @ [p + 4096 * i]\<rparr>"] Suc.prems i lt u
    by (subst prefault_from.simps) (simp add: word_less_nat_alt add.commute)
qed

lemma advise_quiet: "quiet k (advise_sequential hp f k)"
  by (simp add: quiet_def advise_sequential_def sys_madvise_def resources_of_def Let_def split: option.split)

lemma step_advise:
  assumes rep: "file_rep (ob, k) own" and f: "own i \<noteq> None"
  shows "\<exists>s'. file_step (ob, k) (Advise i hp) = Some s' \<and> file_rep s' (owner_step own (Advise i hp))"
proof -
  from f file_repD(1) [OF rep] obtain g where g: "ob i = Some g" by auto
  have "resources_of (advise_sequential hp g k) = resources_of k" using advise_quiet by (simp add: quiet_def)
  with file_rep_resources [OF this] rep g show ?thesis by simp
qed

lemma step_prefault:
  assumes rep: "file_rep (ob, k) own" and f: "own i \<noteq> None"
  shows "\<exists>s'. file_step (ob, k) (Prefault i) = Some s' \<and> file_rep s' (owner_step own (Prefault i))"
proof -
  from f file_repD(1) [OF rep] obtain g where g: "ob i = Some g" by auto
  then have own: "own i = Some (owned_by g)" using file_repD(1) [OF rep] by simp
  have "\<exists>n k'. prefault g k = Some (n, k') \<and> resources_of k' = resources_of k"
  proof (cases "mf_data g")
    case (Some p)
    then have "(p, mf_size g) \<in> snd (owned_by g)" by (simp add: owned_by_def)
    moreover have "snd (owned_by g) \<subseteq> k_maps k" by (rule rep_remove(2) [OF rep g])
    moreover have "sizes_ok (owned_by g)" using file_repD(5) [OF rep ranI] own by blast
    ultimately have "(p, mf_size g) \<in> k_maps k" "unat (mf_size g) \<le> 2 ^ 64 - 4096" by (auto simp: sizes_ok_def)
    from prefault_from_pages [OF this, of 0] Some show ?thesis by (simp add: prefault_def resources_of_def)
  qed (simp add: prefault_def)
  then obtain n k' where k': "prefault g k = Some (n, k')" "resources_of k' = resources_of k" by blast
  with file_rep_resources [OF k'(2)] rep g show ?thesis by simp
qed

text \<open>A moved-from object owns nothing, so replacing an object by the pair of a move keeps the union.\<close>

lemma rep_move:
  assumes rep: "file_rep (ob, k) own" and i: "own i = None" and j: "own j = Some r"
    and f: "owned_by f = r" and g: "owned_by g = ({}, {})"
  shows "file_rep (ob(i \<mapsto> f, j \<mapsto> g), k) (own(i \<mapsto> r, j \<mapsto> ({}, {})))"
proof -
  note D = file_repD [OF rep]
  note R = own_remove [OF D(2) j]
  have ij: "i \<noteq> j" using i j by auto
  let ?o = "own(j := None)"
  have "disjoint_owners (?o(j \<mapsto> ({}, {})))" "ran (?o(j \<mapsto> ({}, {}))) = insert ({}, {}) (ran ?o)"
    using own_new [OF R(1), of j "({}, {})"] by simp_all
  moreover have "apart r s" if "s \<in> ran (?o(j \<mapsto> ({}, {})))" for s
    using that R(4) calculation(2) by (metis apart_empty(2) insertE)
  ultimately have new: "disjoint_owners (?o(j \<mapsto> ({}, {}), i \<mapsto> r))"
    "ran (?o(j \<mapsto> ({}, {}), i \<mapsto> r)) = insert r (insert ({}, {}) (ran ?o))"
    using own_new [of "?o(j \<mapsto> ({}, {}))" i r] i ij by auto
  have eq: "?o(j \<mapsto> ({}, {}), i \<mapsto> r) = own(i \<mapsto> r, j \<mapsto> ({}, {}))" using ij by (auto simp: fun_eq_iff)
  have "ran ?o \<subseteq> ran own" "r \<in> ran own" using j by (auto simp: ran_def)
  then have "s \<in> insert r (ran ?o) \<Longrightarrow> sizes_ok s" for s using D(5) by blast
  then have sz: "\<forall>s\<in>insert r (insert ({}, {}) (ran ?o)). sizes_ok s" using no_resources_sizes by blast
  have sub: "fst r \<subseteq> (\<Union>s\<in>ran own. fst s)" "snd r \<subseteq> (\<Union>s\<in>ran own. snd s)" using j by (auto simp: ran_def)
  have "map_option owned_by \<circ> ob(i \<mapsto> f, j \<mapsto> g) = own(i \<mapsto> r, j \<mapsto> ({}, {}))"
    using D(1) f g by (auto simp: fun_eq_iff)
  then show ?thesis using new [unfolded eq] R(2,3) D(3,4) sub sz by (auto simp: file_rep_def)
qed

lemma step_move_construct:
  assumes rep: "file_rep (ob, k) own" and ok: "own i = None" "own j \<noteq> None"
  shows "\<exists>s'. file_step (ob, k) (MoveConstruct i j) = Some s' \<and> file_rep s' (owner_step own (MoveConstruct i j))"
proof -
  from ok(2) obtain r where r: "own j = Some r" by auto
  then obtain g where g: "ob j = Some g" "owned_by g = r" using file_repD(1) [OF rep] by auto
  obtain f h where m: "move_construct g = (f, h)" by fastforce
  then have fh: "owned_by f = r" "owned_by h = ({}, {})" using move_construct_owner [of g] g(2) by simp_all
  have ij: "i \<noteq> j" using ok by auto
  have "file_step (ob, k) (MoveConstruct i j) = Some (ob(i \<mapsto> f, j \<mapsto> h), k)"
    using g m ij by (simp add: fun_upd_twist)
  moreover have "owner_step own (MoveConstruct i j) = own(i \<mapsto> r, j \<mapsto> ({}, {}))"
    using ij r by (simp add: fun_upd_twist)
  ultimately show ?thesis using rep_move [OF rep ok(1) r fh] by simp
qed

lemma step_move_assign:
  assumes rep: "file_rep (ob, k) own" and ok: "own i \<noteq> None" "own j \<noteq> None"
  shows "\<exists>s'. file_step (ob, k) (MoveAssign i j) = Some s' \<and> file_rep s' (owner_step own (MoveAssign i j))"
proof (cases "i = j")
  case True
  from ok obtain f where "ob i = Some f" using file_repD(1) [OF rep] by auto
  with True rep show ?thesis by (simp add: move_assign_def fun_upd_idem)
next
  case False
  from ok obtain r where r: "own j = Some r" by auto
  then obtain h where h: "ob j = Some h" "owned_by h = r" using file_repD(1) [OF rep] by auto
  from ok obtain f where f: "ob i = Some f" using file_repD(1) [OF rep] by auto
  note rr = rep_remove [OF rep f]
  from release_owned [OF rr(1,2)] rr(3) obtain f' k' where R: "release_file f k = Some (f', k')"
    "file_rep (ob(i := None), k') (own(i := None))" by blast
  let ?f = "f'\<lparr>mf_data := mf_data h, mf_size := mf_size h, mf_fd := mf_fd h\<rparr>"
  let ?h = "h\<lparr>mf_data := None, mf_size := 0, mf_fd := - 1\<rparr>"
  have "owned_by ?f = r" "owned_by ?h = ({}, {})" using h(2) by (auto simp: owned_by_def split: option.splits)
  from rep_move [OF R(2) _ _ this, of i j] r False
  have "file_rep (ob(i \<mapsto> ?f, j \<mapsto> ?h), k') (own(i \<mapsto> r, j \<mapsto> ({}, {})))" by simp
  moreover have "file_step (ob, k) (MoveAssign i j) = Some (ob(i \<mapsto> ?f, j \<mapsto> ?h), k')"
    using f h R(1) False by (simp add: move_assign_def)
  ultimately show ?thesis using False r by simp
qed

interpretation files: simulation file_step owner_step file_rep file_ok
proof unfold_locales
  fix s own ev assume rep: "file_rep s own" and ok: "file_ok own ev"
  obtain ob k where s: "s = (ob, k)" by fastforce
  show "\<exists>s'. file_step s ev = Some s' \<and> file_rep s' (owner_step own ev)"
    unfolding s
  proof (cases ev)
    case (MoveConstruct i j)
    then show "\<exists>s'. file_step (ob, k) ev = Some s' \<and> file_rep s' (owner_step own ev)"
      using step_move_construct [of ob k own i j] rep ok s by (simp only: file_ok.simps simp_thms)
  next
    case (MoveAssign i j)
    then show "\<exists>s'. file_step (ob, k) ev = Some s' \<and> file_rep s' (owner_step own ev)"
      using step_move_assign [of ob k own i j] rep ok s by (simp only: file_ok.simps simp_thms)
  qed (use rep ok s in \<open>simp_all only: file_ok.simps step_construct step_open step_advise step_prefault step_destroy simp_thms\<close>)
qed

definition kernel_init :: kernel where
  "kernel_init = \<lparr>k_fds = {}, k_maps = {}, k_out = [], k_err = [], k_advice = [], k_reads = []\<rparr>"

text \<open>
  C14. Programs over \<open>MMapFile\<close> objects never close a descriptor or unmap a range twice or one that is not
  theirs, and leak nothing: after any sequence of constructions, opens (successful or failing at any
  point), moves, self-assignments and destructions, the kernel has open exactly the descriptors
  and mappings that the live objects own, no two objects own the same one, and moves hand them over.
\<close>

theorem files_never_leak:
  assumes "all_admissible owner_step file_ok (\<lambda>_. None) evs"
  shows "\<exists>ob k. exec_list file_step (\<lambda>_. None, kernel_init) evs = Some (ob, k) \<and>
    (let own = foldl owner_step (\<lambda>_. None) evs in
       (\<forall>i. map_option owned_by (ob i) = own i) \<and> disjoint_owners own \<and>
       k_fds k = (\<Union>r\<in>ran own. fst r) \<and> k_maps k = (\<Union>r\<in>ran own. snd r))"
proof -
  have "file_rep (\<lambda>_. None, kernel_init) (\<lambda>_. None)"
    by (simp add: file_rep_def kernel_init_def disjoint_owners_def fun_eq_iff)
  from files.run_sim [OF this assms] obtain ob k where
    "exec_list file_step (\<lambda>_. None, kernel_init) evs = Some (ob, k)"
    "file_rep (ob, k) (foldl owner_step (\<lambda>_. None) evs)" by auto
  then show ?thesis by (auto simp: file_rep_def Let_def fun_eq_iff)
qed

definition demo_answers :: answers where
  "demo_answers = \<lparr>an_open = 3, an_open_errno = 2, an_fstat = Inr (True, 10), an_mmap = Inr 4096,
     an_strerror = (\<lambda>_. None)\<rparr>"

theorem files_never_leak_witness:
  "\<exists>ob k. exec_list file_step (\<lambda>_. None, kernel_init) [Open 0 [] demo_answers, MoveConstruct 1 0, Prefault 1, Destroy 0, Destroy 1] = Some (ob, k) \<and>
     k_fds k = {} \<and> k_maps k = {}"
proof -
  have op: "opened demo_answers = Some ({3}, {(4096, 10)})" by (simp add: opened_def demo_answers_def)
  have px: "posix (\<lambda>_. None) demo_answers" by (simp add: posix_def demo_answers_def)
  have ok: "all_admissible owner_step file_ok (\<lambda>_. None) [Open 0 [] demo_answers, MoveConstruct 1 0, Prefault 1, Destroy 0, Destroy 1]"
    by (simp add: op px)
  have "foldl owner_step (\<lambda>_. None) [Open 0 [] demo_answers, MoveConstruct 1 0, Prefault 1, Destroy 0, Destroy 1] = (\<lambda>_. None)"
    by (simp add: op fun_eq_iff)
  with files_never_leak [OF ok] show ?thesis unfolding Let_def by auto
qed

text \<open>
  C39. \<open>prefault\<close> on a mapping ends, reads exactly the first byte of every page of the mapping and nothing
  else, in order, and returns the size rounded up to whole pages; any size that \<open>fstat\<close> can report is
  far below the bound beyond which the offset would wrap.
\<close>

theorem prefault_touches_pages:
  assumes "mf_data f = Some p" "(p, mf_size f) \<in> k_maps k" "unat (mf_size f) \<le> 2 ^ 64 - 4096"
  shows "let n = (unat (mf_size f) + 4095) div 4096 in
    prefault f k = Some (of_nat (4096 * n), k\<lparr>k_reads := k_reads k @ map (\<lambda>j. p + 4096 * j) [0..<n]\<rparr>)"
  using prefault_from_pages [OF assms(2,3), of 0] assms(1) by (simp add: prefault_def pages_def Let_def)

theorem prefault_touches_pages_witness:
  "prefault \<lparr>mf_data = Some 8192, mf_size = 8193, mf_fd = 3\<rparr> (kernel_init\<lparr>k_maps := {(8192, 8193)}\<rparr>) =
     Some (12288, kernel_init\<lparr>k_maps := {(8192, 8193)}, k_reads := [8192, 12288, 16384]\<rparr>)"
  using prefault_touches_pages [of "\<lparr>mf_data = Some 8192, mf_size = 8193, mf_fd = 3\<rparr>" 8192 "kernel_init\<lparr>k_maps := {(8192, 8193)}\<rparr>"]
  by (simp add: kernel_init_def upt_rec)

text \<open>After a failed \<open>mmap\<close> the legacy constructor leaves an invalid object with a positive size.\<close>

lemma failed_mmap_keeps_size:
  assumes "an_open a \<ge> 0" "an_open a \<notin> k_fds k" "an_fstat a = Inr (True, st_size)" "st_size > 0" "an_mmap a = Inl e"
  shows "\<exists>f k'. construct_file path a k = Some (f, k') \<and> \<not> valid_file f \<and> file_span f = (None, of_int st_size)"
  using assms log_syserr_total [of a "''mmap''" e "k\<lparr>k_fds := insert (an_open a) (k_fds k)\<rparr>"]
  by (auto simp: construct_file_def open_into_def sys_open_def sys_close_def valid_file_def file_span_def MMapFile_init_def)

end
