(* ===== verification/Driver_Properties.thy ===== *)
theory Driver_Properties
  imports Driver Parser_Properties Report_Properties MMap_Properties
begin

text \<open>
  The properties of the two drivers: the command line and its error exits, what \<open>main\<close> prints about a
  file, that the printed numbers can be read back, and what a second run of an \<open>ITCHProcessor\<close> keeps.
\<close>

section \<open>The command line\<close>

lemma is_pow2_size: "is_pow2 n \<longleftrightarrow> pow2_size n"
  unfolding is_pow2_def pow2_test [symmetric] by (simp add: word_neq_0_conv)

lemma parse_args_invariant:
  assumes "pow2_size (cf_order_pool_size c)" "pow2_size (cf_level_pool_size c)" "parse_args c args = Inr c'"
  shows "pow2_size (cf_order_pool_size c') \<and> pow2_size (cf_level_pool_size c')"
  using assms by (induction c args rule: parse_args.induct) (auto simp: is_pow2_size split: if_splits option.splits)

text \<open>
  Whenever the command line is accepted, both pool sizes are powers of two, the defaults or the last
  ones given; in particular neither pool is empty.
\<close>

lemma accepted_sizes:
  assumes "parse_args default_config args = Inr c"
  shows "(\<exists>k<64. cf_order_pool_size c = 2 ^ k) \<and> (\<exists>k<64. cf_level_pool_size c = 2 ^ k)"
proof -
  have "pow2_size (cf_order_pool_size default_config)" "pow2_size (cf_level_pool_size default_config)"
    by (auto simp: default_config_def kOrderPoolSize_def kPriceLevelPoolSize_def pow2_size_def
        intro: exI [of _ 24] exI [of _ 22])
  from parse_args_invariant [OF this assms] show ?thesis by (simp add: pow2_size_def)
qed

lemma accepted_sizes_example:
  "\<exists>c. parse_args default_config [''--level-pool-size'', ''8'', ''feed.bin''] = Inr c \<and> (\<exists>k<64. cf_level_pool_size c = 2 ^ k)"
proof -
  have "parse_args default_config [''--level-pool-size'', ''8'', ''feed.bin''] =
      Inr (default_config\<lparr>cf_level_pool_size := 8, cf_path := ''feed.bin''\<rparr>)"
    by (simp add: parse_size_def strtoull_def is_space_def is_digit_def digits_value_def is_pow2_def)
  with accepted_sizes [OF this] show ?thesis by blast
qed

text \<open>
  The size options accept negative numbers: \<open>strtoull\<close> negates them modulo \<open>2 ^ 64\<close>, and the test
  for a power of two passes for the negation of \<open>2 ^ 63\<close>, which asks for a pool of \<open>2 ^ 63\<close> orders.
\<close>

lemma negative_size_accepted:
  "parse_args default_config [''--order-pool-size'', ''-9223372036854775808'', ''feed.bin''] =
     Inr (default_config\<lparr>cf_order_pool_size := 2 ^ 63, cf_path := ''feed.bin''\<rparr>)"
  by (simp add: parse_size_def strtoull_def is_space_def is_digit_def digits_value_def is_pow2_def word_less_nat_alt)

lemma digit_not_sign: "is_digit c \<Longrightarrow> \<not> is_space c \<and> c \<noteq> CHR ''-'' \<and> c \<noteq> CHR ''+''"
  by (auto simp: is_digit_def is_space_def)

lemma parse_size_dec: "parse_size (dec n) = (if 0 < n \<and> n < 2 ^ 64 then Some (of_nat n) else None)"
proof -
  obtain d ds where d: "dec n = d # ds" by (meson dec_nonempty neq_Nil_conv)
  then have "is_digit d" using dec_digit [of d n] by simp
  note nd = digit_not_sign [OF this]
  have run: "takeWhile is_digit (dec n) = dec n" "dropWhile is_digit (dec n) = []"
    using takeWhile_dec [of "[]" n] by (simp_all add: stops_def)
  have "strtoull (dec n) = (if n \<ge> 2 ^ 64 then (- 1, [], True) else (of_nat n, [], False))"
  proof -
    have skip: "dropWhile is_space (dec n) = dec n" using nd by (simp add: d)
    have cases: "(dec n = []) = False" "(hd (dec n) = CHR ''-'') = False" "(hd (dec n) = CHR ''+'') = False" using nd by (simp_all add: d)
    show ?thesis unfolding strtoull_def Let_def skip cases simp_thms if_False run digits_value_dec ..
  qed
  moreover have "(of_nat n :: u64) = 0 \<longleftrightarrow> n = 0" if "n < 2 ^ 64"
    unfolding word_unat_eq_iff unat_of_nat64 [OF that] by simp
  ultimately show ?thesis by (auto simp: parse_size_def d)
qed

lemma parse_size_pow2:
  "(case parse_size (dec n) of None \<Rightarrow> x | Some v \<Rightarrow> if \<not> is_pow2 v then x else f v) = (if \<exists>k<64. n = 2 ^ k then f (of_nat n) else x)"
proof -
  have pow: "is_pow2 (of_nat n) \<longleftrightarrow> (\<exists>k<64. n = 2 ^ k)" if n: "n < 2 ^ 64"
  proof
    assume "is_pow2 (of_nat n)"
    then obtain k where "k < 64" "(of_nat n :: u64) = 2 ^ k" by (auto simp: is_pow2_size pow2_size_def)
    with unat_of_nat64 [OF n] unat_two_power [of k] show "\<exists>k<64. n = 2 ^ k" by auto
  qed (auto simp: is_pow2_size pow2_size_def)
  have big: "\<not> (\<exists>k<64. n = 2 ^ k)" if "\<not> n < 2 ^ 64"
    using that power_strict_increasing [of _ 64 "2 :: nat"] by auto
  show ?thesis
    using pow big by (cases "n < 2 ^ 64"; cases "n = 0") (auto simp: parse_size_dec is_pow2_def)
qed

text \<open>
  C40. The two pool size options on decimal numbers: the text of \<open>n\<close> is accepted exactly when \<open>n\<close> is a
  power of two below \<open>2 ^ 64\<close>, whatever its number of digits, and then sets the size of its own pool to
  \<open>n\<close> and nothing else; so the sizes that the program prints can be given back to it. Any other number
  stops the program with the message of its option.
\<close>

theorem size_option_decimal:
  "parse_args c (''--order-pool-size'' # dec n # rest) =
     (if \<exists>k<64. n = 2 ^ k then parse_args (c\<lparr>cf_order_pool_size := of_nat n\<rparr>) rest else Inl BadOrderPool) \<and>
   parse_args c (''--level-pool-size'' # dec n # rest) =
     (if \<exists>k<64. n = 2 ^ k then parse_args (c\<lparr>cf_level_pool_size := of_nat n\<rparr>) rest else Inl BadLevelPool)"
proof -
  have "parse_args c (''--order-pool-size'' # dec n # rest) =
      (case parse_size (dec n) of None \<Rightarrow> Inl BadOrderPool
       | Some v \<Rightarrow> if \<not> is_pow2 v then Inl BadOrderPool else parse_args (c\<lparr>cf_order_pool_size := v\<rparr>) rest)"
    "parse_args c (''--level-pool-size'' # dec n # rest) =
      (case parse_size (dec n) of None \<Rightarrow> Inl BadLevelPool
       | Some v \<Rightarrow> if \<not> is_pow2 v then Inl BadLevelPool else parse_args (c\<lparr>cf_level_pool_size := v\<rparr>) rest)"
    by (simp_all cong: option.case_cong if_cong)
  then show ?thesis unfolding parse_size_pow2 by blast
qed

section \<open>Diagnostics\<close>

lemma println_err_quiet:
  assumes "map_option field_specs (parse_format f) = Some specs" "list_all2 fits specs args"
  shows "\<exists>k'. println_err f args k = Some k' \<and> quiet k k'"
  using println_err_total [OF assms, of k] by (auto simp: quiet_def resources_of_def)

lemma message_fields:
  "map_option field_specs (parse_format ''[ITCHProcessor] config:'') = Some []"
  "map_option field_specs (parse_format ''  input             : {}'') = Some [plain_spec]"
  "map_option field_specs (parse_format ''  log path          : {}'') = Some [plain_spec]"
  "map_option field_specs (parse_format ''  order pool size   : {} slots ({:.1f} MB)'') =
     Some [plain_spec, plain_spec\<lparr>fs_prec := Some 1, fs_type := Some CHR ''f''\<rparr>]"
  "map_option field_specs (parse_format ''  level pool size   : {} slots ({:.1f} MB)'') =
     Some [plain_spec, plain_spec\<lparr>fs_prec := Some 1, fs_type := Some CHR ''f''\<rparr>]"
  "map_option field_specs (parse_format []) = Some []"
  "map_option field_specs (parse_format ''Error: --order-pool-size must be a power-of-two > 0'') = Some []"
  "map_option field_specs (parse_format ''Error: --level-pool-size must be a power-of-two > 0'') = Some []"
  "map_option field_specs (parse_format unknown_format) = Some [plain_spec]"
  "map_option field_specs (parse_format gzip_format) = Some [plain_spec]"
  "map_option field_specs (parse_format ''[ITCHProcessor] mmap({}) failed: {}'') = Some [plain_spec, plain_spec]"
  "map_option field_specs (parse_format ''[ITCHProcessor] parsing {} MiB from {}...'') = Some [plain_spec, plain_spec]"
  "map_option field_specs (parse_format ''[ITCHProcessor] parsing {} MiB fron {}...'') = Some [plain_spec, plain_spec]"
  "map_option field_specs (parse_format ''[ITCHProcessor] parse complete. Generating reports...'') = Some []"
  "map_option field_specs (parse_format ''[ITCHProcessor] generating matching engine report...'') = Some []"
  "map_option field_specs (parse_format ''[ITCHProcessor] done.'') = Some []"
  by code_simp+

lemma fits_megabytes: "fits (plain_spec\<lparr>fs_prec := Some 1, fs_type := Some CHR ''f''\<rparr>) (FDouble x)"
  by (simp add: fits_def plain_spec_def)

lemma usage_fields: "\<exists>ps. parse_format usage_format = Some ps \<and> field_specs ps = [plain_spec, plain_spec, plain_spec]"
proof -
  let ?specs = "[[plain_spec], [], [], [], [], [], [], [], [], [], [], [], [], [plain_spec], [plain_spec]]"
  have empty: "line_summary [] = Some ([], True)" by code_simp
  have "\<exists>ps. parse_format usage_format = Some ps \<and> field_specs ps = concat ?specs \<and> separated ps"
    unfolding usage_format_def
    by (intro text_lines_pieces list_all2_Cons [THEN iffD2] conjI list_all2_Nil [THEN iffD2] TrueI empty) code_simp+
  then show ?thesis by auto
qed

lemma print_usage_quiet: "\<exists>k'. print_usage argv0 k = Some k' \<and> quiet k k'"
proof -
  obtain ps where ps: "parse_format usage_format = Some ps" "field_specs ps = [plain_spec, plain_spec, plain_spec]"
    using usage_fields by blast
  show ?thesis unfolding print_usage_def by (rule println_err_quiet [of _ "[plain_spec, plain_spec, plain_spec]"]) (simp_all add: ps)
qed


lemma stop_program_exits:
  "\<exists>k'. stop_program argv0 stop k = Some (if stop = Help then EXIT_SUCCESS else EXIT_FAILURE, k') \<and> quiet k k'"
proof (cases stop)
  case Help
  then show ?thesis using print_usage_quiet [of argv0 k] by auto
next
  case BadOrderPool
  then show ?thesis using println_err_quiet [OF message_fields(7), of "[]" k] by auto
next
  case BadLevelPool
  then show ?thesis using println_err_quiet [OF message_fields(8), of "[]" k] by auto
next
  case (UnknownOption arg)
  obtain k1 where k1: "println_err unknown_format [FStr arg] k = Some k1" "quiet k k1"
    using println_err_quiet [OF message_fields(9), of "[FStr arg]" k] by auto
  obtain k2 where "print_usage argv0 k1 = Some k2" "quiet k1 k2" using print_usage_quiet by blast
  with k1 UnknownOption show ?thesis by (auto intro: quiet_trans)
qed

lemma print_config_quiet: "\<exists>k'. print_config c k = Some k' \<and> quiet k k'"
proof -
  note P = println_err_quiet
  have u: "fits plain_spec (unsigned_arg (n :: u64))" for n by (simp add: unsigned_arg_def)
  obtain k1 where 1: "println_err ''[ITCHProcessor] config:'' [] k = Some k1" "quiet k k1"
    using P [OF message_fields(1), of "[]" k] by auto
  obtain k2 where 2: "println_err ''  input             : {}'' [FStr (cf_path c)] k1 = Some k2" "quiet k1 k2"
    using P [OF message_fields(2), of "[FStr (cf_path c)]" k1] by auto
  obtain k3 where 3: "println_err ''  log path          : {}'' [FStr (cf_log_path c)] k2 = Some k3" "quiet k2 k3"
    using P [OF message_fields(3), of "[FStr (cf_log_path c)]" k2] by auto
  obtain k4 where 4: "println_err ''  order pool size   : {} slots ({:.1f} MB)''
      [unsigned_arg (cf_order_pool_size c), FDouble (megabytes (cf_order_pool_size c) sizeof_Order)] k3 = Some k4" "quiet k3 k4"
    using P [OF message_fields(4), of "[unsigned_arg (cf_order_pool_size c), FDouble (megabytes (cf_order_pool_size c) sizeof_Order)]" k3]
      u fits_megabytes by auto
  obtain k5 where 5: "println_err ''  level pool size   : {} slots ({:.1f} MB)''
      [unsigned_arg (cf_level_pool_size c), FDouble (megabytes (cf_level_pool_size c) sizeof_PriceLevel)] k4 = Some k5" "quiet k4 k5"
    using P [OF message_fields(5), of "[unsigned_arg (cf_level_pool_size c), FDouble (megabytes (cf_level_pool_size c) sizeof_PriceLevel)]" k4]
      u fits_megabytes by auto
  obtain k6 where 6: "println_err [] [] k5 = Some k6" "quiet k5 k6" using P [OF message_fields(6), of "[]" k5] by auto
  have "quiet k k6" using 1(2) 2(2) 3(2) 4(2) 5(2) 6(2) by (simp add: quiet_def)
  with 1 2 3 4 5 6 show ?thesis by (simp add: print_config_def)
qed

section \<open>The logger of a run\<close>

lemma logger_init_kLogCapacity: "\<exists>L. logger_init kLogCapacity = Some L \<and> \<not> lg_running L"
  by (simp add: logger_init_def kLogCapacity_def)

lemma logger_not_running: "\<not> lg_running (ls_log ls) \<Longrightarrow> logger_stop ls k = Some (ls, k)"
  by (simp add: logger_stop_def)

text \<open>Starting and stopping opens and closes one descriptor, or nothing when the open fails.\<close>

lemma logger_session:
  assumes stopped: "\<not> lg_running (ls_log ls)" and fresh: "an_open a \<ge> 0 \<longrightarrow> an_open a \<notin> k_fds k"
    and start: "logger_start path a ls k = (ls1, k1)" and between: "quiet k1 k2"
  shows "\<exists>ls2 k3. logger_stop ls1 k2 = Some (ls2, k3) \<and> \<not> lg_running (ls_log ls2) \<and> quiet k k3" "k_out k1 = k_out k" "k_maps k1 = k_maps k"
    "an_open a < 0 \<longrightarrow> k_fds k1 = k_fds k" "an_open a \<ge> 0 \<longrightarrow> k_fds k1 = insert (an_open a) (k_fds k)"
  using assms
  by (auto simp: logger_start_def logger_stop_def log_start_def log_stop_def log_join_def on_log_def sys_open_def sys_close_def
      quiet_def resources_of_def Let_def split: if_splits option.splits)

text \<open>Nothing is logged, so whatever the drain thread does in between, it writes nothing.\<close>

definition idle :: "log_system \<Rightarrow> bool" where
  "idle ls \<longleftrightarrow> set (ls_heads ls) \<subseteq> {lg_tail (ls_log ls)} \<and> ls_file ls = [] \<and> ls_cons ls \<in> {CNone, CTop, CDone} \<union> range CLoad"

lemma idle_drain: "drain_step ls ls' \<Longrightarrow> idle ls \<Longrightarrow> idle ls'"
  by (elim drain_stepE)
    (auto simp: idle_def drain_test_def see_heads_def drain_load_def Let_def split: prod.splits dest!: in_set_dropD dest: nth_mem)

lemma idle_logger_writes_nothing:
  assumes "logger_init kLogCapacity = Some L" "logger_start path a (log_system_init L) k = (ls, k')" "drain_step\<^sup>*\<^sup>* ls ls'"
  shows "ls_file ls' = []" "idle (log_join (log_stop n ls'))"
proof -
  have "idle ls" using assms(1,2)
    by (auto simp: idle_def logger_start_def log_start_def log_system_init_def logger_init_def on_log_def Let_def split: if_splits)
  with assms(3) have i: "idle ls'" by (induction rule: rtranclp_induct) (auto intro: idle_drain)
  then show "ls_file ls' = []" by (simp add: idle_def)
  from i show "idle (log_join (log_stop n ls'))" by (auto simp: idle_def log_join_def log_stop_def on_log_def)
qed

section \<open>Whole runs\<close>

text \<open>
  The block of each pool has a size below \<open>2 ^ 64\<close>, and, by the sizes as the code computes them, both can be
  allocated.
\<close>

definition pools_fit :: "config \<Rightarrow> bool" where
  "pools_fit c \<longleftrightarrow> unat (cf_order_pool_size c) * 64 < 2 ^ 64 \<and> unat (cf_level_pool_size c) * 56 < 2 ^ 64"

definition memory_ok :: "environment \<Rightarrow> config \<Rightarrow> bool" where
  "memory_ok env c \<longleftrightarrow> ev_alloc env (cf_order_pool_size c * 64) \<and> ev_alloc env (cf_level_pool_size c * 56)"

lemma engine_of_config:
  "pools_fit c \<Longrightarrow> MatchingEngine_new (ev_alloc env) (cf_order_pool_size c) (cf_level_pool_size c) =
     Some (if memory_ok env c then Some (MatchingEngine_init (unat (cf_order_pool_size c)) (unat (cf_level_pool_size c))) else None)"
  "memory_ok env c \<Longrightarrow> \<not> pools_fit c \<Longrightarrow>
     MatchingEngine_new (ev_alloc env) (cf_order_pool_size c) (cf_level_pool_size c) = None"
  by (simp_all add: MatchingEngine_new_eq pools_fit_def memory_ok_def pool_fits_def)

text \<open>
  What the environment promises: the answers for the input are those of POSIX for a process with the
  resources of \<open>k\<close>, the descriptor of the log file is not open, and a mapping has as many bytes as it
  is long.
\<close>

definition environment_ok :: "environment \<Rightarrow> string \<Rightarrow> string \<Rightarrow> kernel \<Rightarrow> bool" where
  "environment_ok env path log_path k \<longleftrightarrow>
     posix [0 \<mapsto> resources_of k] (ev_open env path) \<and>
     (an_open (ev_log env log_path) \<ge> 0 \<longrightarrow> an_open (ev_log env log_path) \<notin> insert (an_open (ev_open env path)) (k_fds k)) \<and>
     (\<forall>p n. length (ev_contents env p n) = unat n)"

text \<open>The bytes of the input, when it can be opened and mapped.\<close>

definition input_bytes :: "environment \<Rightarrow> string \<Rightarrow> byte list option" where
  "input_bytes env path =
     (case (an_fstat (ev_open env path), an_mmap (ev_open env path)) of
        (Inr (regular, st_size), Inr p) \<Rightarrow>
          if an_open (ev_open env path) \<ge> 0 \<and> regular \<and> st_size > 0 then Some (ev_contents env p (of_int st_size)) else None
      | _ \<Rightarrow> None)"

lemma input_opened: "input_bytes env path = None \<longleftrightarrow> opened (ev_open env path) = None"
  by (auto simp: input_bytes_def opened_def split: sum.splits prod.splits)

lemma open_input:
  assumes env: "environment_ok env path log_path k" and buf: "input_bytes env path = Some buf"
  shows "\<exists>f p. open_file path (ev_open env path) k =
      Some (Inr f, k\<lparr>k_fds := insert (an_open (ev_open env path)) (k_fds k), k_maps := insert (p, mf_size f) (k_maps k)\<rparr>) \<and>
    owned_by f = ({an_open (ev_open env path)}, {(p, mf_size f)}) \<and> mf_data f = Some p \<and>
    buf = ev_contents env p (mf_size f) \<and> an_open (ev_open env path) \<notin> k_fds k \<and> (p, mf_size f) \<notin> k_maps k"
proof -
  let ?a = "ev_open env path"
  from env have px: "posix [0 \<mapsto> resources_of k] ?a" by (simp add: environment_ok_def)
  from buf obtain p st_size where a: "an_fstat ?a = Inr (True, st_size)" "an_mmap ?a = Inr p" "an_open ?a \<ge> 0" "st_size > 0"
    "buf = ev_contents env p (of_int st_size)"
    by (auto simp: input_bytes_def split: sum.splits prod.splits if_splits)
  then have op: "opened ?a = Some ({an_open ?a}, {(p, of_int st_size)})" by (simp add: opened_def)
  from open_file_init [OF px, of k path] op obtain f where
    f: "open_file path ?a k = Some (Inr f, k\<lparr>k_fds := k_fds k \<union> {an_open ?a}, k_maps := k_maps k \<union> {(p, of_int st_size)}\<rparr>)"
    "owned_by f = ({an_open ?a}, {(p, of_int st_size)})" by (auto simp: resources_of_def)
  then have "mf_data f = Some p" "mf_size f = of_int st_size" by (auto simp: owned_by_def split: option.splits)
  moreover have "an_open ?a \<notin> k_fds k" "(p, of_int st_size) \<notin> k_maps k"
    using px a by (auto simp: posix_def resources_of_def)
  ultimately show ?thesis using f a(5) by (intro exI [of _ f] exI [of _ p]) simp
qed

lemma parse_file_records:
  assumes "records oc lc e a" "all_admissible (spec_step oc lc) event_ok (fst a) (events buf)"
    and "mf_data f = Some p" "buf = ev_contents env p (mf_size f)" "length buf = unat (mf_size f)"
  shows "\<exists>e'. parse_file env f e s =
      Some (e', finish (ev_finished env) (foldl frame_stats (reset_stats (ev_started env) s) (frames buf))) \<and>
    records oc lc e' (foldl (feed_step oc lc) a (events buf))"
proof -
  from records_run [OF assms(1,2)] obtain e' where
    e': "exec_list engine_step e (events buf) = Some e'" "records oc lc e' (foldl (feed_step oc lc) a (events buf))" by blast
  then have "run (ev_little_endian env) buf (length buf) e (reset_stats (ev_started env) s) =
      Some (frames_size (frames buf), e', foldl frame_stats (reset_stats (ev_started env) s) (frames buf))"
    by (simp add: run_def run_from_refines frame_steps_split flip: events_def)
  with e'(2) assms(3-5) show ?thesis by (simp add: parse_file_def)
qed

lemma destroy_opened:
  assumes f: "owned_by f = ({fd}, {(p, n)})" and fresh: "fd \<notin> F" "(p, n) \<notin> M"
    and k: "resources_of k = (insert fd F, insert (p, n) M)"
  shows "\<exists>k'. destroy_file (fst (move_construct f)) k = Some k' \<and> destroy_file (snd (move_construct f)) k' = Some k' \<and>
    resources_of k' = (F, M) \<and> k_out k' = k_out k"
proof -
  have "fst (owned_by (fst (move_construct f))) \<subseteq> k_fds k" "snd (owned_by (fst (move_construct f))) \<subseteq> k_maps k"
    using k f by (auto simp: move_construct_owner resources_of_def)
  from destroy_owned [OF this] have "destroy_file (fst (move_construct f)) k = Some (k\<lparr>k_fds := F, k_maps := M\<rparr>)"
    using k f fresh by (auto simp: move_construct_owner resources_of_def)
  with destroy_empty [OF move_construct_owner(2) [of f]] show ?thesis
    by (simp add: resources_of_def)
qed

lemma process_input_reports:
  assumes eng: "records oc lc e a" "oc < 2 ^ 32" "all_admissible (spec_step oc lc) event_ok (fst a) (events buf)"
    and f: "mf_data f = Some p" "buf = ev_contents env p (mf_size f)" "length buf = unat (mf_size f)"
    and ls: "\<not> lg_running (ls_log ls)"
    and log: "an_open (ev_log env (cf_log_path c)) \<ge> 0 \<longrightarrow> an_open (ev_log env (cf_log_path c)) \<notin> k_fds k"
    and s: "s = finish (ev_finished env) (foldl frame_stats (reset_stats (ev_started env) Stats_init) (frames buf))"
  shows "\<exists>ls' k' vs rows out. process_input env c f e ls k = Some (ls', k') \<and> \<not> lg_running (ls_log ls') \<and>
    resources_of k' = resources_of k \<and> k_out k' = k_out k @ out \<and> stdout_of s ''-'' vs rows = Some out \<and>
    reports oc lc (foldl (feed_step oc lc) a (events buf)) vs rows"
proof -
  note P = println_err_quiet
  define k0 where "k0 = advise_sequential (ev_hugepages env) f k"
  have q0: "quiet k k0" by (simp add: k0_def advise_quiet)
  obtain ls1 k1 where 1: "logger_start (cf_log_path c) (ev_log env (cf_log_path c)) ls k0 = (ls1, k1)" by fastforce
  obtain k2 where 2: "println_err ''[ITCHProcessor] parsing {} MiB from {}...''
      [unsigned_arg (mf_size f div 1048576), FStr (cf_path c)] k1 = Some k2" "quiet k1 k2"
    using P [OF message_fields(12), of "[unsigned_arg (mf_size f div 1048576), FStr (cf_path c)]" k1] by (auto simp: unsigned_arg_def)
  from parse_file_records [where s = Stats_init, OF eng(1,3) f] obtain e' where
    e': "parse_file env f e Stats_init = Some (e', s)" "records oc lc e' (foldl (feed_step oc lc) a (events buf))"
    unfolding s by blast
  have "an_open (ev_log env (cf_log_path c)) \<ge> 0 \<longrightarrow> an_open (ev_log env (cf_log_path c)) \<notin> k_fds k0"
    using log q0 by (simp add: quiet_def resources_of_def)
  from logger_session(1) [OF ls this 1 2(2)] obtain ls3 k3 where
    3: "logger_stop ls1 k2 = Some (ls3, k3)" "\<not> lg_running (ls_log ls3)" "quiet k0 k3" by blast
  obtain k4 where 4: "println_err ''[ITCHProcessor] parse complete. Generating reports...'' [] k3 = Some k4" "quiet k3 k4"
    using P [OF message_fields(14), of "[]" k3] by auto
  from records_report [OF e'(2) eng(2), of "''-''" s] obtain vs rows t t' where
    r: "reports oc lc (foldl (feed_step oc lc) a (events buf)) vs rows" "print_report s = Some t"
      "engine_report_text ''-'' e' = Some t'" "stdout_of s ''-'' vs rows = Some (t @ t')" by auto
  let ?k5 = "k4\<lparr>k_out := k_out k4 @ t\<rparr>"
  obtain k6 where 6: "println_err ''[ITCHProcessor] generating matching engine report...'' [] ?k5 = Some k6" "quiet ?k5 k6"
    using P [OF message_fields(15), of "[]" ?k5] by auto
  let ?k7 = "k6\<lparr>k_out := k_out k6 @ t'\<rparr>"
  obtain k8 where 8: "println_err ''[ITCHProcessor] done.'' [] ?k7 = Some k8" "quiet ?k7 k8"
    using P [OF message_fields(16), of "[]" ?k7] by auto
  have "process_input env c f e ls k = Some (ls3, k8)"
    using 1 2(1) e'(1) 3(1) 4(1) r(2,3) 6(1) 8(1) by (simp add: process_input_def k0_def [symmetric] print_out_def)
  moreover have "resources_of k8 = resources_of k" "k_out k8 = k_out k @ t @ t'"
    using q0 3(3) 4(2) 6(2) 8(2) by (simp_all add: quiet_def resources_of_def)
  ultimately show ?thesis using 3(2) r(1,4) by blast
qed

text \<open>
  C3. The program on a readable file: the order pool has less than \<open>2 ^ 32\<close> slots, the blocks of both pools
  have sizes below \<open>2 ^ 64\<close> bytes and can be allocated, and the events of the file are admissible (no
  sentinel price, never a new order on a side with 8192 price levels). Then \<open>main\<close> exits with success,
  has closed and unmapped all that it opened, and its output is the text of two reports: of the statistics
  of the file's frames, and of an engine whose pools agree with its counters. The first thirty of its 32
  values, all but the two about the inside of the order index, are those of the specification run on the
  file's events: every counter, free slots, live orders and levels and their peaks. The rows are those of
  the first ten instruments with live orders in the order of their locates: the symbol of the directory
  message, the best prices, the shares at these prices and the number of orders that the abstract queues
  have.
\<close>

theorem main_reports:
  assumes args: "parse_args default_config args = Inr c" "cf_path c \<noteq> []" "\<not> suffix ''.gz'' (cf_path c)"
    and env: "environment_ok env (cf_path c) (cf_log_path c) k" and readable: "input_bytes env (cf_path c) = Some buf"
    and pool: "cf_order_pool_size c < 2 ^ 32" "pools_fit c" "memory_ok env c"
    and caps: "oc = unat (cf_order_pool_size c)" "lc = unat (cf_level_pool_size c)"
    and ok: "all_admissible (spec_step oc lc) event_ok no_orders (events buf)"
  shows "\<exists>k' vs rows out. main_program env args k = Some (EXIT_SUCCESS, k') \<and> resources_of k' = resources_of k \<and>
    k_out k' = k_out k @ out \<and>
    stdout_of (finish (ev_finished env) (foldl frame_stats (reset_stats (ev_started env) Stats_init) (frames buf))) ''-'' vs rows = Some out \<and>
    reports oc lc (foldl (feed_step oc lc) fresh (events buf)) vs rows"
proof -
  let ?a = "ev_open env (cf_path c)" and ?e = "MatchingEngine_init oc lc"
  have bounds: "oc < 2 ^ 32" "lc < 2 ^ 64"
    using pool(1) unsigned_less [of "cf_level_pool_size c", where 'a = nat] caps by (simp_all add: word_less_nat_alt)
  obtain k1 where k1: "print_config c k = Some k1" "quiet k k1" using print_config_quiet by blast
  obtain L where L: "logger_init kLogCapacity = Some L" "\<not> lg_running L" using logger_init_kLogCapacity by blast
  have env1: "environment_ok env (cf_path c) (cf_log_path c) k1"
    using env k1(2) by (simp add: environment_ok_def quiet_def resources_of_def)
  from open_input [OF env1 readable] obtain f p where f: "open_file (cf_path c) ?a k1 =
      Some (Inr f, k1\<lparr>k_fds := insert (an_open ?a) (k_fds k1), k_maps := insert (p, mf_size f) (k_maps k1)\<rparr>)"
    "owned_by f = ({an_open ?a}, {(p, mf_size f)})" "mf_data f = Some p" "buf = ev_contents env p (mf_size f)"
    "an_open ?a \<notin> k_fds k1" "(p, mf_size f) \<notin> k_maps k1" by blast
  let ?k2 = "k1\<lparr>k_fds := insert (an_open ?a) (k_fds k1), k_maps := insert (p, mf_size f) (k_maps k1)\<rparr>"
  let ?f = "fst (move_construct f)"
  have f': "mf_data ?f = Some p" "buf = ev_contents env p (mf_size ?f)" "length buf = unat (mf_size ?f)"
    using f(3,4) env by (simp_all add: move_construct_def environment_ok_def)
  have log: "an_open (ev_log env (cf_log_path c)) \<ge> 0 \<longrightarrow> an_open (ev_log env (cf_log_path c)) \<notin> k_fds ?k2"
    using env1 by (simp add: environment_ok_def)
  have ls: "\<not> lg_running (ls_log (log_system_init L))" using L(2) by (simp add: log_system_init_def)
  have adm: "all_admissible (spec_step oc lc) event_ok (fst fresh) (events buf)" using ok by (simp add: fresh_def)
  from process_input_reports [OF records_init [OF bounds] bounds(1) adm f' ls log refl] obtain ls3 k3 vs rows out where
    p3: "process_input env c ?f ?e (log_system_init L) ?k2 = Some (ls3, k3)" "\<not> lg_running (ls_log ls3)"
      "resources_of k3 = resources_of ?k2" "k_out k3 = k_out ?k2 @ out"
      "stdout_of (finish (ev_finished env) (foldl frame_stats (reset_stats (ev_started env) Stats_init) (frames buf))) ''-'' vs rows = Some out"
      "reports oc lc (foldl (feed_step oc lc) fresh (events buf)) vs rows" by blast
  have "resources_of k3 = (insert (an_open ?a) (k_fds k1), insert (p, mf_size f) (k_maps k1))"
    using p3(3) by (simp add: resources_of_def)
  from destroy_opened [OF f(2,5,6) this] obtain k4 where
    k4: "destroy_file ?f k3 = Some k4" "destroy_file (snd (move_construct f)) k4 = Some k4"
      "resources_of k4 = (k_fds k1, k_maps k1)" "k_out k4 = k_out k3" by blast
  have "main_program env args k = Some (EXIT_SUCCESS, k4)"
    using args k1(1) L(1) f(1) p3(1) k4(1,2) logger_not_running [OF p3(2)] caps engine_of_config(1) [OF pool(2), of env] pool(3)
    by (simp add: main_program_def Let_def case_prod_beta)
  moreover have "resources_of k4 = resources_of k" "k_out k4 = k_out k @ out"
    using k4(3,4) k1(2) p3(4) by (simp_all add: quiet_def resources_of_def)
  ultimately show ?thesis using p3(5,6) by blast
qed

text \<open>
  C38. The runs of \<open>main\<close> that process no file. A command line that is rejected or asks for help, that names
  no file, or that, with pool blocks of less than \<open>2 ^ 64\<close> bytes, names a compressed file or one that can
  not be opened and mapped, or asks for pools that can not be allocated: the program ends with failure
  (with success for help, aborted for want of memory), has printed nothing on its output, and holds no
  descriptor or mapping. But when the size of a pool's block wraps at 64 bits and the wrapped size is
  allocated, the constructor writes outside the block, and the run is undefined.
\<close>

theorem main_failures:
  assumes env: "\<And>path log_path. environment_ok env path log_path k"
  shows "case parse_args default_config args of
      Inl stop \<Rightarrow> \<exists>k'. main_program env args k = Some (if stop = Help then EXIT_SUCCESS else EXIT_FAILURE, k') \<and> quiet k k'
    | Inr c \<Rightarrow>
        (cf_path c = [] \<or> pools_fit c \<and> (\<not> memory_ok env c \<or> suffix ''.gz'' (cf_path c) \<or> input_bytes env (cf_path c) = None) \<longrightarrow>
          (\<exists>k'. main_program env args k =
              Some (if cf_path c \<noteq> [] \<and> \<not> memory_ok env c then ABORTED else EXIT_FAILURE, k') \<and> quiet k k')) \<and>
        (cf_path c \<noteq> [] \<and> memory_ok env c \<and> \<not> pools_fit c \<longrightarrow> main_program env args k = None)"
proof (cases "parse_args default_config args")
  case (Inl stop)
  then show ?thesis using stop_program_exits [of "ev_program env" stop k] by (auto simp: main_program_def)
next
  case (Inr c)
  obtain k1 where k1: "print_config c k = Some k1" "quiet k k1" using print_config_quiet by blast
  obtain L where L: "logger_init kLogCapacity = Some L" "\<not> lg_running (ls_log (log_system_init L))"
    using logger_init_kLogCapacity by (auto simp: log_system_init_def)
  note stop = logger_not_running [OF L(2)] and main = main_program_def Inr Let_def
  have "\<exists>k'. main_program env args k = Some (if cf_path c \<noteq> [] \<and> \<not> memory_ok env c then ABORTED else EXIT_FAILURE, k') \<and> quiet k k'"
    if fails: "cf_path c = [] \<or> pools_fit c \<and> (\<not> memory_ok env c \<or> suffix ''.gz'' (cf_path c) \<or> input_bytes env (cf_path c) = None)"
  proof (cases "cf_path c = []")
    case True
    with print_usage_quiet [of "ev_program env" k] show ?thesis by (auto simp: main)
  next
    case False
    with fails have fit: "pools_fit c" by simp
    note engine = engine_of_config(1) [OF fit, of env]
    show ?thesis
    proof (cases "memory_ok env c")
      case False
      with \<open>cf_path c \<noteq> []\<close> k1 L(1) engine show ?thesis by (simp add: main)
    next
      case mem: True
      show ?thesis
      proof (cases "suffix ''.gz'' (cf_path c)")
        case True
        obtain k2 where "println_err gzip_format [FStr (cf_path c)] k1 = Some k2" "quiet k1 k2"
          using println_err_quiet [OF message_fields(10), of "[FStr (cf_path c)]" k1] by auto
        with True False mem engine k1 L(1) stop show ?thesis by (auto simp: main intro: quiet_trans)
      next
        case gz: False
        with fails False mem have none: "opened (ev_open env (cf_path c)) = None" by (simp add: input_opened)
        have px: "posix [0 \<mapsto> resources_of k1] (ev_open env (cf_path c))"
          using env [of "cf_path c"] k1(2) by (simp add: environment_ok_def quiet_def)
        have "k_fds k1 = (\<Union>r\<in>ran [0 \<mapsto> resources_of k1]. fst r)" by (simp add: resources_of_def)
        from open_file_init [OF px this, of "cf_path c"] none obtain ec k2 where
          k2: "open_file (cf_path c) (ev_open env (cf_path c)) k1 = Some (Inl ec, k2)" "quiet k1 k2" by auto
        obtain k3 where k3: "println_err ''[ITCHProcessor] mmap({}) failed: {}'' [FStr (cf_path c), FStr (ev_message env ec)] k2 = Some k3" "quiet k2 k3"
          using println_err_quiet [OF message_fields(11), of "[FStr (cf_path c), FStr (ev_message env ec)]" k2] by auto
        have "quiet k k3" using k1(2) k2(2) k3(2) by (blast intro: quiet_trans)
        with k1(1) k2(1) k3(1) L(1) stop gz False mem engine show ?thesis by (simp add: main)
      qed
    qed
  qed
  moreover have "main_program env args k = None" if "cf_path c \<noteq> []" "memory_ok env c" "\<not> pools_fit c"
    using that k1(1) L(1) engine_of_config(2) [OF that(2,3)] by (simp add: main)
  ultimately show ?thesis using Inr by simp
qed

section \<open>Two runs of a processor\<close>

lemma reset_stats_init: "reset_stats t s = reset_stats t Stats_init"
  by (cases s) (simp add: reset_stats_def Stats_init_def)

definition processor_ok :: "string \<Rightarrow> ITCHProcessor \<Rightarrow> view \<times> ledger \<Rightarrow> bool" where
  "processor_ok log_path ip a \<longleftrightarrow> ip_log_path ip = log_path \<and> \<not> lg_running (ls_log (ip_logger ip)) \<and>
     records kOrderPoolSize kPriceLevelPoolSize (ip_engine ip) a"

abbreviation processor_spec :: "view \<Rightarrow> event \<Rightarrow> view" where
  "processor_spec \<equiv> spec_step kOrderPoolSize kPriceLevelPoolSize"

abbreviation processor_feed :: "view \<times> ledger \<Rightarrow> event \<Rightarrow> view \<times> ledger" where
  "processor_feed \<equiv> feed_step kOrderPoolSize kPriceLevelPoolSize"

lemma pool_sizes: "kOrderPoolSize < 2 ^ 32" "kPriceLevelPoolSize < 2 ^ 64"
  by (simp_all add: kOrderPoolSize_def kPriceLevelPoolSize_def)

lemma new_engine:
  "MatchingEngine_new alloc (of_nat kOrderPoolSize) (of_nat kPriceLevelPoolSize) =
     Some (if alloc (2 ^ 30) \<and> alloc (7 * 2 ^ 25) then Some (MatchingEngine_init kOrderPoolSize kPriceLevelPoolSize) else None)"
  by (simp add: MatchingEngine_new_eq pool_fits_def kOrderPoolSize_def kPriceLevelPoolSize_def)

lemma processor_run_ok:
  assumes ip: "processor_ok log_path ip a" and env: "environment_ok env path log_path k" and buf: "input_bytes env path = Some buf"
    and ok: "all_admissible processor_spec event_ok (fst a) (events buf)"
  shows "\<exists>ip' k' vs rows out. processor_run env path ip k = Some (True, ip', k') \<and>
    processor_ok log_path ip' (foldl processor_feed a (events buf)) \<and>
    ip_stats ip' = finish (ev_finished env) (foldl frame_stats (reset_stats (ev_started env) Stats_init) (frames buf)) \<and>
    resources_of k' = resources_of k \<and> k_out k' = k_out k @ out \<and> stdout_of (ip_stats ip') em_dash vs rows = Some out \<and>
    reports kOrderPoolSize kPriceLevelPoolSize (foldl processor_feed a (events buf)) vs rows"
proof -
  let ?a = "ev_open env path"
  from ip have I: "ip_log_path ip = log_path" "\<not> lg_running (ls_log (ip_logger ip))"
    "records kOrderPoolSize kPriceLevelPoolSize (ip_engine ip) a" by (simp_all add: processor_ok_def)
  from open_input [OF env buf] obtain f p where f: "open_file path ?a k =
      Some (Inr f, k\<lparr>k_fds := insert (an_open ?a) (k_fds k), k_maps := insert (p, mf_size f) (k_maps k)\<rparr>)"
    "owned_by f = ({an_open ?a}, {(p, mf_size f)})" "mf_data f = Some p" "buf = ev_contents env p (mf_size f)"
    "an_open ?a \<notin> k_fds k" "(p, mf_size f) \<notin> k_maps k" by blast
  let ?k0 = "k\<lparr>k_fds := insert (an_open ?a) (k_fds k), k_maps := insert (p, mf_size f) (k_maps k)\<rparr>"
  let ?f = "fst (move_construct f)" and ?m = "snd (move_construct f)"
  have f': "mf_data ?f = Some p" "buf = ev_contents env p (mf_size ?f)" "length buf = unat (mf_size ?f)"
    using f(3,4) env by (simp_all add: move_construct_def environment_ok_def)
  define k1 where "k1 = advise_sequential (ev_hugepages env) ?f ?k0"
  have q1: "quiet ?k0 k1" by (simp add: k1_def advise_quiet)
  obtain ls2 k2 where 2: "logger_start log_path (ev_log env log_path) (ip_logger ip) k1 = (ls2, k2)" by fastforce
  obtain k3 where 3: "println_err ''[ITCHProcessor] parsing {} MiB fron {}...'' [unsigned_arg (mf_size ?f div 1048576), FStr path] k2 = Some k3"
    "quiet k2 k3"
    using println_err_quiet [OF message_fields(13), of "[unsigned_arg (mf_size ?f div 1048576), FStr path]" k2] by (auto simp: unsigned_arg_def)
  let ?s = "finish (ev_finished env) (foldl frame_stats (reset_stats (ev_started env) Stats_init) (frames buf))"
  from parse_file_records [where s = "ip_stats ip", OF I(3) ok f'] obtain e where
    e: "parse_file env ?f (ip_engine ip) (ip_stats ip) = Some (e, ?s)"
      "records kOrderPoolSize kPriceLevelPoolSize e (foldl processor_feed a (events buf))"
    unfolding reset_stats_init [of _ "ip_stats ip"] by blast
  have "an_open (ev_log env log_path) \<ge> 0 \<longrightarrow> an_open (ev_log env log_path) \<notin> k_fds k1"
    using env q1 by (simp add: environment_ok_def quiet_def resources_of_def)
  from logger_session(1) [OF I(2) this 2 3(2)] obtain ls4 k4 where
    4: "logger_stop ls2 k3 = Some (ls4, k4)" "\<not> lg_running (ls_log ls4)" "quiet k1 k4" by blast
  from records_report [OF e(2) pool_sizes(1), of em_dash ?s] obtain vs rows t t' where
    r: "reports kOrderPoolSize kPriceLevelPoolSize (foldl processor_feed a (events buf)) vs rows" "print_report ?s = Some t"
      "engine_report_text em_dash e = Some t'" "stdout_of ?s em_dash vs rows = Some (t @ t')" by auto
  let ?k5 = "k4\<lparr>k_out := k_out k4 @ t @ t'\<rparr>"
  have "resources_of ?k5 = (insert (an_open ?a) (k_fds k), insert (p, mf_size f) (k_maps k))"
    using q1 4(3) by (simp add: quiet_def resources_of_def)
  from destroy_opened [OF f(2,5,6) this] obtain k6 where
    6: "destroy_file ?f ?k5 = Some k6" "destroy_file ?m k6 = Some k6" "resources_of k6 = (k_fds k, k_maps k)" "k_out k6 = k_out ?k5" by blast
  let ?ip = "ip\<lparr>ip_logger := ls4, ip_engine := e, ip_stats := ?s\<rparr>"
  have "processor_run env path ip k = Some (True, ?ip, k6)"
    using f(1) 2 3(1) e(1) 4(1) r(2,3) 6(1,2) I(1)
    by (simp add: processor_run_def case_prod_beta Let_def k1_def [symmetric] print_out_def print_engine_report_def)
  moreover have "processor_ok log_path ?ip (foldl processor_feed a (events buf))"
    using I(1) 4(2) e(2) by (simp add: processor_ok_def)
  moreover have "resources_of k6 = resources_of k" "k_out k6 = k_out k @ t @ t'"
    using 6(3,4) q1 4(3) by (simp_all add: resources_of_def quiet_def)
  moreover have "ip_stats ?ip = ?s" by simp
  ultimately show ?thesis using r(1,4) by metis
qed

text \<open>
  C5. An \<open>ITCHProcessor\<close> whose pools could be allocated, run on two readable files one after the other,
  all events of both being admissible one after the other: the engine goes on with the books and the
  counters of the first, so that the second report is about the events of both files, while the statistics
  are those of the second file alone. After each run the process holds the descriptors and mappings it
  held before, and the destructor has nothing left to do.
\<close>

theorem processor_accumulates:
  assumes ip: "ITCHProcessor_init alloc log_path = Some (Some ip)"
    and env: "environment_ok env path log_path k" "environment_ok env' path' log_path k"
    and buf: "input_bytes env path = Some buf" "input_bytes env' path' = Some buf'"
    and ok: "all_admissible processor_spec event_ok no_orders (events buf @ events buf')"
  shows "\<exists>ip1 k1 ip2 k2 vs rows out out'. processor_run env path ip k = Some (True, ip1, k1) \<and>
    processor_run env' path' ip1 k1 = Some (True, ip2, k2) \<and>
    records kOrderPoolSize kPriceLevelPoolSize (ip_engine ip2) (foldl processor_feed fresh (events buf @ events buf')) \<and>
    ip_stats ip2 = finish (ev_finished env') (foldl frame_stats (reset_stats (ev_started env') Stats_init) (frames buf')) \<and>
    k_out k2 = k_out k @ out @ out' \<and> stdout_of (ip_stats ip2) em_dash vs rows = Some out' \<and>
    reports kOrderPoolSize kPriceLevelPoolSize (foldl processor_feed fresh (events buf @ events buf')) vs rows \<and>
    resources_of k1 = resources_of k \<and> resources_of k2 = resources_of k \<and> processor_destroy ip2 k2 = Some k2"
proof -
  have adm: "all_admissible processor_spec event_ok (fst fresh) (events buf)"
    "all_admissible processor_spec event_ok (fst (foldl processor_feed fresh (events buf))) (events buf')"
    using ok by (simp_all add: all_admissible_append fst_feed fresh_def)
  have "processor_ok log_path ip fresh"
    using ip logger_init_kLogCapacity records_init [OF pool_sizes] new_engine
    by (auto simp: ITCHProcessor_init_def processor_ok_def log_system_init_def split: if_splits)
  from processor_run_ok [OF this env(1) buf(1) adm(1)] obtain ip1 k1 out where
    1: "processor_run env path ip k = Some (True, ip1, k1)" "processor_ok log_path ip1 (foldl processor_feed fresh (events buf))"
      "resources_of k1 = resources_of k" "k_out k1 = k_out k @ out" by blast
  have "environment_ok env' path' log_path k1" using env(2) 1(3) by (simp add: environment_ok_def resources_of_def)
  from processor_run_ok [OF 1(2) this buf(2) adm(2)] obtain ip2 k2 vs rows out' where
    2: "processor_run env' path' ip1 k1 = Some (True, ip2, k2)"
      "processor_ok log_path ip2 (foldl processor_feed (foldl processor_feed fresh (events buf)) (events buf'))"
      "ip_stats ip2 = finish (ev_finished env') (foldl frame_stats (reset_stats (ev_started env') Stats_init) (frames buf'))"
      "resources_of k2 = resources_of k1" "k_out k2 = k_out k1 @ out'" "stdout_of (ip_stats ip2) em_dash vs rows = Some out'"
      "reports kOrderPoolSize kPriceLevelPoolSize (foldl processor_feed (foldl processor_feed fresh (events buf)) (events buf')) vs rows" by blast
  from 2(2) have "processor_destroy ip2 k2 = Some k2" by (simp add: processor_destroy_def processor_ok_def logger_not_running)
  with 1 2 show ?thesis by (simp add: processor_ok_def) blast
qed

section \<open>Examples\<close>

text \<open>An environment whose input is a given file, with descriptor 3, mapped at 4096; the log gets descriptor 4.\<close>

definition demo_env :: "byte list \<Rightarrow> environment" where
  "demo_env file =
     \<lparr>ev_program = ''itch'',
      ev_open = (\<lambda>_. demo_answers\<lparr>an_fstat := Inr (True, int (length file))\<rparr>),
      ev_contents = (\<lambda>p n. take (unat n) (file @ replicate (unat n) 0)),
      ev_log = (\<lambda>_. demo_answers\<lparr>an_open := 4\<rparr>),
      ev_message = (\<lambda>_. []),
      ev_alloc = (\<lambda>n. n \<le> 2 ^ 31),
      ev_started = 0, ev_finished = 1, ev_little_endian = True, ev_hugepages = True\<rparr>"

lemma demo_env_ok:
  assumes "0 < length file" "length file < 2 ^ 63"
  shows "environment_ok (demo_env file) path log_path kernel_init" "input_bytes (demo_env file) path = Some file"
proof -
  have "unat (of_nat (length file) :: u64) = length file" using assms by (intro unat_of_nat64) simp
  then show "input_bytes (demo_env file) path = Some file"
    using assms by (simp add: input_bytes_def demo_env_def demo_answers_def)
  have "int (length file) < 2 ^ 63" using assms(2) by simp
  moreover have "min a b + (b - a) = b" for a b :: nat by (simp add: min_def)
  ultimately show "environment_ok (demo_env file) path log_path kernel_init"
    by (simp add: environment_ok_def posix_def demo_env_def demo_answers_def kernel_init_def resources_of_def)
qed

lemma demo_feed_length: "0 < length (feed (demo_wire oid px # ms))"
  "length (feed [demo_wire oid px]) < 2 ^ 17" "length (feed [demo_wire oid px, demo_wire oid' px']) < 2 ^ 18"
proof -
  have len: "length (frame_bytes (wire_bytes (demo_wire oid px))) < 2 + 2 ^ 16" for oid px
    using decode_wire(3) [of "demo_wire oid px"] by (simp add: frame_bytes_def)
  show "0 < length (feed (demo_wire oid px # ms))" by (simp add: feed_def frame_bytes_def)
  show "length (feed [demo_wire oid px]) < 2 ^ 17" using len [of oid px] by (simp add: feed_def)
  show "length (feed [demo_wire oid px, demo_wire oid' px']) < 2 ^ 18" using len [of oid px] len [of oid' px'] by (simp add: feed_def)
qed

lemma demo_wire_ledger:
  "count_event oc lc V R (AddOrder 7 oid BuyOrder 10 px 0 empty_mpid False) s = count_add oc lc (demo_entry oid px) False V s"
  "ref_event V (AddOrder 7 oid BuyOrder 10 px 0 empty_mpid False) R = (if v_find V oid = None then R(7 := Some (ref_get 7 R)) else R)"
  by (simp_all add: to_side_enumerators flip: demo_entry_def)

lemma filter_only: "distinct xs \<Longrightarrow> x \<in> set xs \<Longrightarrow> filter (\<lambda>y. y = x) xs = [x]"
  by (induction xs) (auto simp: filter_empty_conv)

lemma live_locates_demo:
  assumes "q \<noteq> []"
  shows "live_locates (demo_view q) = [7]"
proof -
  have only: "demo_view q loc Buy @ demo_view q loc Sell \<noteq> [] \<longleftrightarrow> loc = 7" for loc
    using assms by (cases "loc = 7") (simp_all add: demo_view_def demo_queue_def)
  have "distinct (map of_nat [0..<kMaxInstruments] :: StockLocate list)"
    unfolding distinct_map using kMax_locates(1) by (auto intro: inj_on_inverseI [where g = unat])
  moreover have "of_nat 7 \<in> of_nat ` set [0..<kMaxInstruments]"
    by (rule imageI) (simp add: kMaxInstruments_def)
  ultimately show ?thesis unfolding live_locates_def only by (intro filter_only) simp_all
qed

lemma demo_reports:
  assumes "reports 4 2 (foldl (feed_step 4 2) fresh (feed_events [demo_wire 1 100, demo_wire 2 101])) vs rows" (is "reports _ _ ?a _ _")
  shows "take 4 vs = [0, 2, 2, 0]" "rows = [([], 101, 10, 0, 0, 2)]"
proof -
  have V: "fst ?a = demo_view [demo_entry 2 101, demo_entry 1 100]" using demo_wire_run(3) by (simp only: fst_feed fresh_def fst_conv)
  have l: "st_instruments_registered (fst (snd ?a)) = 0 \<and> st_add_orders (fst (snd ?a)) = 2 \<and>
      st_add_orders_with_mpid (fst (snd ?a)) = 0 \<and> snd (snd ?a) 7 = Some (Instrument_init\<lparr>in_locate := 7\<rparr>)"
    unfolding fresh_def demo_view_empty
    by (simp add: feed_events_def demo_wire_ledger count_add_def no_level_for_def q_prices_def q_add_def ref_get_def EngineStats_init_def
      del: count_event.simps ref_event.simps spec_step.simps)
  show "take 4 vs = [0, 2, 2, 0]" using assms l by (auto simp: reports_def report_values_def split: prod.splits)
  have "sample_symbol (Instrument_init\<lparr>in_locate := 7\<rparr>) = []" by (simp add: sample_symbol_def Instrument_init_def)
  moreover have "view_quote (demo_view [demo_entry 2 101, demo_entry 1 100]) 7 = (101, 10, 0, 0, 2)"
    by (simp add: view_quote_def side_quote_def)
  ultimately show "rows = [([], 101, 10, 0, 0, 2)]" using assms l V by (simp add: reports_def live_locates_demo row_of_def)
qed

theorem main_reports_witness:
  "\<exists>k' vs rows. main_program (demo_env (feed [demo_wire 1 100, demo_wire 2 101]))
      [''--order-pool-size'', ''4'', ''--level-pool-size'', ''2'', ''feed.bin''] kernel_init = Some (EXIT_SUCCESS, k') \<and>
    k_fds k' = {} \<and> k_maps k' = {} \<and>
    (\<exists>s. stdout_of s ''-'' vs rows = Some (k_out k')) \<and> take 4 vs = [0, 2, 2, 0] \<and> rows = [([], 101, 10, 0, 0, 2)]"
proof -
  let ?file = "feed [demo_wire 1 100, demo_wire 2 101]"
  let ?args = "[''--order-pool-size'', ''4'', ''--level-pool-size'', ''2'', ''feed.bin'']"
  let ?c = "default_config\<lparr>cf_order_pool_size := 4, cf_level_pool_size := 2, cf_path := ''feed.bin''\<rparr>"
  have args: "parse_args default_config ?args = Inr ?c"
    by (simp add: parse_size_def strtoull_def is_space_def is_digit_def digits_value_def is_pow2_def)
  have path: "cf_path ?c \<noteq> []" "\<not> suffix ''.gz'' (cf_path ?c)" by (simp_all add: suffix_def)
  have pool: "cf_order_pool_size ?c < 2 ^ 32" "4 = unat (cf_order_pool_size ?c)" "2 = unat (cf_level_pool_size ?c)"
    by (simp_all add: word_less_nat_alt)
  have mem: "pools_fit ?c" "memory_ok (demo_env ?file) ?c"
    by (simp_all add: pools_fit_def memory_ok_def demo_env_def word_le_nat_alt)
  have ev: "events ?file = feed_events [demo_wire 1 100, demo_wire 2 101]" by (rule events_feed [OF demo_wire_run(1)])
  have "0 < length ?file" "length ?file < 2 ^ 63"
    using demo_feed_length(1) demo_feed_length(3) [of 1 100 2 101] by auto
  from main_reports [OF args path demo_env_ok [OF this] pool(1) mem pool(2,3) demo_wire_run(2) [folded ev]] obtain k' vs rows out s where
    run: "main_program (demo_env ?file) ?args kernel_init = Some (EXIT_SUCCESS, k')" "resources_of k' = resources_of kernel_init"
      "k_out k' = k_out kernel_init @ out" "stdout_of s ''-'' vs rows = Some out"
      "reports 4 2 (foldl (feed_step 4 2) fresh (feed_events [demo_wire 1 100, demo_wire 2 101])) vs rows" unfolding ev by blast
  from run(2,3) have "k_fds k' = {}" "k_maps k' = {}" "out = k_out k'" by (simp_all add: resources_of_def kernel_init_def)
  with demo_reports [OF run(5)] run(1,4) show ?thesis by blast
qed

text \<open>A compressed file, a pool of \<open>2 ^ 40\<close> orders without the memory for it, and one of \<open>2 ^ 61\<close> levels.\<close>

theorem main_failures_witness:
  "(\<exists>k'. main_program (demo_env [1]) [''feed.gz''] kernel_init = Some (EXIT_FAILURE, k') \<and> k_out k' = []) \<and>
   (\<exists>k'. main_program (demo_env [1]) [''--order-pool-size'', ''1099511627776'', ''feed.bin''] kernel_init = Some (ABORTED, k')) \<and>
   main_program (demo_env [1]) [''--level-pool-size'', ''2305843009213693952'', ''feed.bin''] kernel_init = None"
proof -
  let ?gz = "default_config\<lparr>cf_path := ''feed.gz''\<rparr>"
  let ?big = "default_config\<lparr>cf_order_pool_size := 1099511627776, cf_path := ''feed.bin''\<rparr>"
  let ?huge = "default_config\<lparr>cf_level_pool_size := 2305843009213693952, cf_path := ''feed.bin''\<rparr>"
  have args: "parse_args default_config [''feed.gz''] = Inr ?gz"
    "parse_args default_config [''--order-pool-size'', ''1099511627776'', ''feed.bin''] = Inr ?big"
    "parse_args default_config [''--level-pool-size'', ''2305843009213693952'', ''feed.bin''] = Inr ?huge"
    by (simp_all add: parse_size_def strtoull_def is_space_def is_digit_def digits_value_def is_pow2_def)
  have gz: "suffix ''.gz'' (cf_path ?gz)" by (simp add: suffix_def)
  note sizes = pools_fit_def memory_ok_def default_config_def kOrderPoolSize_def kPriceLevelPoolSize_def demo_env_def word_le_nat_alt
  have fit: "pools_fit ?gz" "memory_ok (demo_env [1]) ?gz" "pools_fit ?big" "\<not> memory_ok (demo_env [1]) ?big"
    "\<not> pools_fit ?huge" "memory_ok (demo_env [1]) ?huge" by (simp_all add: sizes)
  have env: "environment_ok (demo_env [1]) path log_path kernel_init" for path log_path by (rule demo_env_ok(1)) simp_all
  note main = main_failures [of "demo_env [1]" kernel_init, OF env]
  from main [of "[''feed.gz'']"] args(1) gz fit(1,2)
  have "\<exists>k'. main_program (demo_env [1]) [''feed.gz''] kernel_init = Some (EXIT_FAILURE, k') \<and> k_out k' = []"
    by (auto simp: quiet_def kernel_init_def)
  moreover from main [of "[''--order-pool-size'', ''1099511627776'', ''feed.bin'']"] args(2) fit(3,4)
  have "\<exists>k'. main_program (demo_env [1]) [''--order-pool-size'', ''1099511627776'', ''feed.bin''] kernel_init = Some (ABORTED, k')"
    by auto
  moreover from main [of "[''--level-pool-size'', ''2305843009213693952'', ''feed.bin'']"] args(3) fit(5,6)
  have "main_program (demo_env [1]) [''--level-pool-size'', ''2305843009213693952'', ''feed.bin''] kernel_init = None"
    by simp
  ultimately show ?thesis by blast
qed

theorem processor_accumulates_witness:
  "\<exists>ip ip1 k1 ip2 k2. ITCHProcessor_init (\<lambda>_. True) ''itch.log'' = Some (Some ip) \<and>
    processor_run (demo_env (feed [demo_wire 1 100])) ''a.bin'' ip kernel_init = Some (True, ip1, k1) \<and>
    processor_run (demo_env (feed [demo_wire 2 101])) ''b.bin'' ip1 k1 = Some (True, ip2, k2) \<and>
    refines kOrderPoolSize kPriceLevelPoolSize (ip_engine ip2) (demo_view [demo_entry 2 101, demo_entry 1 100]) \<and>
    st_add_orders (me_stats (ip_engine ip2)) = 2"
proof -
  obtain ip where ip: "ITCHProcessor_init (\<lambda>_. True) ''itch.log'' = Some (Some ip)"
    using logger_init_kLogCapacity by (auto simp: ITCHProcessor_init_def new_engine)
  have ev: "events (feed [demo_wire n px]) = [AddOrder 7 n BuyOrder 10 px 0 empty_mpid False]" for n px
    using events_feed [of "[demo_wire n px]"] by (simp add: feed_events_def)
  have sizes: "kOrderPoolSize = 16777216" "kPriceLevelPoolSize = 4194304"
    by (simp_all add: kOrderPoolSize_def kPriceLevelPoolSize_def)
  have ok: "all_admissible processor_spec event_ok no_orders (events (feed [demo_wire 1 100]) @ events (feed [demo_wire 2 101]))"
    "foldl processor_spec no_orders (events (feed [demo_wire 1 100]) @ events (feed [demo_wire 2 101])) =
      demo_view [demo_entry 2 101, demo_entry 1 100]"
    unfolding ev demo_view_empty
    by (simp_all add: sizes q_prices_def q_add_def better_def del: spec_step.simps event_ok.simps)
  have len: "0 < length (feed [demo_wire n px])" "length (feed [demo_wire n px]) < 2 ^ 63" for n px
    using demo_feed_length(1) demo_feed_length(2) [of n px] by auto
  from processor_accumulates [OF ip demo_env_ok(1) [OF len] demo_env_ok(1) [OF len] demo_env_ok(2) [OF len] demo_env_ok(2) [OF len] ok(1),
      of "''a.bin''" "''b.bin''"] ip
  obtain ip1 k1 ip2 k2 where
    run: "processor_run (demo_env (feed [demo_wire 1 100])) ''a.bin'' ip kernel_init = Some (True, ip1, k1)"
      "processor_run (demo_env (feed [demo_wire 2 101])) ''b.bin'' ip1 k1 = Some (True, ip2, k2)"
      "records kOrderPoolSize kPriceLevelPoolSize (ip_engine ip2)
        (foldl processor_feed fresh (events (feed [demo_wire 1 100]) @ events (feed [demo_wire 2 101])))" by blast
  have "st_add_orders (fst (snd (foldl processor_feed fresh (events (feed [demo_wire 1 100]) @ events (feed [demo_wire 2 101]))))) = 2"
    unfolding ev fresh_def demo_view_empty
    by (simp add: demo_wire_ledger sizes count_add_def no_level_for_def q_prices_def q_add_def EngineStats_init_def
      del: count_event.simps ref_event.simps spec_step.simps)
  then have "st_add_orders (me_stats (ip_engine ip2)) = 2"
    using run(3) unfolding records_def ledger_def by (metis fst_conv counters_sel(1))
  moreover have "refines kOrderPoolSize kPriceLevelPoolSize (ip_engine ip2) (demo_view [demo_entry 2 101, demo_entry 1 100])"
    using run(3) ok(2) by (simp add: records_def fst_feed fresh_def)
  ultimately show ?thesis using ip run(1,2) by blast
qed

section \<open>Reading the reports back\<close>

text \<open>
  C35. The printed engine report determines its numbers: a reader that follows the format string, skips
  padding and reads digits gets all 32 values back from the text, so that two engines with the same
  text have the same counters, pools and index.
\<close>

theorem report_reads_back:
  assumes "engine_report_text dash e = Some t" "dash = ''-'' \<or> dash = em_dash"
  shows "\<exists>ps vs. parse_format engine_format = Some ps \<and> engine_values e = Some vs \<and> scan ps t = Some (map unat vs) \<and>
    (\<forall>e'. engine_report_text dash e' = Some t \<longrightarrow> engine_values e' = Some vs)"
proof -
  have read: "\<exists>ps vs. parse_format engine_format = Some ps \<and> engine_values e = Some vs \<and> scan ps t = Some (map unat vs)"
    if "engine_report_text dash e = Some t" for e
  proof -
    from that obtain vs verdict rows where v: "engine_values e = Some vs" "report_text dash vs verdict rows = Some t"
      by (auto simp: engine_report_text_def split: Option.bind_splits)
    then have "length vs = 32" by (auto simp: engine_values_def Let_def split: Option.bind_splits)
    with report_text_total [OF assms(2) this, of verdict rows "[]"] v show ?thesis by auto
  qed
  from read [OF assms(1)] obtain ps vs where
    r: "parse_format engine_format = Some ps" "engine_values e = Some vs" "scan ps t = Some (map unat vs)" by blast
  have "engine_values e' = Some vs" if "engine_report_text dash e' = Some t" for e'
  proof -
    from read [OF that] r obtain vs' where "engine_values e' = Some vs'" "map unat vs' = map unat vs" by auto
    moreover have "inj (unat :: u64 \<Rightarrow> nat)" by (rule injI) (simp add: word_unat_eq_iff)
    ultimately show ?thesis by (simp add: inj_map_eq_map)
  qed
  with r show ?thesis by blast
qed

theorem report_reads_back_witness:
  "\<exists>t ps vs. engine_report_text ''-'' (MatchingEngine_init 4 2) = Some t \<and> parse_format engine_format = Some ps \<and>
    scan ps t = Some (map unat vs) \<and> engine_values (MatchingEngine_init 4 2) = Some vs"
proof -
  have "records 4 2 (MatchingEngine_init 4 2) fresh" by (rule records_init) simp_all
  from records_report [OF this, of "''-''" Stats_init] obtain t where "engine_report_text ''-'' (MatchingEngine_init 4 2) = Some t" by auto
  with report_reads_back [OF this] show ?thesis by auto
qed

end
