(* ===== verification/Logger_Inv.thy ===== *)
theory Logger_Inv
  imports Logger
begin

text \<open>
  The invariant of the logger's two threads, its preservation by every step of every interleaving, and
  the properties it gives.
\<close>

section \<open>Powers of two\<close>

lemma of_nat_mod_size:
  assumes "pow2_size c"
  shows "unat (of_nat n AND (c - 1)) = n mod unat c"
proof -
  from pow2_size_unat [OF assms] obtain k where k: "k < 64" "unat c = 2 ^ k" by blast
  have "(2::nat) ^ k dvd 2 ^ 64" by (rule le_imp_power_dvd) (use k in simp)
  then have "unat c dvd 2 ^ 64" by (simp only: k(2))
  then show ?thesis by (simp add: unat_and_mask [OF assms] unat_of_nat mod_mod_cancel)
qed

lemma unat_diff_of_nat:
  assumes "b \<le> a" "a - b < 2 ^ 64"
  shows "unat (of_nat a - of_nat b :: u64) = a - b"
proof -
  have "(of_nat a - of_nat b :: u64) = of_nat (a - b)" using assms(1) by (simp add: of_nat_diff)
  with assms(2) show ?thesis by (simp only: unat_of_nat) simp
qed

section \<open>The invariant\<close>

text \<open>
  On the published entries \<open>es\<close>, the number \<open>n\<close> of those taken, the number \<open>m\<close> of those the drain thread has
  seen published, and the numbers \<open>ks\<close> of entries taken whose stores the producer can still load.
\<close>

definition ring_ok :: "u64 \<Rightarrow> logger \<Rightarrow> LogEntry list \<Rightarrow> nat \<Rightarrow> bool" where
  "ring_ok cap L es n \<longleftrightarrow> pow2_size cap \<and> lg_capacity L = cap \<and> lg_mask L = cap - 1 \<and>
     length (lg_ring L) = unat cap \<and> lg_head L = of_nat (length es) \<and> lg_tail L = of_nat n \<and>
     n \<le> length es \<and> length es \<le> n + unat cap \<and>
     (\<forall>j. n \<le> j \<and> j < length es \<longrightarrow> lg_ring L ! (j mod unat cap) = es ! j)"

definition heads_ok :: "nat \<Rightarrow> nat \<Rightarrow> nat \<Rightarrow> u64 list \<Rightarrow> bool" where
  "heads_ok len n m hs \<longleftrightarrow> n \<le> m \<and> m \<le> len \<and> hs = map of_nat [m..<Suc len]"

definition tails_ok :: "u64 \<Rightarrow> nat \<Rightarrow> nat \<Rightarrow> nat list \<Rightarrow> u64 list \<Rightarrow> bool" where
  "tails_ok cap len n ks ts \<longleftrightarrow> ts = map of_nat ks \<and> ks \<noteq> [] \<and> sorted ks \<and> last ks = n \<and> len \<le> hd ks + unat cap"

definition flags_ok :: "nat \<Rightarrow> bool \<Rightarrow> (bool \<times> nat) list \<Rightarrow> bool" where
  "flags_ok len running fl \<longleftrightarrow>
     (if running then fl = [(True, 0)] else \<exists>k\<le>len. fl = [(False, k)] \<or> fl = [(True, 0), (False, k)])"

definition prod_ok :: "u64 \<Rightarrow> logger \<Rightarrow> LogEntry list \<Rightarrow> nat list \<Rightarrow> producer \<Rightarrow> bool" where
  "prod_ok cap L es ks p \<longleftrightarrow> (case p of PIdle \<Rightarrow> True
     | PFill h now level tag msg \<Rightarrow> h = of_nat (length es) \<and> length es < hd ks + unat cap
     | PPublish h e \<Rightarrow> h = of_nat (length es) \<and> length es < hd ks + unat cap \<and> lg_ring L ! (length es mod unat cap) = e)"

definition cons_ok :: "LogEntry list \<Rightarrow> nat \<Rightarrow> nat \<Rightarrow> consumer \<Rightarrow> bool" where
  "cons_ok es n m c \<longleftrightarrow> (case c of CFormat f t count i out \<Rightarrow> t = of_nat n \<and> i \<le> count \<and> 0 < count \<and> count \<le> kBatch \<and>
       n + count \<le> m \<and> out = concat (map entry_bytes (take i (drop n es)))
     | CStore f t count \<Rightarrow> t = of_nat n \<and> 0 < count \<and> n + count \<le> m
     | _ \<Rightarrow> True)"

text \<open>A thread that is in the second loop has seen the stop, and with it all that was published before.\<close>

definition stop_ok :: "nat \<Rightarrow> nat \<Rightarrow> (bool \<times> nat) list \<Rightarrow> consumer \<Rightarrow> bool" where
  "stop_ok n m fl c \<longleftrightarrow> (case c of CLoad f \<Rightarrow> f \<longrightarrow> \<not> fst (hd fl) \<and> snd (hd fl) \<le> m
     | CFormat f t count i out \<Rightarrow> f \<longrightarrow> \<not> fst (hd fl) \<and> snd (hd fl) \<le> m
     | CStore f t count \<Rightarrow> f \<longrightarrow> \<not> fst (hd fl) \<and> snd (hd fl) \<le> m
     | CDone \<Rightarrow> \<not> fst (hd fl) \<and> snd (hd fl) \<le> n
     | _ \<Rightarrow> True)"

definition written :: "nat \<Rightarrow> consumer \<Rightarrow> nat" where
  "written n c = n + (case c of CStore f t count \<Rightarrow> count | _ \<Rightarrow> 0)"

definition file_ok :: "LogEntry list \<Rightarrow> nat \<Rightarrow> nat \<Rightarrow> consumer \<Rightarrow> int \<Rightarrow> bool \<Rightarrow> byte list \<Rightarrow> bool" where
  "file_ok es n base c fd failed file \<longleftrightarrow> base \<le> n \<and> (c \<noteq> CNone \<longrightarrow> 0 \<le> fd) \<and>
     (\<not> failed \<longrightarrow> file = concat (map entry_bytes (drop base (take (written n c) es))))"

definition inv_at :: "u64 \<Rightarrow> nat \<Rightarrow> nat list \<Rightarrow> log_system \<Rightarrow> bool" where
  "inv_at cap m ks s \<longleftrightarrow> ring_ok cap (ls_log s) (ls_published s) (ls_taken s) \<and>
     heads_ok (length (ls_published s)) (ls_taken s) m (ls_heads s) \<and>
     tails_ok cap (length (ls_published s)) (ls_taken s) ks (ls_tails s) \<and>
     flags_ok (length (ls_published s)) (lg_running (ls_log s)) (ls_flags s) \<and>
     prod_ok cap (ls_log s) (ls_published s) ks (ls_prod s) \<and>
     cons_ok (ls_published s) (ls_taken s) m (ls_cons s) \<and>
     stop_ok (ls_taken s) m (ls_flags s) (ls_cons s) \<and>
     file_ok (ls_published s) (ls_taken s) (ls_base s) (ls_cons s) (lg_fd (ls_log s)) (ls_failed s) (ls_file s) \<and>
     lg_dropped (ls_log s) = of_nat (ls_lost s)"

definition log_inv :: "u64 \<Rightarrow> log_system \<Rightarrow> bool" where
  "log_inv cap s \<longleftrightarrow> (\<exists>m ks. inv_at cap m ks s)"

lemmas inv_defs = inv_at_def ring_ok_def heads_ok_def tails_ok_def flags_ok_def prod_ok_def cons_ok_def stop_ok_def file_ok_def written_def

lemma log_invI: "inv_at cap m ks s \<Longrightarrow> log_inv cap s" by (auto simp: log_inv_def)

lemma ring_slot: "ring_ok cap L es n \<Longrightarrow> lg_slot L (of_nat j) = j mod unat cap"
  by (simp add: ring_ok_def lg_slot_def of_nat_mod_size)

lemma slots_distinct:
  assumes "i < j" "j < i + (m :: nat)"
  shows "i mod m \<noteq> j mod m"
proof
  assume eq: "i mod m = j mod m"
  then have "m dvd j - i" using assms(1) mod_eq_dvd_iff_nat [of i j m] by simp
  then show False using assms by (auto dest: dvd_imp_le)
qed

lemma sorted_hd_last: "sorted xs \<Longrightarrow> x \<in> set xs \<Longrightarrow> hd xs \<le> x \<and> x \<le> last (xs :: nat list)"
  by (induction xs) auto

text \<open>Every tail the producer can load is close enough to the head for the difference not to wrap.\<close>

lemma tails_load:
  assumes r: "ring_ok cap L es n" and t: "tails_ok cap (length es) n ks ts" and j: "j < length ts"
  shows "ts ! j = of_nat (ks ! j)" "ks ! j \<le> n" "unat (lg_head L - ts ! j) = length es - ks ! j"
    "tails_ok cap (length es) n (drop j ks) (drop j ts)" "hd (drop j ks) = ks ! j"
proof -
  from t j have k: "ks ! j \<in> set ks" "j < length ks" by (simp_all add: tails_ok_def)
  with t have b: "hd ks \<le> ks ! j" "ks ! j \<le> n" "length es \<le> hd ks + unat cap"
    using sorted_hd_last [of ks "ks ! j"] by (auto simp: tails_ok_def)
  from t k(2) show eq: "ts ! j = of_nat (ks ! j)" by (simp add: tails_ok_def)
  show "ks ! j \<le> n" by (rule b(2))
  have le: "ks ! j \<le> length es" "lg_head L = of_nat (length es)" using r b(2) by (auto simp: ring_ok_def)
  have "length es - ks ! j < 2 ^ 64" using b unsigned_less [of cap, where 'a = nat] by simp
  from unat_diff_of_nat [OF le(1) this] show "unat (lg_head L - ts ! j) = length es - ks ! j" unfolding eq le(2) .
  show h: "hd (drop j ks) = ks ! j" using k(2) by (simp add: hd_drop_conv_nth)
  show "tails_ok cap (length es) n (drop j ks) (drop j ts)"
    using t k(2) b(1) by (simp add: tails_ok_def h drop_map sorted_wrt_drop)
qed

lemma heads_load:
  assumes h: "heads_ok len n m hs" and j: "j < length hs"
  shows "hs ! j = of_nat (m + j)" "m + j \<le> len" "heads_ok len n (m + j) (drop j hs)"
  using assms by (auto simp: heads_ok_def drop_map nth_map_upt simp del: upt_Suc)

lemma heads_seen:
  assumes "heads_ok len n m hs" "k \<le> len"
  shows "heads_ok len n (max m k) (drop (length hs - Suc (len - k)) hs)"
proof -
  have "m + (length hs - Suc (len - k)) = max m k" using assms by (auto simp: heads_ok_def)
  moreover have "length hs - Suc (len - k) < length hs" using assms by (simp add: heads_ok_def)
  ultimately show ?thesis using heads_load(3) [OF assms(1)] by metis
qed

section \<open>Every step preserves it\<close>

lemma inv_init: "logger_init cap = Some L \<Longrightarrow> inv_at cap 0 [0] (log_system_init L)"
  by (auto simp: logger_init_def log_system_init_def inv_defs pow2_test split: if_splits)

lemma inv_call:
  assumes inv: "inv_at cap m ks s" and idle: "ls_prod s = PIdle" and j: "j < length (ls_tails s)"
  shows "log_inv cap (log_call i j now level tag msg s)"
proof -
  let ?es = "ls_published s" and ?n = "ls_taken s"
  have r: "ring_ok cap (ls_log s) ?es ?n" and t: "tails_ok cap (length ?es) ?n ks (ls_tails s)"
    using inv by (simp_all add: inv_at_def)
  note t = tails_load [OF r t j]
  have full: "lg_head (ls_log s) - ls_tails s ! j \<ge> lg_capacity (ls_log s) \<longleftrightarrow> ks ! j + unat cap \<le> length ?es"
    using r t(2) unfolding word_le_nat_alt t(3) by (auto simp: ring_ok_def)
  have seen: "inv_at cap m ks (s\<lparr>ls_levels := ll\<rparr>)" "inv_at cap m (drop j ks) (s\<lparr>ls_levels := ll, ls_tails := drop j (ls_tails s)\<rparr>)" for ll
    using inv idle t(4) by (simp_all add: inv_at_def prod_ok_def)
  have dropped: "inv_at cap m ks' (on_log (\<lambda>L. L\<lparr>lg_dropped := lg_dropped L + 1\<rparr>) (s'\<lparr>ls_lost := ls_lost s' + 1\<rparr>))"
    if "inv_at cap m ks' s'" for ks' s'
    using that by (auto simp: on_log_def inv_at_def ring_ok_def prod_ok_def split: producer.splits)
  have "inv_at cap m (drop j ks) (s\<lparr>ls_levels := ll, ls_tails := drop j (ls_tails s), ls_prod := PFill (lg_head (ls_log s)) now level tag msg\<rparr>)"
    if "\<not> ks ! j + unat cap \<le> length ?es" for ll
    using seen(2) [of ll] that t(5) by (auto simp: inv_at_def ring_ok_def prod_ok_def)
  then show ?thesis
    using seen(1) dropped [OF seen(2)] by (auto simp: log_call_def Let_def full intro: log_invI)
qed

lemma inv_fill:
  assumes inv: "inv_at cap m ks s" and p: "ls_prod s = PFill h now level tag msg"
  shows "inv_at cap m ks (log_fill h now level tag msg s)"
proof -
  let ?n = "length (ls_published s)" and ?m = "unat cap"
  from inv have r: "ring_ok cap (ls_log s) (ls_published s) (ls_taken s)" by (simp add: inv_at_def)
  from inv have "hd ks \<le> ls_taken s" using sorted_hd_last [of ks "hd ks"] by (auto simp: inv_at_def tails_ok_def)
  with inv p have h: "h = of_nat ?n" "?n < ls_taken s + ?m" by (auto simp: inv_at_def prod_ok_def)
  have slot: "lg_slot (ls_log s) (of_nat ?n) = ?n mod ?m" by (rule ring_slot [OF r])
  have lt: "?n mod ?m < ?m" using r pow2_size_pos by (simp add: ring_ok_def)
  have "?n mod ?m \<noteq> j mod ?m" if "ls_taken s \<le> j" "j < ?n" for j
    using that h(2) slots_distinct [of j ?n ?m] by simp
  then have "(lg_ring (ls_log s))[?n mod ?m := e] ! (j mod ?m) = lg_ring (ls_log s) ! (j mod ?m)"
    if "ls_taken s \<le> j" "j < ?n" for j e using that by simp
  then show ?thesis
    using inv p lt h(1) by (simp add: log_fill_def Let_def slot inv_at_def ring_ok_def prod_ok_def)
qed

lemma inv_publish:
  assumes "inv_at cap m ks s" "ls_prod s = PPublish h e"
  shows "inv_at cap m ks (log_publish h e s)"
proof -
  let ?es = "ls_published s" and ?n = "ls_taken s"
  from assms have h: "h = of_nat (length ?es)" "length ?es < hd ks + unat cap" "lg_ring (ls_log s) ! (length ?es mod unat cap) = e"
    by (simp_all add: inv_at_def prod_ok_def)
  have "hd ks \<le> ?n" using assms(1) sorted_hd_last [of ks "hd ks"] by (auto simp: inv_at_def tails_ok_def)
  then have "ring_ok cap (ls_log s\<lparr>lg_head := h + 1\<rparr>) (?es @ [e]) ?n"
    using assms(1) h by (auto simp: inv_at_def ring_ok_def nth_append less_Suc_eq)
  moreover have "heads_ok (length (?es @ [e])) ?n m (ls_heads s @ [h + 1])"
    using assms(1) h(1) by (auto simp: inv_at_def heads_ok_def)
  moreover have "tails_ok cap (length (?es @ [e])) ?n ks (ls_tails s)"
    using assms(1) h(2) by (simp add: inv_at_def tails_ok_def)
  moreover have "flags_ok (length (?es @ [e])) (lg_running (ls_log s)) (ls_flags s)"
    using assms(1) by (auto simp: inv_at_def flags_ok_def split: if_splits)
  moreover have "cons_ok (?es @ [e]) ?n m (ls_cons s)"
    using assms(1) by (auto simp: inv_at_def cons_ok_def heads_ok_def split: consumer.splits)
  moreover have "written ?n (ls_cons s) \<le> length ?es"
    using assms(1) by (auto simp: inv_at_def cons_ok_def heads_ok_def written_def split: consumer.splits)
  then have "file_ok (?es @ [e]) ?n (ls_base s) (ls_cons s) (lg_fd (ls_log s)) (ls_failed s) (ls_file s)"
    using assms(1) by (simp add: inv_at_def file_ok_def)
  ultimately show ?thesis
    using assms(1) by (simp add: log_publish_def on_log_def inv_at_def prod_ok_def)
qed

lemma inv_control:
  assumes "inv_at cap m ks s"
  shows "inv_at cap m ks (set_min_level l s)"
    "lg_running (ls_log s) \<Longrightarrow> k \<le> length (ls_published s) \<Longrightarrow> inv_at cap m ks (log_stop k s)"
    "ls_cons s = CNone \<Longrightarrow> inv_at cap m ks (log_start fd s)" "ls_cons s = CDone \<Longrightarrow> inv_at cap m ks (log_join s)"
  using assms
  by (auto simp: set_min_level_def log_stop_def log_start_def log_join_def on_log_def inv_defs split: producer.splits consumer.splits)

lemma inv_test:
  assumes inv: "inv_at cap m ks s" and c: "ls_cons s = CTop" and j: "j < length (ls_flags s)"
  shows "log_inv cap (drain_test j s)"
proof -
  obtain running k where jth: "ls_flags s ! j = (running, k)" by fastforce
  have fl: "flags_ok (length (ls_published s)) (lg_running (ls_log s)) (ls_flags s)" using inv by (simp add: inv_at_def)
  then have k: "k \<le> length (ls_published s)" "flags_ok (length (ls_published s)) (lg_running (ls_log s)) (drop j (ls_flags s))"
    using j jth by (auto simp: flags_ok_def less_Suc_eq split: if_splits)
  have h: "hd (drop j (ls_flags s)) = (running, k)" using j jth by (simp add: hd_drop_conv_nth)
  have "heads_ok (length (ls_published s)) (ls_taken s) (max m k) (see_heads k s)"
    unfolding see_heads_def by (rule heads_seen) (use inv k(1) in \<open>simp_all add: inv_at_def\<close>)
  with inv c k(2) show ?thesis
    by (intro log_invI [of cap "max m k" ks]) (simp add: drain_test_def jth inv_at_def cons_ok_def stop_ok_def file_ok_def written_def h)
qed

lemma head_loaded:
  assumes inv: "inv_at cap m ks s" and j: "j < length (ls_heads s)"
  shows "ls_taken s \<le> m + j" "m + j \<le> length (ls_published s)" "lg_tail (ls_log s) = of_nat (ls_taken s)"
    "unat (ls_heads s ! j - lg_tail (ls_log s)) = m + j - ls_taken s" "lg_tail (ls_log s) = ls_heads s ! j \<longleftrightarrow> ls_taken s = m + j"
    "heads_ok (length (ls_published s)) (ls_taken s) (m + j) (drop j (ls_heads s))"
proof -
  let ?n = "ls_taken s" and ?len = "length (ls_published s)"
  have r: "ring_ok cap (ls_log s) (ls_published s) ?n" and h: "heads_ok ?len ?n m (ls_heads s)"
    using inv by (simp_all add: inv_at_def)
  note h = heads_load [OF h j] and nm = h [unfolded heads_ok_def, THEN conjunct1]
  show nm': "?n \<le> m + j" using nm by simp
  show "m + j \<le> ?len" "heads_ok ?len ?n (m + j) (drop j (ls_heads s))" by (rule h)+
  have t: "lg_tail (ls_log s) = of_nat ?n" "m + j - ?n < 2 ^ 64"
    using r h(2) unsigned_less [of cap, where 'a = nat] by (auto simp: ring_ok_def)
  show "lg_tail (ls_log s) = of_nat ?n" by (rule t)
  show d: "unat (ls_heads s ! j - lg_tail (ls_log s)) = m + j - ?n"
    unfolding t(1) h(1) by (rule unat_diff_of_nat [OF nm' t(2)])
  show "lg_tail (ls_log s) = ls_heads s ! j \<longleftrightarrow> ?n = m + j"
  proof
    assume "lg_tail (ls_log s) = ls_heads s ! j"
    then show "?n = m + j" using d nm' by simp
  qed (simp add: t h)
qed

lemma inv_load:
  assumes inv: "inv_at cap m ks s" and c: "ls_cons s = CLoad stopping" and j: "j < length (ls_heads s)"
  shows "log_inv cap (drain_load j stopping s)"
proof -
  let ?n = "ls_taken s"
  note h = head_loaded [OF inv j]
  have eq: "drain_load j stopping s = s\<lparr>ls_heads := drop j (ls_heads s),
      ls_cons := if ?n = m + j then (if stopping then CDone else CTop)
        else CFormat stopping (of_nat ?n) (min kBatch (m + j - ?n)) 0 []\<rparr>"
    by (simp add: drain_load_def Let_def h(4,5)) (simp add: h(3))
  have min: "min kBatch (m + j - ?n) \<le> kBatch" "?n + min kBatch (m + j - ?n) \<le> m + j" "?n \<noteq> m + j \<Longrightarrow> 0 < min kBatch (m + j - ?n)"
    using h(1) by (auto simp: kBatch_def)
  have "stop_ok ?n (m + j) (ls_flags s) (if ?n = m + j then (if stopping then CDone else CTop)
        else CFormat stopping (of_nat ?n) (min kBatch (m + j - ?n)) 0 [])"
    using inv c by (auto simp: inv_at_def stop_ok_def)
  with inv c min h(6) show ?thesis
    unfolding eq by (intro log_invI [of cap "m + j" ks]) (simp add: inv_at_def cons_ok_def file_ok_def written_def)
qed

lemma inv_format:
  assumes inv: "inv_at cap m ks s" and cons: "ls_cons s = CFormat stopping t count i out" and i: "i < count"
  shows "inv_at cap m ks (drain_format stopping t count i out s)"
proof -
  let ?es = "ls_published s" and ?n = "ls_taken s"
  from inv cons have r: "ring_ok cap (ls_log s) ?es ?n"
    and c: "t = of_nat ?n" "?n + count \<le> length ?es" "out = concat (map entry_bytes (take i (drop ?n ?es)))"
    by (auto simp: inv_at_def cons_ok_def heads_ok_def)
  have "t + of_nat i = of_nat (?n + i)" using c(1) by simp
  then have "lg_slot (ls_log s) (t + of_nat i) = (?n + i) mod unat cap" using ring_slot [OF r] by metis
  moreover have "lg_ring (ls_log s) ! ((?n + i) mod unat cap) = ?es ! (?n + i)"
    using r c(2) i by (simp add: ring_ok_def)
  moreover have "take (i + 1) (drop ?n ?es) = take i (drop ?n ?es) @ [?es ! (?n + i)]"
    using c(2) i by (simp add: take_Suc_conv_app_nth)
  ultimately show ?thesis
    using inv cons i c by (simp add: drain_format_def Let_def inv_at_def cons_ok_def stop_ok_def file_ok_def written_def)
qed

lemma take_drop_more:
  "b \<le> n \<Longrightarrow> drop b (take (n + m) xs) = drop b (take n xs) @ take m (drop n xs)"
  by (cases "length xs < n") (simp_all add: take_add)

lemma inv_write:
  assumes "inv_at cap m ks s" "ls_cons s = CFormat stopping t count count out"
  shows "inv_at cap m ks (drain_write rs stopping t count out s)"
proof -
  from assms have "ls_base s \<le> ls_taken s" "out = concat (map entry_bytes (take count (drop (ls_taken s) (ls_published s))))"
    by (auto simp: inv_at_def cons_ok_def file_ok_def)
  then have "concat (map entry_bytes (drop (ls_base s) (take (ls_taken s) (ls_published s)))) @ out =
      concat (map entry_bytes (drop (ls_base s) (take (ls_taken s + count) (ls_published s))))"
    by (simp add: take_drop_more)
  then show ?thesis
    using assms by (auto simp: drain_write_def Let_def inv_at_def cons_ok_def stop_ok_def file_ok_def written_def)
qed

lemma inv_store:
  assumes inv: "inv_at cap m ks s" and c: "ls_cons s = CStore stopping t count"
  shows "inv_at cap m (ks @ [ls_taken s + count]) (drain_store stopping t count s)"
proof -
  let ?n = "ls_taken s"
  have t: "t + of_nat count = of_nat (?n + count)" "?n + count \<le> m" "m \<le> length (ls_published s)" "0 < count"
    using inv c by (auto simp: inv_at_def cons_ok_def heads_ok_def)
  have "tails_ok cap (length (ls_published s)) (?n + count) (ks @ [?n + count]) (ls_tails s @ [of_nat (?n + count)])"
    using inv sorted_hd_last by (fastforce simp: inv_at_def tails_ok_def sorted_append)
  moreover have "prod_ok cap L (ls_published s) (ks @ [?n + count]) p \<longleftrightarrow> prod_ok cap L (ls_published s) ks p" for L p
    using inv by (simp add: inv_at_def tails_ok_def prod_ok_def split: producer.splits)
  ultimately show ?thesis
    using inv c t(2-) unfolding drain_store_def on_log_def t(1)
    by (auto simp: inv_at_def ring_ok_def heads_ok_def prod_ok_def cons_ok_def stop_ok_def file_ok_def written_def split: producer.splits)
qed

lemma inv_step:
  assumes "log_step s s'" "log_inv cap s"
  shows "log_inv cap s'"
proof -
  from assms(2) obtain m ks where inv: "inv_at cap m ks s" by (auto simp: log_inv_def)
  note steps = inv_call [OF inv] inv_test [OF inv] inv_load [OF inv]
    inv_control [OF inv, THEN log_invI] inv_fill [OF inv, THEN log_invI] inv_publish [OF inv, THEN log_invI]
    inv_format [OF inv, THEN log_invI] inv_write [OF inv, THEN log_invI] inv_store [OF inv, THEN log_invI]
  from assms(1) show ?thesis by (elim log_stepE drain_stepE) (simp_all add: steps)
qed

lemma inv_reachable:
  assumes "log_reachable cap s"
  shows "log_inv cap s"
proof -
  from assms obtain L where L: "logger_init cap = Some L" "log_step\<^sup>*\<^sup>* (log_system_init L) s"
    by (auto simp: log_reachable_def)
  from L(2) show ?thesis
    by (induction rule: rtranclp_induct) (auto intro: log_invI [OF inv_init [OF L(1)]] inv_step)
qed

end
