(* ===== verification/Logger_Properties.thy ===== *)
theory Logger_Properties
  imports Logger_Inv
begin

text \<open>
  What the logger's invariant gives: the log file is a prefix of the published entries in order, the two
  threads never touch the same slot, the drain after \<open>stop\<close> ends with everything written, and how long
  lines are stored.
\<close>

section \<open>The ring is a bounded queue\<close>

text \<open>
  C11. In every interleaving of the producer and the drain thread, whatever value each load returns that
  its memory order allows, the counters and the ring are those of a bounded first-in first-out queue: the ring holds the entries published and not yet taken, at most
  its capacity, also after the 64-bit counters have wrapped. As long as no write failed, the file
  holds the lines of the entries published since it was opened, in order, without gap or repetition,
  up to one between those taken and those published, and every dropped call is counted.
\<close>

theorem logger_is_fifo:
  assumes "log_reachable cap s"
  shows "let L = ls_log s; es = ls_published s; t = ls_taken s in
    lg_head L = of_nat (length es) \<and> lg_tail L = of_nat t \<and> t \<le> length es \<and> length es \<le> t + unat cap \<and>
    (\<forall>j. t \<le> j \<and> j < length es \<longrightarrow> lg_ring L ! (j mod unat cap) = es ! j) \<and>
    lg_dropped L = of_nat (ls_lost s) \<and>
    (\<not> ls_failed s \<longrightarrow> (\<exists>m. t \<le> m \<and> m \<le> length es \<and> ls_file s = concat (map entry_bytes (drop (ls_base s) (take m es)))))"
proof -
  from inv_reachable [OF assms] obtain m ks where inv: "inv_at cap m ks s" by (auto simp: log_inv_def)
  then have "ls_taken s \<le> written (ls_taken s) (ls_cons s)"
    "written (ls_taken s) (ls_cons s) \<le> length (ls_published s)"
    by (auto simp: inv_at_def heads_ok_def cons_ok_def written_def split: consumer.splits)
  with inv show ?thesis
    unfolding Let_def inv_at_def ring_ok_def file_ok_def by blast
qed

section \<open>No slot is written while it is read\<close>

lemma entry_bytes_length: "length (entry_bytes e) \<le> 256"
  by (simp add: entry_bytes_def Let_def)

lemma entries_bytes_length: "length (concat (map entry_bytes es)) \<le> 256 * length es"
  by (induction es) (auto intro: add_mono [OF entry_bytes_length])

text \<open>
  C12. Whenever the producer is about to fill a slot while the drain thread formats a batch, the slot is
  none of those of the batch: no entry is overwritten while it is read. Each thread is safe by what it
  has loaded itself: the entry that had the slot before is one of the \<open>a\<close> entries that the tail last loaded
  by the producer counts as taken, and those of the batch are among the \<open>b\<close> entries that the head last
  loaded by the drain thread counts as published, so that a release store and an acquire load order any
  two accesses to a slot. The scratch buffer of 64 times 256 bytes always has room for the 256 bytes the
  next \<open>snprintf\<close> may store.
\<close>

theorem logger_race_free:
  assumes reach: "log_reachable cap s"
    and prod: "ls_prod s = PFill h now level tag msg" and cons: "ls_cons s = CFormat stopping t count i out"
  shows "\<exists>a b. hd (ls_tails s) = of_nat a \<and> hd (ls_heads s) = of_nat b \<and> a \<le> ls_taken s \<and> b \<le> length (ls_published s) \<and>
    h = of_nat (length (ls_published s)) \<and> length (ls_published s) < a + unat cap \<and>
    t = of_nat (ls_taken s) \<and> ls_taken s + count \<le> b \<and>
    (\<forall>k. k < count \<longrightarrow> lg_slot (ls_log s) h \<noteq> lg_slot (ls_log s) (t + of_nat k)) \<and>
    (i < count \<longrightarrow> length out + 256 \<le> 256 * kBatch)"
proof -
  let ?n = "length (ls_published s)" and ?t = "ls_taken s"
  from inv_reachable [OF reach] obtain m ks where inv: "inv_at cap m ks s" by (auto simp: log_inv_def)
  then have r: "ring_ok cap (ls_log s) (ls_published s) ?t" by (simp add: inv_at_def)
  have tails: "hd (ls_tails s) = of_nat (hd ks)" "hd ks \<le> ?t"
    using inv sorted_hd_last [of ks "hd ks"] by (auto simp: inv_at_def tails_ok_def hd_map)
  have heads: "hd (ls_heads s) = of_nat m" "m \<le> ?n"
    using inv by (auto simp: inv_at_def heads_ok_def hd_map hd_upt simp del: upt_Suc)
  have h: "h = of_nat ?n" "?n < hd ks + unat cap" using inv prod by (auto simp: inv_at_def prod_ok_def)
  have c: "t = of_nat ?t" "?t + count \<le> m" "count \<le> kBatch" "i \<le> count"
    "out = concat (map entry_bytes (take i (drop ?t (ls_published s))))"
    using inv cons by (auto simp: inv_at_def cons_ok_def)
  have "lg_slot (ls_log s) h \<noteq> lg_slot (ls_log s) (t + of_nat k)" if "k < count" for k
  proof -
    have "(?t + k) mod unat cap \<noteq> ?n mod unat cap"
      using that h(2) c(2) tails(2) heads(2) by (intro slots_distinct) simp_all
    moreover have "lg_slot (ls_log s) (t + of_nat k) = (?t + k) mod unat cap"
      using ring_slot [OF r, of "?t + k"] c(1) by simp
    moreover have "lg_slot (ls_log s) h = ?n mod unat cap" using ring_slot [OF r] h(1) by simp
    ultimately show ?thesis by simp
  qed
  moreover have "length out \<le> 256 * i"
    using entries_bytes_length [of "take i (drop ?t (ls_published s))"] c(5) by simp
  then have "i < count \<longrightarrow> length out + 256 \<le> 256 * kBatch" using c(3) by simp
  ultimately show ?thesis using tails heads h c by blast
qed

section \<open>The drain after stop\<close>

definition drain_measure :: "log_system \<Rightarrow> nat" where
  "drain_measure s = (let r = 10 * (length (ls_published s) - ls_taken s) in
     case ls_cons s of CNone \<Rightarrow> 0 | CDone \<Rightarrow> 0 | CLoad stopping \<Rightarrow> (if stopping then 1 + r else 3 + r) | CTop \<Rightarrow> 2 + r
     | CFormat stopping t count i out \<Rightarrow> 4 + (count - i) + (r - 10 * count)
     | CStore stopping t count \<Rightarrow> 3 + (r - 10 * count))"

definition draining :: "u64 \<Rightarrow> log_system \<Rightarrow> bool" where
  "draining cap s \<longleftrightarrow> log_inv cap s \<and> \<not> lg_running (ls_log s)"

text \<open>The drain thread has loaded the value of \<open>running_\<close> that \<open>stop\<close> stored.\<close>

definition stop_seen :: "log_system \<Rightarrow> bool" where
  "stop_seen s \<longleftrightarrow> \<not> fst (hd (ls_flags s))"

text \<open>The number of entries published before \<open>stop\<close>, all of them if the thread that logs called it.\<close>

definition before_stop :: "log_system \<Rightarrow> nat" where
  "before_stop s = snd (last (ls_flags s))"

lemma drain_keeps:
  assumes "drain_step s s'"
  shows "ls_published s' = ls_published s" "lg_running (ls_log s') = lg_running (ls_log s)" "ls_base s' = ls_base s"
    "ls_failed s \<longrightarrow> ls_failed s'" "before_stop s' = before_stop s"
  using assms by (elim drain_stepE; simp add: drain_test_def drain_load_def drain_format_def drain_write_def drain_store_def
      on_log_def Let_def before_stop_def split: prod.splits)+

lemma draining_step: "drain_step s s' \<Longrightarrow> draining cap s \<Longrightarrow> draining cap s'"
  unfolding draining_def using inv_step [OF log_step.drain] drain_keeps(2) by blast

lemma draining_flags:
  assumes "draining cap s"
  shows "ls_flags s = [(False, before_stop s)] \<or> ls_flags s = [(True, 0), (False, before_stop s)]"
  using assms by (auto simp: draining_def log_inv_def inv_at_def flags_ok_def before_stop_def)

text \<open>A test that loads the newest flag sees the stop; one that loads an older one does not.\<close>

lemma test_draining:
  assumes "draining cap s" "j < length (ls_flags s)"
  shows "ls_cons (drain_test j s) = CLoad (Suc j = length (ls_flags s))"
    "stop_seen (drain_test j s) \<longleftrightarrow> Suc j = length (ls_flags s)"
  using draining_flags [OF assms(1)] assms(2) by (auto simp: drain_test_def stop_seen_def less_Suc_eq)

lemma stop_seen_step: "drain_step s s' \<Longrightarrow> draining cap s \<Longrightarrow> stop_seen s \<Longrightarrow> stop_seen s'"
proof (elim drain_stepE)
  fix j assume "draining cap s" "stop_seen s" "j < length (ls_flags s)" "s' = drain_test j s"
  then show ?thesis using draining_flags [of cap s] test_draining(2) [of cap s j] by (auto simp: stop_seen_def)
qed (simp_all add: stop_seen_def drain_load_def drain_format_def drain_write_def drain_store_def on_log_def Let_def)

lemma drain_step_decreases:
  assumes "drain_step s s'" "draining cap s" "ls_cons s = CTop \<longrightarrow> ls_cons s' = CLoad True"
  shows "drain_measure s' < drain_measure s"
  using assms(1)
proof cases
  case (test j)
  then show ?thesis using assms(3) by (auto simp: drain_test_def drain_measure_def split: prod.splits)
next
  case (load stopping j)
  obtain m ks where inv: "inv_at cap m ks s" using assms(2) by (auto simp: draining_def log_inv_def)
  show ?thesis
    using load head_loaded [OF inv load(3)] by (auto simp: drain_load_def drain_measure_def Let_def kBatch_def min_def)
next
  case (format stopping t count i out)
  then show ?thesis by (simp add: drain_format_def drain_measure_def Let_def)
next
  case (write_out stopping t count out rs)
  then show ?thesis by (simp add: drain_write_def drain_measure_def Let_def)
next
  case (store stopping t count)
  then show ?thesis by (simp add: drain_store_def drain_measure_def on_log_def Let_def diff_mult_distrib2)
qed

lemma draining_steps: "drain_step\<^sup>*\<^sup>* s s' \<Longrightarrow> draining cap s \<Longrightarrow> draining cap s' \<and> ls_published s' = ls_published s
    \<and> ls_base s' = ls_base s \<and> before_stop s' = before_stop s"
  by (induction rule: rtranclp_induct) (auto dest: draining_step drain_keeps)

text \<open>Loading the newest values, the drain thread gets on, and is done only with everything taken.\<close>

lemma drain_progress:
  assumes d: "draining cap s" and c: "ls_cons s \<notin> {CNone, CDone}"
  shows "\<exists>s'. drain_step s s' \<and> drain_measure s' < drain_measure s \<and> ls_cons s' \<noteq> CNone \<and>
    (ls_failed s' \<longleftrightarrow> ls_failed s) \<and> (ls_cons s' = CDone \<longrightarrow> ls_taken s' = length (ls_published s'))"
proof (cases "ls_cons s")
  case CTop
  let ?j = "length (ls_flags s) - 1"
  have j: "?j < length (ls_flags s)" "Suc ?j = length (ls_flags s)" using draining_flags [OF d] by auto
  note step = drain_step.test [OF CTop j(1)]
  have "ls_cons (drain_test ?j s) = CLoad True" using test_draining(1) [OF d j(1)] j(2) by simp
  moreover have "ls_failed (drain_test ?j s) \<longleftrightarrow> ls_failed s" by (simp add: drain_test_def split: prod.splits)
  ultimately show ?thesis using step drain_step_decreases [OF step d] by auto
next
  case (CLoad stopping)
  obtain m ks where inv: "inv_at cap m ks s" using d by (auto simp: draining_def log_inv_def)
  let ?j = "length (ls_heads s) - 1"
  have j: "?j < length (ls_heads s)" "m + ?j = length (ls_published s)" using inv by (auto simp: inv_at_def heads_ok_def)
  note step = drain_step.load [OF CLoad j(1)]
  have "drain_measure (drain_load ?j stopping s) < drain_measure s" using drain_step_decreases [OF step d] CLoad by simp
  moreover have "ls_cons (drain_load ?j stopping s) \<noteq> CNone" by (simp add: drain_load_def Let_def)
  moreover have "ls_cons (drain_load ?j stopping s) = CDone \<longrightarrow> ls_taken s = length (ls_published s)"
    using head_loaded(5) [OF inv j(1)] j(2) by (auto simp: drain_load_def Let_def split: if_splits)
  moreover have "ls_taken (drain_load ?j stopping s) = ls_taken s" "ls_failed (drain_load ?j stopping s) = ls_failed s"
    by (simp_all add: drain_load_def Let_def)
  ultimately show ?thesis using step drain_keeps(1) [OF step] by metis
next
  case (CFormat stopping t count i out)
  then have i: "i \<le> count" and fd: "0 \<le> lg_fd (ls_log s)"
    using d by (auto simp: draining_def log_inv_def inv_at_def cons_ok_def file_ok_def)
  show ?thesis
  proof (cases "i = count")
    case True
    have "write_batch (lg_fd (ls_log s)) [Wrote (length out)] out = out" using fd by (simp add: write_batch_def)
    moreover note step = drain_step.write_out [OF CFormat [unfolded True], of "[Wrote (length out)]"]
    moreover note drain_step_decreases [OF step d]
    ultimately show ?thesis using CFormat by (auto simp: drain_write_def Let_def)
  next
    case False
    with i have "i < count" by simp
    note step = drain_step.format [OF CFormat this]
    with drain_step_decreases [OF step d] CFormat show ?thesis by (auto simp: drain_format_def Let_def)
  qed
next
  case (CStore stopping t count)
  note step = drain_step.store [OF CStore]
  have "ls_cons (drain_store stopping t count s) \<notin> {CNone, CDone}" "ls_failed (drain_store stopping t count s) = ls_failed s" by (simp_all add: drain_store_def on_log_def)
  with step drain_step_decreases [OF step d] CStore show ?thesis by auto
qed (use c in auto)

lemma drain_ends:
  assumes "draining cap s" "ls_cons s \<notin> {CNone, CDone}"
  shows "\<exists>s'. drain_step\<^sup>*\<^sup>* s s' \<and> ls_cons s' = CDone \<and> ls_taken s' = length (ls_published s') \<and> (ls_failed s' \<longleftrightarrow> ls_failed s)"
  using assms
proof (induction "drain_measure s" arbitrary: s rule: less_induct)
  case less
  from drain_progress [OF less.prems] obtain s1 where
    s1: "drain_step s s1" "drain_measure s1 < drain_measure s" "ls_cons s1 \<noteq> CNone"
      "ls_failed s1 \<longleftrightarrow> ls_failed s" "ls_cons s1 = CDone \<longrightarrow> ls_taken s1 = length (ls_published s1)" by blast
  show ?case
  proof (cases "ls_cons s1 = CDone")
    case False
    with less.hyps [OF s1(2) draining_step [OF s1(1) less.prems(1)]] s1(1,3,4)
    show ?thesis by (auto intro: converse_rtranclp_into_rtranclp)
  qed (use s1 in auto)
qed

text \<open>
  C13. After \<open>stop\<close>, with no further call of \<open>log\<close>, the drain thread ends: it has no infinite run in which
  it ever sees the stop (C++ asks that a store becomes visible in finite time), it can reach its end with
  every entry taken and no write failed, and whenever it ends, also on loads that return old values, it has taken every entry
  published before the stop, and the file holds the lines of those taken since it was opened, unless a
  write failed.
\<close>

theorem logger_drains:
  assumes reach: "log_reachable cap s" and stopped: "\<not> lg_running (ls_log s)" and thread: "ls_cons s \<notin> {CNone, CDone}"
  shows "(\<nexists>run i. run 0 = s \<and> (\<forall>j. drain_step (run j) (run (Suc j))) \<and> stop_seen (run i)) \<and>
    (\<exists>s'. drain_step\<^sup>*\<^sup>* s s' \<and> ls_cons s' = CDone \<and> ls_taken s' = length (ls_published s) \<and> (ls_failed s' \<longleftrightarrow> ls_failed s)) \<and>
    (\<forall>s'. drain_step\<^sup>*\<^sup>* s s' \<and> ls_cons s' = CDone \<longrightarrow> ls_published s' = ls_published s \<and>
       before_stop s \<le> ls_taken s' \<and> ls_taken s' \<le> length (ls_published s) \<and>
       (\<not> ls_failed s' \<longrightarrow> ls_file s' = concat (map entry_bytes (drop (ls_base s) (take (ls_taken s') (ls_published s))))))"
proof -
  have d: "draining cap s" using inv_reachable [OF reach] stopped by (simp add: draining_def)
  have "False" if "run 0 = s" "\<forall>j. drain_step (run j) (run (Suc j))" "stop_seen (run i)" for run i
  proof -
    have dr: "draining cap (run j)" for j by (induction j) (use that(1,2) d draining_step in auto)
    have "stop_seen (run (i + j)) \<and> drain_measure (run (i + j)) + j \<le> drain_measure (run i)" for j
    proof (induction j)
      case (Suc j)
      have step: "drain_step (run (i + j)) (run (Suc (i + j)))" using that(2) by blast
      have "length (ls_flags (run (i + j))) = 1"
        using draining_flags [OF dr, of "i + j"] Suc by (auto simp: stop_seen_def)
      then have "ls_cons (run (i + j)) = CTop \<longrightarrow> ls_cons (run (Suc (i + j))) = CLoad True"
        using step test_draining(1) [OF dr, of _ "i + j"] by (elim drain_stepE) auto
      from drain_step_decreases [OF step dr this] stop_seen_step [OF step dr] Suc show ?case by simp
    qed (use that(3) in simp)
    from this [of "Suc (drain_measure (run i))"] show False by simp
  qed
  moreover have "\<exists>s'. drain_step\<^sup>*\<^sup>* s s' \<and> ls_cons s' = CDone \<and> ls_taken s' = length (ls_published s) \<and> (ls_failed s' \<longleftrightarrow> ls_failed s)"
    using drain_ends [OF d thread] draining_steps [OF _ d] by metis
  moreover have "ls_published s' = ls_published s \<and> before_stop s \<le> ls_taken s' \<and> ls_taken s' \<le> length (ls_published s) \<and>
      (\<not> ls_failed s' \<longrightarrow> ls_file s' = concat (map entry_bytes (drop (ls_base s) (take (ls_taken s') (ls_published s)))))"
    if s': "drain_step\<^sup>*\<^sup>* s s'" "ls_cons s' = CDone" for s'
  proof -
    from draining_steps [OF s'(1) d] have e: "draining cap s'" "ls_published s' = ls_published s" "ls_base s' = ls_base s"
      "before_stop s' = before_stop s" by auto
    from e(1) obtain m ks where inv: "inv_at cap m ks s'" by (auto simp: draining_def log_inv_def)
    with s'(2) draining_flags [OF e(1)] have "before_stop s' \<le> ls_taken s'" by (auto simp: inv_at_def stop_ok_def)
    with inv s'(2) e show ?thesis by (simp add: inv_at_def ring_ok_def file_ok_def written_def)
  qed
  ultimately show ?thesis by blast
qed

section \<open>Long lines\<close>

lemma entry_line_length:
  "length (entry_line e) = 31 + length (c_str 6 (le_tag e)) + length (c_str 240 (le_message e))"
  by (cases "le_level e") (simp_all add: entry_line_def digits20_def level_to_str_def)

text \<open>
  A line of at most 255 bytes is stored in the file as it is, ending in its newline. A longer line,
  which a message of more than 218 bytes can give, is cut to 255 bytes and a NUL byte takes the place of
  its newline, so that the next line of the file starts in the middle of the same text line.
\<close>

lemma long_line_corrupts_log:
  "(length (c_str 6 (le_tag e)) + length (c_str 240 (le_message e)) \<le> 224 \<longrightarrow> entry_bytes e = entry_line e \<and> last (entry_bytes e) = 10) \<and>
   (length (c_str 6 (le_tag e)) + length (c_str 240 (le_message e)) > 224 \<longrightarrow>
      entry_bytes e = take 255 (entry_line e) @ [0] \<and> length (entry_line e) > 255)"
proof (intro conjI impI)
  have ne: "entry_line e \<noteq> []" "last (entry_line e) = 10" by (simp_all add: entry_line_def)
  assume "length (c_str 6 (le_tag e)) + length (c_str 240 (le_message e)) \<le> 224"
  then have len: "length (entry_line e) \<le> 255" by (simp add: entry_line_length)
  then show "entry_bytes e = entry_line e" using ne by (simp add: entry_bytes_def Let_def)
  then show "last (entry_bytes e) = 10" using ne by simp
next
  assume "length (c_str 6 (le_tag e)) + length (c_str 240 (le_message e)) > 224"
  then show len: "length (entry_line e) > 255" by (simp add: entry_line_length)
  then have "(if length (entry_line e) > 256 then 256 else length (entry_line e)) = 256" "\<not> length (entry_line e) \<le> 0" by auto
  then show "entry_bytes e = take 255 (entry_line e) @ [0]" using len unfolding entry_bytes_def Let_def by simp
qed

text \<open>An entry whose line is cut.\<close>

definition demo_long :: LogEntry where
  "demo_long = fill_entry 0 Info [69, 78, 71, 0] (replicate 239 88) LogEntry_zero"

lemma long_line_corrupts_log_example:
  "entry_bytes demo_long = take 255 (entry_line demo_long) @ [0]"
proof -
  have "c_str 6 (le_tag demo_long) = [69, 78, 71]"
    by (simp add: demo_long_def fill_entry_def copy_tag_def c_str_def)
  moreover have "c_str 240 (le_message demo_long) = replicate 239 88"
    by (simp add: demo_long_def fill_entry_def copy_msg_def c_str_def takeWhile_append LogEntry_zero_def)
  ultimately show ?thesis using long_line_corrupts_log [of demo_long] by simp
qed

section \<open>A small run\<close>

definition demo_logger :: logger where
  "demo_logger = \<lparr>lg_capacity = 2, lg_mask = 1, lg_fd = - 1, lg_ring = [LogEntry_zero, LogEntry_zero], lg_head = 0,
     lg_tail = 0, lg_dropped = 0, lg_min_level = 2, lg_running = False\<rparr>"

definition demo_tag :: "byte list" where "demo_tag = [69, 0]"

definition demo_first :: LogEntry where
  "demo_first = fill_entry 5 Warn demo_tag [72, 105] LogEntry_zero"

definition demo_started :: log_system where
  "demo_started = log_start 3 (log_system_init demo_logger)"

definition demo_logged :: log_system where
  "demo_logged = log_publish 0 demo_first (log_fill 0 5 Warn demo_tag [72, 105] (log_call 0 0 5 Warn demo_tag [72, 105] demo_started))"

definition demo_racing :: log_system where
  "demo_racing = log_call 0 0 6 Warn demo_tag [] (drain_load 1 False (drain_test 0 demo_logged))"

lemma demo_run_states:
  "demo_started = \<lparr>ls_log = demo_logger\<lparr>lg_fd := 3, lg_running := True\<rparr>, ls_prod = PIdle, ls_cons = CTop, ls_heads = [0], ls_tails = [0],
     ls_levels = [2], ls_flags = [(True, 0)], ls_file = [], ls_published = [], ls_taken = 0, ls_base = 0, ls_lost = 0, ls_failed = False\<rparr>"
  "demo_logged = \<lparr>ls_log = demo_logger\<lparr>lg_fd := 3, lg_running := True, lg_head := 1, lg_ring := [demo_first, LogEntry_zero]\<rparr>,
     ls_prod = PIdle, ls_cons = CTop, ls_heads = [0, 1], ls_tails = [0], ls_levels = [2], ls_flags = [(True, 0)],
     ls_file = [], ls_published = [demo_first], ls_taken = 0, ls_base = 0, ls_lost = 0,
     ls_failed = False\<rparr>"
proof -
  show s: "demo_started = \<lparr>ls_log = demo_logger\<lparr>lg_fd := 3, lg_running := True\<rparr>, ls_prod = PIdle, ls_cons = CTop, ls_heads = [0], ls_tails = [0],
     ls_levels = [2], ls_flags = [(True, 0)], ls_file = [], ls_published = [], ls_taken = 0, ls_base = 0, ls_lost = 0, ls_failed = False\<rparr>"
    by (simp add: demo_started_def log_start_def log_system_init_def demo_logger_def on_log_def)
  show "demo_logged = \<lparr>ls_log = demo_logger\<lparr>lg_fd := 3, lg_running := True, lg_head := 1, lg_ring := [demo_first, LogEntry_zero]\<rparr>,
     ls_prod = PIdle, ls_cons = CTop, ls_heads = [0, 1], ls_tails = [0], ls_levels = [2], ls_flags = [(True, 0)],
     ls_file = [], ls_published = [demo_first], ls_taken = 0, ls_base = 0, ls_lost = 0,
     ls_failed = False\<rparr>"
    by (simp add: demo_logged_def s log_call_def log_fill_def log_publish_def demo_logger_def on_log_def lg_slot_def
        level_num_def demo_first_def Let_def)
qed

lemma demo_call:
  "log_call 0 0 5 Warn demo_tag [72, 105] demo_started = demo_started\<lparr>ls_prod := PFill 0 5 Warn demo_tag [72, 105]\<rparr>"
  "demo_racing = demo_logged\<lparr>ls_prod := PFill 1 6 Warn demo_tag [], ls_cons := CFormat False 0 1 0 [], ls_heads := [1]\<rparr>"
  by (simp_all add: demo_run_states log_call_def demo_logger_def level_num_def Let_def demo_racing_def drain_load_def
      drain_test_def see_heads_def kBatch_def word_le_nat_alt)

lemma demo_reachable:
  "log_reachable 2 demo_logged" "log_reachable 2 demo_racing" "log_reachable 2 (log_stop 1 demo_logged)"
proof -
  have init: "logger_init 2 = Some demo_logger"
  proof -
    have "replicate (unat (2 :: u64)) LogEntry_zero = [LogEntry_zero, LogEntry_zero]"
    proof -
      have "unat (2 :: u64) = Suc (Suc 0)" by simp
      then show ?thesis by (simp only: replicate.simps)
    qed
    then show ?thesis unfolding logger_init_def by (simp add: demo_logger_def level_num_def)
  qed
  have tag: "demo_tag \<noteq> []" by (simp add: demo_tag_def)
  have step: "log_step s s' \<Longrightarrow> log_reachable 2 s \<Longrightarrow> log_reachable 2 s'" for s s'
    unfolding log_reachable_def by (meson rtranclp.rtrancl_into_rtrancl)
  have "log_reachable 2 (log_system_init demo_logger)" using init by (auto simp: log_reachable_def)
  moreover have "log_step (log_system_init demo_logger) demo_started"
    unfolding demo_started_def by (rule log_step.start) (simp add: log_system_init_def)
  ultimately have started: "log_reachable 2 demo_started" by (rule step [rotated])
  let ?s = "log_call 0 0 5 Warn demo_tag [72, 105] demo_started"
  let ?s' = "log_fill 0 5 Warn demo_tag [72, 105] ?s"
  have "log_step demo_started ?s" using tag by (intro log_step.call) (simp_all add: demo_run_states)
  moreover have "log_step ?s ?s'" by (rule log_step.fill) (simp add: demo_call)
  moreover have "ls_prod ?s' = PPublish 0 demo_first" unfolding demo_call(1)
    by (simp add: demo_run_states log_fill_def demo_logger_def lg_slot_def demo_first_def Let_def)
  then have "log_step ?s' demo_logged" unfolding demo_logged_def by (rule log_step.publish)
  ultimately show logged: "log_reachable 2 demo_logged" using started step by blast
  have "log_step demo_logged (drain_test 0 demo_logged)"
    by (intro log_step.drain drain_step.test) (simp_all add: demo_run_states)
  moreover have "log_step (drain_test 0 demo_logged) (drain_load 1 False (drain_test 0 demo_logged))"
    by (intro log_step.drain drain_step.load) (simp_all add: demo_run_states drain_test_def see_heads_def)
  moreover have "log_step (drain_load 1 False (drain_test 0 demo_logged)) demo_racing" unfolding demo_racing_def
    using tag by (intro log_step.call) (simp_all add: demo_run_states drain_test_def drain_load_def Let_def)
  ultimately show "log_reachable 2 demo_racing" using logged step by blast
  have "log_step demo_logged (log_stop 1 demo_logged)" by (rule log_step.stop) (simp_all add: demo_run_states)
  then show "log_reachable 2 (log_stop 1 demo_logged)" using logged step by blast
qed

theorem logger_is_fifo_witness: "lg_head (ls_log demo_logged) = 1 \<and> lg_ring (ls_log demo_logged) ! 0 = demo_first"
proof -
  from logger_is_fifo [OF demo_reachable(1)] have
    "lg_head (ls_log demo_logged) = of_nat (length (ls_published demo_logged))"
    "lg_ring (ls_log demo_logged) ! (0 mod unat (2 :: u64)) = ls_published demo_logged ! 0"
    unfolding Let_def by (auto simp: demo_run_states(2))
  then show ?thesis by (simp add: demo_run_states)
qed

theorem logger_race_free_witness: "lg_slot (ls_log demo_racing) 1 \<noteq> lg_slot (ls_log demo_racing) 0"
proof -
  have "ls_prod demo_racing = PFill 1 6 Warn demo_tag []" "ls_cons demo_racing = CFormat False 0 1 0 []"
    by (simp_all add: demo_call)
  from logger_race_free [OF demo_reachable(2) this] show ?thesis by auto
qed

theorem logger_drains_witness:
  "\<exists>s'. drain_step\<^sup>*\<^sup>* (log_stop 1 demo_logged) s' \<and> ls_cons s' = CDone \<and> ls_taken s' = 1"
proof -
  have s: "\<not> lg_running (ls_log (log_stop 1 demo_logged))" "ls_cons (log_stop 1 demo_logged) \<notin> {CNone, CDone}"
    "ls_published (log_stop 1 demo_logged) = [demo_first]"
    by (simp_all add: log_stop_def on_log_def demo_run_states)
  from logger_drains [OF demo_reachable(3) s(1,2)] show ?thesis unfolding s(3) by auto
qed

end
