(* ===== verification/Spec2Isabelle.thy ===== *)
theory Spec2Isabelle
  imports Itch_Enums Endian Book_Limits Driver_Properties Logger_Properties
begin

text \<open>
  A verification library of the ITCH 5.0 parser and order book engine of this repository: C++ headers
  under \<open>src/include\<close>, the program and the mapped file under \<open>src/src\<close>.

  \<^bold>\<open>The program.\<close> \<open>main\<close> (\<open>main.cpp\<close>) maps a file of length-prefixed binary messages
  (\<open>MMapFile\<close>), the \<open>Parser\<close> cuts it into frames, checks each payload against the packed struct of its
  type (\<open>WireFormat.hpp\<close>), loads the big-endian members (\<open>Endian.hpp\<close>) and calls one handler of the
  \<open>MatchingEngine\<close> per message, counting in \<open>Stats\<close>. The engine keeps the orders and price
  levels in two \<open>MemoryPool\<close>s, finds an order by its reference number in the \<open>DirectOrderIndex\<close>, and
  keeps per instrument (\<open>InstrumentMap\<close>) an \<open>OrderBook\<close>: two doubly linked lists of \<open>PriceLevel\<close>s, each
  a doubly linked list of \<open>Order\<close>s, with a \<open>FlatHashMap\<close> from price to level per side. At the end the
  reports are printed. The \<open>LockFreeLogger\<close> runs beside it with a drain thread.

  \<^bold>\<open>Conventions.\<close> Machine integers are words of their width and wrap. A pointer into a pool is a
  slot number, a nullable one an option. A computation that may touch memory it must not touch (a slot
  that is not live, a byte outside the buffer, a descriptor that is not open) or that may not end has
  the type \<open>'a exec\<close>, with \<open>None\<close> for undefined behaviour; a theorem that a result is \<open>Some\<close>
  says that neither happens. The build type of the project is Release, so the assertions of the code are
  not part of the model. Loops over the pools and the hash map are partial functions in the option
  monad, so that their termination is proved; the parser's loop is a total function on the bytes left.

  \<^bold>\<open>Theories and sources.\<close>
  \<^item> \<open>Itch_Prelude\<close>: machine types, masks by powers of two, runs of a machine (\<open>exec_list\<close>), and the
    locale \<open>simulation\<close> of a machine that implements a specification. Its interpretations are
    \<open>recorded\<close> (the queues with the ledger) and \<open>engine\<close> (the queues alone) in \<open>Engine_Machine\<close>, and
    \<open>files\<close> in \<open>MMap_Properties\<close>.
  \<^item> \<open>Itch_Types\<close>: the aliases and the enumerators of \<open>Types.hpp\<close> the program uses. \<open>Itch_Enums\<close>: every
    enumeration of that file with all its enumerators.
  \<^item> \<open>Endian\<close>: \<open>Endian.hpp\<close>; the four loads for both byte orders of the host.
  \<^item> \<open>Memory_Pool\<close>, \<open>Price_Level\<close> with \<open>Dll\<close>: \<open>MemoryPool.hpp\<close>, \<open>Order.hpp\<close>, \<open>PriceLevel.hpp\<close>: the constructor
    of a pool with the size of its block, which wraps, and its allocation (\<open>MemoryPool_new\<close>), the state it
    leaves when the block holds all slots (\<open>MemoryPool_init\<close>), the operations, and the theory
    of doubly linked lists that the levels and the orders of a level share.
  \<^item> \<open>Probing\<close>, \<open>Keyed_Table\<close>, \<open>Flat_Hash_Map\<close>: the open-addressing map of \<open>OrderBook.hpp\<close>, with insertion,
    lookup and the backward-shift erase.
  \<^item> \<open>Order_Book\<close>: the operations of \<open>OrderBook.hpp\<close>; \<open>Book_Rep\<close> and \<open>Book_Ops\<close> the representation
    invariant and its preservation; \<open>Book_Spec\<close> the abstract book, one list of orders per side;
    \<open>Book_Properties\<close> and \<open>Book_Limits\<close> the properties and the limits of the book.
  \<^item> \<open>Order_Index\<close>, \<open>Instrument_Map\<close>, \<open>Matching_Engine\<close>: the classes of \<open>MatchingEngine.hpp\<close> and
    \<open>InstrumentMap.hpp\<close>, every handler whole. \<open>Engine_Rep\<close>, \<open>Engine_Steps\<close>, \<open>Engine_Handlers\<close>: the global
    invariant and its preservation by small steps and by handlers. \<open>Engine_Spec\<close>: the abstract engine, a
    queue of orders per instrument and side. \<open>Engine_Ledger\<close>: what is recorded beside the queues, all
    counters and the reference data of the instruments, and the effect of each event on them.
    \<open>Engine_Machine\<close>, \<open>Engine_Properties\<close>, \<open>Ledger_Properties\<close>: the engine as a machine over events, its
    refinement with and without the ledger, and its properties. \<open>Time_Priority\<close>: the time at which an order
    joined the engine, read off the feed, and the price-time order of the queues.
  \<^item> \<open>Wire_Format\<close>, \<open>Stats\<close>, \<open>Parser\<close>: \<open>WireFormat.hpp\<close>, \<open>Stats.hpp\<close>, \<open>Parser.hpp\<close>, every struct, counter and
    handler. \<open>Parser_Spec\<close>: frames, decoding and encoding on lists of bytes. \<open>Parser_Refines\<close>,
    \<open>Parser_Roundtrip\<close>, \<open>Parser_Properties\<close>: the parser performs the steps of the frames, encoding is undone,
    and the events are those at the byte offsets of the ITCH specification, written out there.
  \<^item> \<open>Binary64\<close>, \<open>Text_Format\<close>: what the sources use of the language: the rounding of double arithmetic, on
    rational numbers, and \<open>std::format\<close>, with the fields, alignments and number formats of the format
    strings of the program, and a reader that takes the numbers out of a formatted text again.
  \<^item> \<open>Stats_Report\<close>, \<open>Engine_Report\<close>: the two reports. The rates, percentages and rows of
    \<open>Stats::print_report\<close>; the values, the pool check, the top-of-book sample and the text of the engine
    report, which \<open>main.cpp\<close> and \<open>ITCHProcessor.hpp\<close> have in two copies. \<open>Report_Properties\<close>: what that report
    says of the queues and the ledger.
  \<^item> \<open>MMap_File\<close>, \<open>MMap_Properties\<close>: \<open>MMapFile.hpp\<close> and \<open>MMapFile.cpp\<close> with the part of the kernel they talk
    to: descriptors, mappings, the two standard streams, advice, and the addresses touched.
  \<^item> \<open>Logger\<close>, \<open>Logger_Inv\<close>, \<open>Logger_Properties\<close>: \<open>Logger.hpp\<close>, both threads in every
    interleaving, where a load returns any value its memory order allows.
  \<^item> \<open>Driver\<close>, \<open>Driver_Properties\<close>: \<open>main.cpp\<close> and \<open>ITCHProcessor.hpp\<close>: the command line, the diagnostics,
    and both drivers from the opening of the file to the exit code.

  \<^bold>\<open>What is shown.\<close> From the inside out: the pool hands out every slot at most once and counts
  exactly; the hash map is a map, also under erase; each book operation refines an operation on
  price-time ordered queues; every handler of the engine, and so every run, refines the abstract
  engine and keeps pools and index exact, with no slot lost or released twice, while every counter, the
  peaks and the reference data are those of the ledger, which accounts for each event; the parser
  on any buffer reads only inside it and hands the engine exactly the events of the frames, and on an
  encoded feed exactly the encoded events; \<open>main\<close>, with pools that fit in memory, ends on every input whose events are admissible,
  with the exit code of its outcome and no resource left, and prints what queues and ledger say; an
  \<open>ITCHProcessor\<close> goes on with its books in a second run. The rates and percentages are accurate to the
  roundings of double arithmetic, and the printed engine report can be read back. The logger's ring is
  a bounded queue without a data race under the memory orders of its atomics, and its drain ends. The
  file owner never leaks; \<open>prefault\<close> ends and touches every page of the mapping once.

  \<^bold>\<open>Bounds.\<close> The properties of runs ask for an order pool of fewer than \<open>2 ^ 32\<close> slots (the
  sums of shares of a level are then exact in 64 bits) and a level pool of fewer than \<open>2 ^ 64\<close>; those of the
  engine start in the state that the constructor leaves when the blocks of both pools hold their slots,
  and those of \<open>main\<close> say when it does: the size of a block must not wrap at 64 bits (\<open>pools_fit\<close>), beyond
  that the constructor writes outside its block. An add or
  replace is admissible (\<open>event_ok\<close>) when its price is not \<open>0xFFFFFFFF\<close> and its side has fewer than 8192
  levels; \<open>Book_Limits\<close> shows that beyond either bound the code loses a level. No other message is
  restricted: unknown, duplicate and mismatching orders, full pools, and malformed frames are covered.

  \<^bold>\<open>Not modelled.\<close> Alignment, cache lines and the destructors that only free memory;
  allocations that fail, other than those of the two pools: the tables of the index, the
  instruments with their books and the ring of the logger are taken to be there. The three counters that the logger shows to other threads are read as they were stored
  last, and a level set by the logging thread itself may be seen late like one of another thread. The
  doubles of the program are quotients of 64-bit counters, so infinities, NaN and subnormal numbers are
  left out of \<open>Binary64\<close>. A field is padded by its number of bytes, which for text outside ASCII can
  differ from its width on a screen. The two values of the report about the inside of the order index, its
  overflow and its collisions, are modelled but not part of the specification of the report.
  In the drivers the logger has nothing to write, since nothing in the program logs an entry. The
  kernel's answers to \<open>open\<close>, \<open>fstat\<close>, \<open>mmap\<close> and \<open>write\<close>, the texts of its error codes, whether a block of a pool
  can be allocated, and the clock are parameters; the clock's readings are the 63 value bits of its signed
  64-bit count of nanoseconds.
\<close>

end
